(* ===== verification/Prelude.thy ===== *)
theory Prelude
  imports Main "HOL-Library.Word"
begin

text \<open>
  Shared foundations of the sheepcoro development: the ways a C++ operation can fail
  (\<open>error\<close>), the result type and its sequencing operator, addresses and pointer-linked
  awaiter lists, machine words, counting, reachability and invariants of step relations.
\<close>

named_theorems result_simps \<open>computation rules of results and their sequencing\<close>
named_theorems chain_simps \<open>rewriting of pointer-linked lists\<close>


section \<open>Failures and results\<close>

text \<open>
  \<open>Assert_failed\<close>: an \<^verbatim>\<open>assert\<close> of the source does not hold.
  \<open>Null_deref\<close>, \<open>Use_after_free\<close>, \<open>Inactive_member\<close>, \<open>Out_of_bounds\<close>: undefined behaviour
  the source would run into. \<open>Std_exit\<close>: the source calls \<^verbatim>\<open>std::exit(1)\<close>.
  \<open>Std_terminate\<close>: an exception leaves a \<^verbatim>\<open>noexcept\<close> function.
  \<open>Blocks\<close>: the calling thread waits for another one and does not return by itself.
\<close>

datatype error =
    Assert_failed
  | Null_deref
  | Use_after_free
  | Inactive_member
  | Out_of_bounds
  | Std_exit
  | Std_terminate
  | Blocks

type_synonym 'a result = "error + 'a"

definition bindE :: "'a result \<Rightarrow> ('a \<Rightarrow> 'b result) \<Rightarrow> 'b result" where
  "bindE m f = (case m of Inl e \<Rightarrow> Inl e | Inr x \<Rightarrow> f x)"

lemma bindE_Inr [simp, result_simps]: "bindE (Inr x) f = f x"
  by (simp add: bindE_def)

lemma bindE_Inl [simp, result_simps]: "bindE (Inl e) f = Inl e"
  by (simp add: bindE_def)

lemma bindE_eq_Inr [simp]: "bindE m f = Inr y \<longleftrightarrow> (\<exists>x. m = Inr x \<and> f x = Inr y)"
  by (cases m) auto

lemma bindE_assoc: "bindE (bindE m f) g = bindE m (\<lambda>x. bindE (f x) g)"
  by (cases m) auto

lemma bindE_Inr_right [simp]: "bindE m Inr = m"
  by (cases m) auto

text \<open>The same for operations whose loops may not end: \<open>None\<close> is not returning.\<close>

definition bindO :: "'a result option \<Rightarrow> ('a \<Rightarrow> 'b result option) \<Rightarrow> 'b result option" where
  "bindO m f = (case m of None \<Rightarrow> None | Some (Inl e) \<Rightarrow> Some (Inl e) | Some (Inr x) \<Rightarrow> f x)"

lemma bindO_simps [simp, result_simps]:
  "bindO None f = None" "bindO (Some (Inl e)) f = Some (Inl e)" "bindO (Some (Inr x)) f = f x"
  by (simp_all add: bindO_def)

lemma bindO_mono [partial_function_mono]:
  assumes "monotone (fun_ord option_ord) option_ord B" and "\<And>y. monotone (fun_ord option_ord) option_ord (C y)"
  shows "monotone (fun_ord option_ord) option_ord (\<lambda>f. bindO (B f) (\<lambda>y. C y f))"
proof (rule monotoneI)
  fix f g :: "'a \<Rightarrow> 'b option" assume "fun_ord option_ord f g"
  then have "option_ord (B f) (B g)" "\<And>y. option_ord (C y f) (C y g)" using assms by (auto dest: monotoneD)
  then show "option_ord (bindO (B f) (\<lambda>y. C y f)) (bindO (B g) (\<lambda>y. C y g))"
    by (cases "B g") (auto simp: bindO_def flat_ord_def split: sum.split, blast)
qed

text \<open>\<^verbatim>\<open>for\<close> loops over a fixed list of indices: the body runs on each in order and stops at a failure.\<close>

fun forE :: "'i list \<Rightarrow> ('i \<Rightarrow> 's \<Rightarrow> 's result) \<Rightarrow> 's \<Rightarrow> 's result" where
  "forE [] f s = Inr s"
| "forE (i # is) f s = bindE (f i s) (forE is f)"

lemma forE_append: "forE (xs @ ys) f s = bindE (forE xs f s) (forE ys f)"
  by (induction xs arbitrary: s) (auto simp: bindE_def split: sum.split)

lemma forE_const:
  "length xs = length ys \<Longrightarrow> forE xs (\<lambda>_. f) s = forE ys (\<lambda>_. f) s"
  by (induction xs ys arbitrary: s rule: list_induct2) (auto simp: bindE_def split: sum.split)

lemma forE_invariant:
  assumes "forE is f s = Inr t" and "P s"
    and "\<And>i s t. i \<in> set is \<Longrightarrow> P s \<Longrightarrow> f i s = Inr t \<Longrightarrow> P t"
  shows "P t"
  using assms
proof (induction "is" arbitrary: s)
  case Nil
  then show ?case by simp
next
  case (Cons i "is")
  then obtain u where "f i s = Inr u" and "forE is f u = Inr t" by auto
  with Cons show ?case by (metis list.set_intros)
qed

lemma forE_appends:
  assumes "forE is f s = Inr t" and "\<And>i s t. i \<in> set is \<Longrightarrow> f i s = Inr t \<Longrightarrow> \<exists>new. g t = g s @ new"
  shows "\<exists>new. g t = g s @ new"
  using assms(1)
  by (rule forE_invariant [where P = "\<lambda>u. \<exists>new. g u = g s @ new"]) (simp, metis append_assoc assms(2))


text \<open>A computation is safe when its result satisfies \<open>P\<close> or its failure is one of \<open>E\<close>.\<close>

definition safe :: "('a \<Rightarrow> bool) \<Rightarrow> error set \<Rightarrow> 'a result \<Rightarrow> bool" where
  "safe P E r \<longleftrightarrow> (case r of Inl e \<Rightarrow> e \<in> E | Inr x \<Rightarrow> P x)"

lemma safe_simps [simp]: "safe P E (Inr x) = P x" "safe P E (Inl e) = (e \<in> E)"
  by (simp_all add: safe_def)

lemma safe_bind: "safe P E m \<Longrightarrow> (\<And>x. P x \<Longrightarrow> safe Q E (f x)) \<Longrightarrow> safe Q E (bindE m f)"
  by (cases m) simp_all

lemma safe_mono: "safe P E m \<Longrightarrow> (\<And>x. P x \<Longrightarrow> Q x) \<Longrightarrow> E \<subseteq> F \<Longrightarrow> safe Q F m"
  by (cases m) auto

lemma safe_forE: "P s \<Longrightarrow> (\<And>i s. i \<in> set is \<Longrightarrow> P s \<Longrightarrow> safe P E (f i s)) \<Longrightarrow> safe P E (forE is f s)"
  by (induction "is" arbitrary: s) (auto intro: safe_bind)


section \<open>Addresses and pointer-linked lists\<close>

text \<open>
  Objects the code links through raw pointers (awaiters) live at addresses; address 0 is
  \<^verbatim>\<open>nullptr\<close>. \<open>chain nxt p as\<close>: starting at \<open>p\<close> and following the \<^verbatim>\<open>m_next\<close> field
  \<open>nxt\<close>, the code visits exactly \<open>as\<close> before it meets \<^verbatim>\<open>nullptr\<close>.
\<close>

type_synonym addr = nat

abbreviation (input) nullptr :: addr where "nullptr \<equiv> 0"

fun chain :: "(addr \<Rightarrow> addr) \<Rightarrow> addr \<Rightarrow> addr list \<Rightarrow> bool" where
  "chain nxt p [] \<longleftrightarrow> p = nullptr"
| "chain nxt p (a # as) \<longleftrightarrow> p = a \<and> a \<noteq> nullptr \<and> chain nxt (nxt a) as"

lemma chain_nullptr [simp, chain_simps]: "chain nxt nullptr as \<longleftrightarrow> as = []"
  by (cases as) auto

lemma chain_start: "p \<noteq> nullptr \<Longrightarrow> chain nxt p as \<longleftrightarrow> (\<exists>bs. as = p # bs \<and> chain nxt (nxt p) bs)"
  by (cases as) auto

lemma chain_frame [simp, chain_simps]: "a \<notin> set as \<Longrightarrow> chain (nxt(a := b)) p as = chain nxt p as"
  by (induction as arbitrary: p) auto

lemma chain_cong: "(\<And>a. a \<in> set as \<Longrightarrow> f a = g a) \<Longrightarrow> chain f p as = chain g p as"
  by (induction as arbitrary: p) auto

lemma chain_det: "chain nxt p as \<Longrightarrow> chain nxt p bs \<Longrightarrow> as = bs"
proof (induction as arbitrary: p bs)
  case Nil
  then show ?case by simp
next
  case (Cons a as)
  then show ?case by (cases bs) auto
qed

lemma chain_nonnull: "chain nxt p as \<Longrightarrow> nullptr \<notin> set as"
  by (induction as arbitrary: p) auto

lemma chain_suffix: "chain nxt p (as @ b # bs) \<Longrightarrow> chain nxt (nxt b) bs"
  by (induction as arbitrary: p) auto

lemma chain_distinct: "chain nxt p as \<Longrightarrow> distinct as"
proof (induction as arbitrary: p)
  case Nil
  then show ?case by simp
next
  case (Cons a as)
  have "a \<notin> set as"
  proof
    assume "a \<in> set as"
    then obtain ys zs where as: "as = ys @ a # zs" by (meson split_list)
    from Cons.prems have all: "chain nxt (nxt a) as" by simp
    with as have "chain nxt (nxt a) zs" by (blast intro: chain_suffix)
    with all have "as = zs" by (rule chain_det)
    with as show False by simp
  qed
  with Cons show ?case by auto
qed

lemma chain_push:
  "chain nxt p as \<Longrightarrow> a \<noteq> nullptr \<Longrightarrow> a \<notin> set as \<Longrightarrow> chain (nxt(a := p)) a (a # as)"
  by simp

lemma chain_snoc:
  assumes "chain nxt p as" and "a \<noteq> nullptr" and "a \<notin> set as" and "as \<noteq> []"
  shows "chain (nxt(a := nullptr, last as := a)) p (as @ [a])"
  using assms
proof (induction as arbitrary: p)
  case Nil
  then show ?case by simp
next
  case (Cons b as)
  have dist: "distinct (b # as)" using Cons.prems(1) by (rule chain_distinct)
  show ?case
  proof (cases "as = []")
    case True
    with Cons.prems show ?thesis by simp
  next
    case False
    with dist have "last as \<noteq> b" by (metis distinct.simps(2) last_in_set)
    with False Cons show ?thesis by auto
  qed
qed


section \<open>Machine words\<close>

lemma unat_take_bit: "unat (take_bit k w) = unat w mod 2 ^ k"
  by (simp only: unsigned_take_bit_eq flip: take_bit_eq_mod)

lemma unat_power2: "k < LENGTH('a :: len) \<Longrightarrow> unat (2 ^ k :: 'a word) = 2 ^ k"
  using unat_of_nat [of "2 ^ k", where ?'a = 'a] by simp

lemma sint_eq_unat:
  assumes "unat (w :: 'a :: len word) < 2 ^ (LENGTH('a) - 1)"
  shows "sint w = int (unat w)"
proof -
  have "int (unat w) < 2 ^ (LENGTH('a) - Suc 0)"
    using assms by (metis One_nat_def of_nat_less_iff of_nat_numeral of_nat_power)
  moreover have "- (2 ^ (LENGTH('a) - Suc 0)) \<le> int (unat w)"
    by (rule order_trans [of _ 0]) simp_all
  ultimately show ?thesis
    unfolding sint_uint uint_nat by (intro signed_take_bit_int_eq_self)
qed

lemma sint_negative:
  fixes w :: "'a :: len word"
  assumes "2 ^ (LENGTH('a) - 1) \<le> unat w"
  shows "sint w < 0"
proof (rule ccontr)
  assume "\<not> sint w < 0"
  moreover have "sint w < 2 ^ (LENGTH('a) - 1)" using sint_lt [of w] by simp
  moreover have "(2 :: int) ^ (LENGTH('a) - 1) \<le> 2 ^ LENGTH('a)" by (rule power_increasing) simp_all
  ultimately have "take_bit LENGTH('a) (sint w) = sint w" by (intro take_bit_int_eq_self) linarith+
  then have "uint w = sint w" by (simp add: uint_sint)
  moreover have "int (unat w) = uint w" by simp
  ultimately have "int (unat w) < 2 ^ (LENGTH('a) - 1)" using \<open>sint w < 2 ^ (LENGTH('a) - 1)\<close> by (simp only:)
  then show False using assms by (metis of_nat_less_iff of_nat_numeral of_nat_power not_le)
qed

lemma unat_add_below: "unat a + unat b < 2 ^ LENGTH('a) \<Longrightarrow> unat (a + b :: 'a :: len word) = unat a + unat b"
  by (simp add: unat_word_ariths)

lemma unat_of_nat_below: "n < 2 ^ LENGTH('a) \<Longrightarrow> unat (of_nat n :: 'a :: len word) = n"
  by (simp add: unat_of_nat)

text \<open>Positions counted from a wrapping counter are distinct modulo a power of two.\<close>

lemma mod_shift_inj:
  assumes "(t + i) mod m = (t + j) mod m" and "i < m" and "j < (m :: nat)"
  shows "i = j"
proof -
  have "(int t + int i) mod int m = (int t + int j) mod int m"
    using assms(1) by (simp flip: of_nat_add of_nat_mod)
  then have "int m dvd int i - int j" by (simp add: mod_eq_dvd_iff)
  moreover have "\<bar>int i - int j\<bar> < int m" using assms(2,3) by linarith
  ultimately have "int i - int j = 0" by (metis dvd_imp_le_int leD abs_of_nat)
  then show ?thesis by simp
qed

lemma unat_take_bit_shift:
  fixes t :: "'a :: len word"
  assumes "k \<le> LENGTH('a)"
  shows "unat (take_bit k (t + of_nat n)) = (unat t + n) mod 2 ^ k"
proof -
  have dvd: "(2 :: nat) ^ k dvd 2 ^ LENGTH('a)" using assms by (rule le_imp_power_dvd)
  have "unat (t + of_nat n) = (unat t + n) mod 2 ^ LENGTH('a)"
    by (simp only: unat_word_ariths unat_of_nat mod_add_right_eq)
  then show ?thesis by (simp only: unat_take_bit mod_mod_cancel [OF dvd])
qed

lemma take_bit_shift_inj:
  fixes t :: "'a :: len word"
  assumes "take_bit k (t + of_nat i) = take_bit k (t + of_nat j)"
    and "k \<le> LENGTH('a)" and "i < 2 ^ k" and "j < 2 ^ k"
  shows "i = j"
proof (rule mod_shift_inj [OF _ assms(3,4)])
  show "(unat t + i) mod 2 ^ k = (unat t + j) mod 2 ^ k"
    using arg_cong [OF assms(1), of unat] by (simp only: unat_take_bit_shift [OF assms(2)])
qed

lemma take_bit_shift_period:
  fixes t :: "'a :: len word"
  assumes "k \<le> LENGTH('a)"
  shows "take_bit k (t + 2 ^ k) = take_bit k t"
proof (rule word_unat_eq_iff [THEN iffD2])
  show "unat (take_bit k (t + 2 ^ k)) = unat (take_bit k t)"
    using unat_take_bit_shift [OF assms, of t "2 ^ k"] by (simp add: unat_take_bit)
qed


section \<open>Counting\<close>

text \<open>How many of the first \<open>N\<close> threads, slots or objects have a property.\<close>

definition tally :: "nat \<Rightarrow> ('b \<Rightarrow> bool) \<Rightarrow> (nat \<Rightarrow> 'b) \<Rightarrow> nat" where
  "tally N P f = (\<Sum>p<N. of_bool (P (f p)))"

lemma tally_never [simp]: "tally N (\<lambda>x. False) f = 0"
  by (simp add: tally_def)

lemma tally_change:
  assumes "p < N" and "\<And>i. i < N \<Longrightarrow> i \<noteq> p \<Longrightarrow> P' (g i) = P (f i)"
  shows "tally N P' g + of_bool (P (f p)) = tally N P f + of_bool (P' (g p))"
proof -
  have rest: "(\<Sum>i\<in>{..<N} - {p}. of_bool (P' (g i))) = (\<Sum>i\<in>{..<N} - {p}. of_bool (P (f i)) :: nat)"
    by (rule sum.cong) (use assms(2) in auto)
  have split: "(\<Sum>i<N. h i) = h p + (\<Sum>i\<in>{..<N} - {p}. h i)" for h :: "nat \<Rightarrow> nat"
    using assms(1) by (intro sum.remove) auto
  show ?thesis unfolding tally_def split [of "\<lambda>i. of_bool (P' (g i))"] split [of "\<lambda>i. of_bool (P (f i))"] rest by simp
qed

lemma tally_upd: "p < N \<Longrightarrow> tally N P (f(p := x)) + of_bool (P (f p)) = tally N P f + of_bool (P x)"
  using tally_change [of p N P "f(p := x)" P f] by simp

lemma tally_cong: "(\<And>i. i < N \<Longrightarrow> P' (g i) = P (f i)) \<Longrightarrow> tally N P' g = tally N P f"
  by (simp add: tally_def)

lemma tally_pos: "0 < tally N P f \<longleftrightarrow> (\<exists>p<N. P (f p))"
  by (auto simp: tally_def card_gt_0_iff)

lemma tally_two:
  assumes "p < N" "p' < N" "P (f p)" "P (f p')" "p \<noteq> p'"
  shows "2 \<le> tally N P f"
proof -
  have "(\<Sum>j\<in>{p, p'}. of_bool (P (f j)) :: nat) \<le> tally N P f"
    unfolding tally_def using assms by (intro sum_mono2) auto
  then show ?thesis using assms by simp
qed


section \<open>Step relations\<close>

text \<open>The states a machine given by its initial states and its step relation can reach.\<close>

inductive reachable :: "('s \<Rightarrow> bool) \<Rightarrow> ('s \<Rightarrow> 's \<Rightarrow> bool) \<Rightarrow> 's \<Rightarrow> bool"
  for start :: "'s \<Rightarrow> bool" and step :: "'s \<Rightarrow> 's \<Rightarrow> bool" where
  reach_start: "start s \<Longrightarrow> reachable start step s"
| reach_step: "reachable start step s \<Longrightarrow> step s t \<Longrightarrow> reachable start step t"

lemma reachable_steps: "step\<^sup>*\<^sup>* s t \<Longrightarrow> reachable start step s \<Longrightarrow> reachable start step t"
  by (induction rule: rtranclp_induct) (auto intro: reach_step)

text \<open>
  The contract every concurrent machine of the development meets: an invariant that holds
  at the start and that each atomic step keeps.
\<close>

locale step_system =
  fixes start :: "'s \<Rightarrow> bool"
    and step :: "'s \<Rightarrow> 's \<Rightarrow> bool"
    and inv :: "'s \<Rightarrow> bool"
  assumes inv_start: "start s \<Longrightarrow> inv s"
    and inv_step: "inv s \<Longrightarrow> step s t \<Longrightarrow> inv t"
begin

lemma reachable_inv: "reachable start step s \<Longrightarrow> inv s"
  by (induction rule: reachable.induct) (auto intro: inv_start inv_step)

lemma steps_inv: "step\<^sup>*\<^sup>* s t \<Longrightarrow> inv s \<Longrightarrow> inv t"
  by (induction rule: rtranclp_induct) (auto intro: inv_step)

end

end
