(* ===== verification/Bounded_Fifo.thy ===== *)
theory Bounded_Fifo
  imports Prelude
begin

text \<open>
  The contract of a bounded first-in-first-out buffer. The engine's task queue
  (\<open>Atomic_Queue\<close>) and the three buffers a channel can be built on (\<open>Channel\<close>) all meet
  it, each by an \<^theory_text>\<open>interpretation\<close> on its own model; what a mixed sequence of
  insertions and removals delivers is then proved once, here.
\<close>

datatype 'a fifo_op = Put 'a | Get

text \<open>
  A sequence of operations on a buffer given by its four functions: an insertion into a
  full buffer and a removal from an empty one do nothing. Returned: the values accepted,
  the values delivered, and the buffer left.
\<close>

fun fifo_run :: "('a \<Rightarrow> 'q \<Rightarrow> 'q) \<Rightarrow> ('q \<Rightarrow> 'a \<times> 'q) \<Rightarrow> ('q \<Rightarrow> bool) \<Rightarrow> ('q \<Rightarrow> bool)
    \<Rightarrow> 'a fifo_op list \<Rightarrow> 'q \<Rightarrow> 'a list \<times> 'a list \<times> 'q" where
  "fifo_run put get isfull isempty [] q = ([], [], q)"
| "fifo_run put get isfull isempty (Put x # ops) q =
     (if isfull q then fifo_run put get isfull isempty ops q
      else (case fifo_run put get isfull isempty ops (put x q) of (acc, del, q') \<Rightarrow> (x # acc, del, q')))"
| "fifo_run put get isfull isempty (Get # ops) q =
     (if isempty q then fifo_run put get isfull isempty ops q
      else (case fifo_run put get isfull isempty ops (snd (get q)) of
              (acc, del, q') \<Rightarrow> (acc, fst (get q) # del, q')))"

locale bounded_fifo =
  fixes put :: "'a \<Rightarrow> 'q \<Rightarrow> 'q"
    and get :: "'q \<Rightarrow> 'a \<times> 'q"
    and isfull :: "'q \<Rightarrow> bool"
    and isempty :: "'q \<Rightarrow> bool"
    and items :: "'q \<Rightarrow> 'a list"
    and room :: "'q \<Rightarrow> nat"
    and inv :: "'q \<Rightarrow> bool"
  assumes inv_put: "inv q \<Longrightarrow> \<not> isfull q \<Longrightarrow> inv (put x q)"
    and items_put: "inv q \<Longrightarrow> \<not> isfull q \<Longrightarrow> items (put x q) = items q @ [x]"
    and room_put: "inv q \<Longrightarrow> \<not> isfull q \<Longrightarrow> room (put x q) = room q"
    and inv_get: "inv q \<Longrightarrow> \<not> isempty q \<Longrightarrow> inv (snd (get q))"
    and items_get: "inv q \<Longrightarrow> \<not> isempty q \<Longrightarrow> items q = fst (get q) # items (snd (get q))"
    and room_get: "inv q \<Longrightarrow> \<not> isempty q \<Longrightarrow> room (snd (get q)) = room q"
    and empty_iff: "inv q \<Longrightarrow> isempty q \<longleftrightarrow> items q = []"
    and full_iff: "inv q \<Longrightarrow> isfull q \<longleftrightarrow> length (items q) = room q"
    and items_bound: "inv q \<Longrightarrow> length (items q) \<le> room q"
begin

text \<open>Nothing is lost, duplicated or reordered: what was there and what was accepted is,
  in this order, what was delivered and what is still there.\<close>

lemma run_fifo:
  assumes "inv q" and "fifo_run put get isfull isempty ops q = (acc, del, q')"
  shows "inv q' \<and> items q @ acc = del @ items q' \<and> room q' = room q"
  using assms
proof (induction ops arbitrary: q acc del)
  case Nil
  then show ?case by simp
next
  case (Cons a ops)
  show ?case
  proof (cases a)
    case (Put x)
    with Cons.prems Cons.IH [of "put x q"] Cons.IH [of q] show ?thesis
      by (auto simp: inv_put items_put room_put split: if_splits prod.splits)
  next
    case Get
    with Cons.prems Cons.IH [of "snd (get q)"] Cons.IH [of q] show ?thesis
      by (auto simp: inv_get items_get room_get split: if_splits prod.splits)
  qed
qed

text \<open>The buffer cannot be told from a list with the same bound.\<close>

lemma run_reference:
  assumes "inv q" and "fifo_run put get isfull isempty ops q = (acc, del, q')" and "r = room q"
  shows "fifo_run (\<lambda>x l. l @ [x]) (\<lambda>l. (hd l, tl l)) (\<lambda>l. length l = r) (\<lambda>l. l = []) ops (items q) = (acc, del, items q')"
  using assms
proof (induction ops arbitrary: q acc del)
  case Nil
  then show ?case by simp
next
  case (Cons a ops)
  show ?case
  proof (cases a)
    case (Put x)
    have full: "isfull q \<longleftrightarrow> length (items q) = r" using Cons.prems(1,3) full_iff by simp
    show ?thesis
    proof (cases "isfull q")
      case True
      with Put Cons.prems Cons.IH [of q] full show ?thesis by simp
    next
      case False
      then obtain acc1 where run: "fifo_run put get isfull isempty ops (put x q) = (acc1, del, q')" "acc = x # acc1"
        using Put Cons.prems(2) by (auto split: prod.splits)
      have "inv (put x q)" "r = room (put x q)" "items (put x q) = items q @ [x]"
        using Cons.prems(1,3) False by (simp_all add: inv_put room_put items_put)
      with Cons.IH [OF _ run(1)] run(2) Put False full show ?thesis by simp
    qed
  next
    case Get
    show ?thesis
    proof (cases "isempty q")
      case True
      with Get Cons.prems Cons.IH [of q] show ?thesis by (simp add: empty_iff)
    next
      case False
      let ?q = "snd (get q)"
      obtain del1 where run: "fifo_run put get isfull isempty ops ?q = (acc, del1, q')" "del = fst (get q) # del1"
        using False Get Cons.prems(2) by (auto split: prod.splits)
      have "items q = fst (get q) # items ?q" using Cons.prems(1) False by (rule items_get)
      with Get Cons.IH [OF _ run(1)] run(2) False Cons.prems show ?thesis by (simp add: inv_get room_get)
    qed
  qed
qed

lemma run_bounded:
  assumes "inv q" and "fifo_run put get isfull isempty ops q = (acc, del, q')"
  shows "length (items q') \<le> room q"
  using run_fifo [OF assms] items_bound by fastforce

lemma put_then_get:
  assumes "inv q" and "\<not> isfull q" and "isempty q"
  shows "fst (get (put x q)) = x \<and> items (snd (get (put x q))) = []"
proof -
  have "items (put x q) = [x]" and "inv (put x q)"
    using assms by (simp_all add: items_put inv_put empty_iff)
  then show ?thesis using items_get [of "put x q"] by (simp add: empty_iff)
qed

end

end
