(* ===== verification/Config.thy ===== *)
theory Config
  imports Prelude
begin

text \<open>
  Compile-time constants and enumerations: \<^verbatim>\<open>config/config.h.in\<close>,
  \<^verbatim>\<open>include/coro/detail/types.hpp\<close>.
\<close>

section \<open>config.h.in\<close>

definition kCacheLineSize :: nat where "kCacheLineSize = 64"
definition kEntryLength :: "32 word" where "kEntryLength = 10240"
definition kEnableFixfd :: bool where "kEnableFixfd = True"
definition kFixFdArraySize :: nat where "kFixFdArraySize = 8"
definition kQueCap :: nat where "kQueCap = 16384"
definition kMaxRecursiveDepth :: "64 word" where "kMaxRecursiveDepth = 4096"
definition kDefaultPort :: int where "kDefaultPort = 8000"
definition kBacklog :: int where "kBacklog = 5"


section \<open>types.hpp\<close>

datatype schedule_strategy = fifo | lifo | schedule_none

datatype dispatch_strategy = round_robin | dispatch_none

definition kDispatchStrategy :: dispatch_strategy where "kDispatchStrategy = round_robin"

end
