(* ===== verification/Atomic_Queue.thy ===== *)
theory Atomic_Queue
  imports Bounded_Fifo Config
begin

text \<open>
  The engine's task queue, \<^verbatim>\<open>include/coro/atomic_que.hpp\<close>: an
  \<^verbatim>\<open>AtomicQueueB2<T, std::allocator<T>, true, false, false>\<close> of capacity \<^verbatim>\<open>kQueCap\<close>
  (\<^verbatim>\<open>third_party/atomic_queue/include/atomic_queue/atomic_queue.h\<close>).
  Each operation is modelled as it runs when no other thread interferes with it; an
  operation that would spin until another thread acts is the failure \<open>Blocks\<close>.
  Head and tail are 32-bit counters that wrap around. The two arrays are functions of the
  slot number; \<open>slot_bound\<close> shows that every slot the code touches is inside them.
\<close>

unbundle bit_operations_syntax

section \<open>Index arithmetic\<close>

text \<open>\<^verbatim>\<open>details::remap_index\<close>: swaps the lowest \<open>BITS\<close> bits of an index with the next ones.\<close>

definition remap_index :: "nat \<Rightarrow> 32 word \<Rightarrow> 32 word" where
  "remap_index BITS index =
     (if BITS = 0 then index
      else let mix_mask = push_bit BITS 1 - 1;
               mix = (index XOR drop_bit BITS index) AND mix_mask
           in index XOR mix XOR push_bit BITS mix)"

definition or_equal :: "32 word \<Rightarrow> nat \<Rightarrow> 32 word" where
  "or_equal x u = x OR drop_bit u x"

definition round_up_to_power_of_2 :: "32 word \<Rightarrow> 32 word" where
  "round_up_to_power_of_2 a =
     or_equal (or_equal (or_equal (or_equal (or_equal (a - 1) 1) 2) 4) 8) 16 + 1"

text \<open>\<^verbatim>\<open>GetCacheLineIndexBits\<close>, and \<^verbatim>\<open>SHUFFLE_BITS\<close> of \<^verbatim>\<open>AtomicQueueB2\<close>: the states are
  single bytes and a cache line has 64 of them.\<close>

definition GetCacheLineIndexBits :: "nat \<Rightarrow> nat" where
  "GetCacheLineIndexBits n =
     (if n = 256 then 8 else if n = 128 then 7 else if n = 64 then 6 else if n = 32 then 5
      else if n = 16 then 4 else if n = 8 then 3 else if n = 4 then 2 else if n = 2 then 1 else 0)"

definition SHUFFLE_BITS :: nat where
  "SHUFFLE_BITS = GetCacheLineIndexBits (kCacheLineSize div 1)"


section \<open>The queue\<close>

datatype slot_state = EMPTY | STORING | STORED | LOADING

record 'a atomic_queue =
  aq_head :: "32 word"
  aq_tail :: "32 word"
  aq_size :: "32 word"
  aq_states :: "nat \<Rightarrow> slot_state"
  aq_elements :: "nat \<Rightarrow> 'a"

text \<open>The constructor; \<open>d\<close> is the value-initialised element.\<close>

definition AtomicQueueB2 :: "32 word \<Rightarrow> 'a \<Rightarrow> 'a atomic_queue" where
  "AtomicQueueB2 sz d =
     \<lparr>aq_head = 0, aq_tail = 0,
      aq_size = max (round_up_to_power_of_2 sz) (push_bit (SHUFFLE_BITS * 2) 1),
      aq_states = (\<lambda>_. EMPTY), aq_elements = (\<lambda>_. d)\<rparr>"

text \<open>\<^verbatim>\<open>CapacityToConstructor\<close>: the queue the engine owns.\<close>

definition AtomicQueue :: "'a \<Rightarrow> 'a atomic_queue" where
  "AtomicQueue d = AtomicQueueB2 (of_nat kQueCap) d"

definition slot :: "'a atomic_queue \<Rightarrow> 32 word \<Rightarrow> nat" where
  "slot q pos = unat (remap_index SHUFFLE_BITS (pos AND (aq_size q - 1)))"

definition do_push :: "'a \<Rightarrow> 32 word \<Rightarrow> 'a atomic_queue \<Rightarrow> 'a atomic_queue result" where
  "do_push element head q =
     (let index = slot q head in
      if aq_states q index = EMPTY
      then Inr (q\<lparr>aq_elements := (aq_elements q)(index := element),
                  aq_states := (aq_states q)(index := STORED)\<rparr>)
      else Inl Blocks)"

definition do_pop :: "32 word \<Rightarrow> 'a atomic_queue \<Rightarrow> ('a \<times> 'a atomic_queue) result" where
  "do_pop tail q =
     (let index = slot q tail in
      if aq_states q index = STORED
      then Inr (aq_elements q index, q\<lparr>aq_states := (aq_states q)(index := EMPTY)\<rparr>)
      else Inl Blocks)"

definition try_push :: "'a \<Rightarrow> 'a atomic_queue \<Rightarrow> (bool \<times> 'a atomic_queue) result" where
  "try_push element q =
     (if sint (aq_head q - aq_tail q) \<ge> sint (aq_size q) then Inr (False, q)
      else bindE (do_push element (aq_head q) (q\<lparr>aq_head := aq_head q + 1\<rparr>)) (\<lambda>q'. Inr (True, q')))"

definition try_pop :: "'a atomic_queue \<Rightarrow> ('a option \<times> 'a atomic_queue) result" where
  "try_pop q =
     (if sint (aq_head q - aq_tail q) \<le> 0 then Inr (None, q)
      else bindE (do_pop (aq_tail q) (q\<lparr>aq_tail := aq_tail q + 1\<rparr>)) (\<lambda>(x, q'). Inr (Some x, q')))"

definition push :: "'a \<Rightarrow> 'a atomic_queue \<Rightarrow> 'a atomic_queue result" where
  "push element q = do_push element (aq_head q) (q\<lparr>aq_head := aq_head q + 1\<rparr>)"

definition pop :: "'a atomic_queue \<Rightarrow> ('a \<times> 'a atomic_queue) result" where
  "pop q = do_pop (aq_tail q) (q\<lparr>aq_tail := aq_tail q + 1\<rparr>)"

definition was_size :: "'a atomic_queue \<Rightarrow> 32 word" where
  "was_size q = of_int (max (sint (aq_head q - aq_tail q)) 0)"

definition was_empty :: "'a atomic_queue \<Rightarrow> bool" where
  "was_empty q \<longleftrightarrow> was_size q = 0"

definition was_full :: "'a atomic_queue \<Rightarrow> bool" where
  "was_full q \<longleftrightarrow> was_size q \<ge> aq_size q"

definition capacity :: "'a atomic_queue \<Rightarrow> 32 word" where
  "capacity q = aq_size q"

definition swap :: "'a atomic_queue \<Rightarrow> 'a atomic_queue \<Rightarrow> 'a atomic_queue \<times> 'a atomic_queue" where
  "swap q b =
     (q\<lparr>aq_head := aq_head b, aq_tail := aq_tail b, aq_size := aq_size b, aq_states := aq_states b, aq_elements := aq_elements b\<rparr>,
      b\<lparr>aq_head := aq_head q, aq_tail := aq_tail q, aq_size := aq_size q, aq_states := aq_states q, aq_elements := aq_elements q\<rparr>)"


section \<open>Index arithmetic is right\<close>

lemma mix_mask_eq: "2 ^ n - 1 = (mask n :: 32 word)"
  by (simp add: mask_eq_exp_minus_1)

lemma bit_remap_index:
  assumes "2 * BITS \<le> 32"
  shows "bit (remap_index BITS x) i \<longleftrightarrow>
    (if i < BITS then bit x (i + BITS) else if i < 2 * BITS then bit x (i - BITS) else bit x i)"
  using assms
  by (auto simp: remap_index_def Let_def mix_mask_eq bit_simps add.commute dest: bit_imp_le_length)

lemma remap_index_involution:
  assumes "2 * BITS \<le> 32"
  shows "remap_index BITS (remap_index BITS x) = x"
  by (rule bit_word_eqI) (use assms in \<open>auto simp: bit_remap_index\<close>)

lemma remap_index_take_bit:
  assumes "2 * BITS \<le> k" and "k \<le> 32"
  shows "remap_index BITS (take_bit k x) = take_bit k (remap_index BITS x)"
  by (rule bit_word_eqI) (use assms in \<open>auto simp: bit_remap_index bit_simps\<close>)

lemma remap_index_eq_iff:
  assumes "2 * BITS \<le> 32"
  shows "remap_index BITS x = remap_index BITS y \<longleftrightarrow> x = y"
  using remap_index_involution [OF assms] by metis

text \<open>Rounding up: after the five steps, bit \<open>i\<close> is set iff some bit at or above \<open>i\<close> was.\<close>

lemma bit_or_equal:
  assumes "\<And>i. bit y i \<longleftrightarrow> (\<exists>j<n. bit x (i + j))"
  shows "bit (or_equal y n) i \<longleftrightarrow> (\<exists>j<2 * n. bit x (i + j))"
proof -
  have "bit (or_equal y n) i \<longleftrightarrow> (\<exists>j<n. bit x (i + j)) \<or> (\<exists>j<n. bit x (i + n + j))"
    by (simp add: or_equal_def bit_simps assms add.commute)
  also have "\<dots> \<longleftrightarrow> (\<exists>j<2 * n. bit x (i + j))"
  proof safe
    fix j assume "j < n" and "bit x (i + n + j)"
    then show "\<exists>j<2 * n. bit x (i + j)" by (intro exI [of _ "n + j"]) (simp add: add.assoc)
  next
    fix j assume "j < 2 * n" and "bit x (i + j)" and "\<not> (\<exists>j<n. bit x (i + n + j))"
    then show "\<exists>j<n. bit x (i + j)"
      by (cases "j < n") (auto dest: spec [of _ "j - n"])
  qed (force intro: less_le_trans)
  finally show ?thesis .
qed

lemma bit_smear:
  "bit (or_equal (or_equal (or_equal (or_equal (or_equal x 1) 2) 4) 8) 16) i \<longleftrightarrow> (\<exists>j\<ge>i. bit x j)"
proof -
  have 1: "bit x i \<longleftrightarrow> (\<exists>j<1. bit x (i + j))" for i by simp
  note 2 = bit_or_equal [OF 1, simplified]
  note 4 = bit_or_equal [OF 2, simplified]
  note 8 = bit_or_equal [OF 4, simplified]
  note 16 = bit_or_equal [OF 8, simplified]
  have "bit (or_equal (or_equal (or_equal (or_equal (or_equal x 1) 2) 4) 8) 16) i
      \<longleftrightarrow> (\<exists>j<32. bit x (i + j))"
    using bit_or_equal [OF 16, of i] by simp
  also have "\<dots> \<longleftrightarrow> (\<exists>j\<ge>i. bit x j)"
  proof safe
    fix j assume "j \<ge> i" and "bit x j"
    moreover from \<open>bit x j\<close> have "j < 32" by (auto dest: bit_imp_le_length)
    ultimately show "\<exists>j<32. bit x (i + j)" by (intro exI [of _ "j - i"]) auto
  qed (metis le_add1)
  finally show ?thesis .
qed

lemma round_up_power:
  assumes k: "k \<le> 31" and m: "m < 2 ^ k" "k = 0 \<or> 2 ^ (k - 1) \<le> m"
  shows "round_up_to_power_of_2 (of_nat (Suc m)) = 2 ^ k"
proof -
  let ?x = "of_nat m :: 32 word"
  have bx: "bit ?x j \<longleftrightarrow> j < 32 \<and> bit m j" for j
    by (simp add: bit_simps)
  have "(\<exists>j\<ge>i. bit ?x j) \<longleftrightarrow> i < k" for i
  proof
    assume "\<exists>j\<ge>i. bit ?x j"
    then obtain j where "j \<ge> i" and j: "bit m j" by (auto simp: bx)
    moreover have "j < k"
    proof (rule ccontr)
      assume "\<not> j < k"
      with m(1) have "m < 2 ^ j" by (meson less_le_trans not_less one_le_numeral power_increasing)
      with j show False by (simp add: bit_iff_odd)
    qed
    ultimately show "i < k" by simp
  next
    assume i: "i < k"
    then have "2 ^ (k - 1) \<le> m" and "m < 2 * 2 ^ (k - 1)" using m by (auto simp: power_eq_if)
    then have "m div 2 ^ (k - 1) = 1" by (intro div_nat_eqI) simp_all
    then have "bit m (k - 1)" by (simp add: bit_iff_odd)
    with i k show "\<exists>j\<ge>i. bit ?x j" by (intro exI [of _ "k - 1"]) (auto simp: bx)
  qed
  then have "or_equal (or_equal (or_equal (or_equal (or_equal ?x 1) 2) 4) 8) 16 = mask k"
    by (intro bit_word_eqI) (auto simp only: bit_smear bit_mask_iff possible_bit_word)
  then show ?thesis
    by (simp add: round_up_to_power_of_2_def mask_eq_exp_minus_1)
qed


section \<open>The queue is a bounded first-in-first-out buffer\<close>

definition aq_count :: "'a atomic_queue \<Rightarrow> nat" where
  "aq_count q = unat (aq_head q - aq_tail q)"

definition aq_items :: "'a atomic_queue \<Rightarrow> 'a list" where
  "aq_items q = map (\<lambda>j. aq_elements q (slot q (aq_tail q + of_nat j))) [0..<aq_count q]"

text \<open>The size is a power of two, head is at most that far ahead of tail, and of the slots
  counted from tail exactly the first \<open>aq_count q\<close> hold an element.\<close>

definition aq_inv :: "'a atomic_queue \<Rightarrow> bool" where
  "aq_inv q \<longleftrightarrow>
     (\<exists>k. 12 \<le> k \<and> k \<le> 30 \<and> aq_size q = 2 ^ k) \<and>
     aq_count q \<le> unat (aq_size q) \<and>
     (\<forall>j < unat (aq_size q).
        aq_states q (slot q (aq_tail q + of_nat j)) = (if j < aq_count q then STORED else EMPTY))"

lemma SHUFFLE_BITS_6 [simp]: "SHUFFLE_BITS = 6"
  by (simp add: SHUFFLE_BITS_def GetCacheLineIndexBits_def kCacheLineSize_def)

lemma slot_take_bit:
  assumes "aq_size q = 2 ^ k" and "12 \<le> k" and "k \<le> 32"
  shows "slot q c = unat (take_bit k (remap_index 6 c))"
  using assms
  by (simp add: slot_def mix_mask_eq take_bit_eq_mask [symmetric] remap_index_take_bit)

lemma slot_bound:
  assumes "aq_inv q"
  shows "slot q c < unat (aq_size q)"
proof -
  from assms obtain k where k: "12 \<le> k" "k \<le> 30" "aq_size q = 2 ^ k" by (auto simp: aq_inv_def)
  then have "unat (take_bit k (remap_index 6 c)) < 2 ^ k" by (simp add: unat_take_bit)
  then show ?thesis using k by (simp add: slot_take_bit unat_power2)
qed

lemma slot_inj:
  assumes "aq_inv q" and "slot q (t + of_nat i) = slot q (t + of_nat j)"
    and "i < unat (aq_size q)" and "j < unat (aq_size q)"
  shows "i = j"
proof -
  from assms(1) obtain k where k: "12 \<le> k" "k \<le> 30" "aq_size q = 2 ^ k" by (auto simp: aq_inv_def)
  then have ij: "i < 2 ^ k" "j < 2 ^ k" using assms(3,4) by (simp_all add: unat_power2)
  from assms(2) k
  have "unat (take_bit k (remap_index 6 (t + of_nat i))) = unat (take_bit k (remap_index 6 (t + of_nat j)))"
    by (simp add: slot_take_bit)
  then have "remap_index 6 (take_bit k (t + of_nat i)) = remap_index 6 (take_bit k (t + of_nat j))"
    using k by (simp only: word_unat_eq_iff [symmetric]) (simp add: remap_index_take_bit)
  then have "take_bit k (t + of_nat i) = take_bit k (t + of_nat j)"
    by (simp add: remap_index_eq_iff)
  then show ?thesis by (rule take_bit_shift_inj) (use k ij in simp_all)
qed

lemma slot_period:
  assumes "aq_inv q"
  shows "slot q (t + aq_size q) = slot q t"
proof -
  from assms obtain k where k: "12 \<le> k" "k \<le> 30" "aq_size q = 2 ^ k" by (auto simp: aq_inv_def)
  then have "take_bit k (t + 2 ^ k) = take_bit k t" by (intro take_bit_shift_period) simp
  with k show ?thesis by (simp add: slot_take_bit flip: remap_index_take_bit)
qed

lemma aq_sizes:
  assumes "aq_inv q"
  shows "unat (aq_size q) \<le> 2 ^ 30" and "0 < unat (aq_size q)"
    and "aq_count q \<le> unat (aq_size q)"
    and "sint (aq_head q - aq_tail q) = int (aq_count q)"
    and "sint (aq_size q) \<le> sint (aq_head q - aq_tail q) \<longleftrightarrow> aq_count q = unat (aq_size q)"
proof -
  from assms obtain k where k: "12 \<le> k" "k \<le> 30" "aq_size q = 2 ^ k" by (auto simp: aq_inv_def)
  show le: "unat (aq_size q) \<le> 2 ^ 30" and "0 < unat (aq_size q)"
    using k power_increasing [of k 30 "2 :: nat"] by (simp_all add: unat_power2)
  have sz: "sint (aq_size q) = int (unat (aq_size q))"
    using le by (intro sint_eq_unat) simp
  show n: "aq_count q \<le> unat (aq_size q)" using assms by (simp add: aq_inv_def)
  show c: "sint (aq_head q - aq_tail q) = int (aq_count q)"
    unfolding aq_count_def using le n by (intro sint_eq_unat) (simp add: aq_count_def)
  show "sint (aq_size q) \<le> sint (aq_head q - aq_tail q) \<longleftrightarrow> aq_count q = unat (aq_size q)"
    using n unfolding sz c of_nat_le_iff by auto
qed

lemma aq_head_eq: "aq_head q = aq_tail q + of_nat (aq_count q)"
  by (simp add: aq_count_def)

lemma slot_cong: "aq_size p = aq_size q \<Longrightarrow> slot p c = slot q c"
  by (simp add: slot_def)

text \<open>Pushing into a queue with room stores the element at the end.\<close>

lemma try_push_room:
  assumes inv: "aq_inv q" and room: "aq_count q < unat (aq_size q)"
  obtains q' where "try_push x q = Inr (True, q')" and "aq_inv q'" and "aq_items q' = aq_items q @ [x]"
    and "aq_size q' = aq_size q"
proof -
  let ?n = "aq_count q" and ?i = "slot q (aq_head q)"
  let ?q = "q\<lparr>aq_head := aq_head q + 1, aq_elements := (aq_elements q)(?i := x),
              aq_states := (aq_states q)(?i := STORED)\<rparr>"
  note sizes = aq_sizes [OF inv]
  have slots: "slot ?q c = slot q c" for c by (rule slot_cong) simp
  have at: "slot q (aq_tail q + of_nat j) = ?i \<longleftrightarrow> j = ?n" if "j < unat (aq_size q)" for j
    using slot_inj [OF inv, of "aq_tail q" j ?n] that room by (auto simp: aq_head_eq [symmetric])
  have "aq_states q ?i = EMPTY"
    using inv room by (auto simp: aq_inv_def aq_head_eq [of q])
  then have eq: "try_push x q = Inr (True, ?q)"
    using room sizes by (simp add: try_push_def do_push_def Let_def slot_def)
  have "unat (aq_head q - aq_tail q + 1) = unat (aq_head q - aq_tail q) + unat (1 :: 32 word)"
    using room sizes(1) by (intro unat_add_below) (simp add: aq_count_def)
  moreover have e: "aq_head q + 1 - aq_tail q = aq_head q - aq_tail q + 1" by simp
  ultimately have cnt: "aq_count ?q = Suc ?n"
    by (simp add: aq_count_def e)
  have "aq_states ?q (slot ?q (aq_tail ?q + of_nat j)) = (if j < aq_count ?q then STORED else EMPTY)"
    if "j < unat (aq_size q)" for j
    using inv that at [OF that] by (auto simp: cnt slots aq_inv_def less_Suc_eq)
  then have inv': "aq_inv ?q"
    using inv room by (simp add: aq_inv_def cnt)
  have items: "aq_items ?q = aq_items q @ [x]"
    using at room by (auto simp: aq_items_def cnt slots)
  show thesis by (rule that [OF eq inv' items]) simp
qed

lemma try_push_full:
  assumes "aq_inv q" and "aq_count q = unat (aq_size q)"
  shows "try_push x q = Inr (False, q)"
  using assms aq_sizes [OF assms(1)] by (simp add: try_push_def)

text \<open>Popping from a queue with an element removes the oldest one.\<close>

lemma pop_item:
  assumes inv: "aq_inv q" and some: "0 < aq_count q"
  obtains x q' where "pop q = Inr (x, q')" and "aq_inv q'" and "aq_items q = x # aq_items q'"
    and "aq_size q' = aq_size q"
proof -
  let ?n = "aq_count q" and ?i = "slot q (aq_tail q)"
  let ?q = "q\<lparr>aq_tail := aq_tail q + 1, aq_states := (aq_states q)(?i := EMPTY)\<rparr>"
  note sizes = aq_sizes [OF inv]
  have slots: "slot ?q c = slot q c" for c by (rule slot_cong) simp
  have st: "aq_states q (slot q (aq_tail q + of_nat j)) = (if j < ?n then STORED else EMPTY)"
    if "j < unat (aq_size q)" for j using inv that by (simp add: aq_inv_def)
  from st [of 0] some sizes(2) have "aq_states q ?i = STORED" by simp
  then have eq: "pop q = Inr (aq_elements q ?i, ?q)"
    by (simp add: pop_def do_pop_def Let_def slot_def)
  have e: "aq_head q - (aq_tail q + 1) = aq_head q - aq_tail q - 1" by simp
  have "unat (aq_head q - aq_tail q - 1) = unat (aq_head q - aq_tail q) - 1"
    using some by (intro unat_minus_one) (auto simp: aq_count_def)
  then have cnt: "aq_count ?q = ?n - 1"
    by (simp add: aq_count_def e)
  have suc: "aq_tail q + of_nat (Suc j) = aq_tail q + 1 + of_nat j" for j by simp
  have at: "slot q (aq_tail q + 1 + of_nat j) = ?i \<longleftrightarrow> Suc j = unat (aq_size q)"
    if "j < unat (aq_size q)" for j
  proof (cases "Suc j = unat (aq_size q)")
    case True
    then have "of_nat (Suc j) = aq_size q" by (simp del: of_nat_Suc)
    with slot_period [OF inv, of "aq_tail q"] have "slot q (aq_tail q + of_nat (Suc j)) = ?i" by simp
    with True show ?thesis unfolding suc by simp
  next
    case False
    with that have "Suc j < unat (aq_size q)" by simp
    with slot_inj [OF inv, of "aq_tail q" "Suc j" 0] sizes(2) False show ?thesis
      unfolding suc by auto
  qed
  have "aq_states ?q (slot ?q (aq_tail ?q + of_nat j)) = (if j < aq_count ?q then STORED else EMPTY)"
    if j: "j < unat (aq_size q)" for j
    using at [OF j] st [of "Suc j"] j sizes(3) some unfolding slots cnt suc by auto
  then have inv': "aq_inv ?q"
    using inv by (auto simp: aq_inv_def cnt)
  have "[0..<?n] = 0 # map Suc [0..<?n - 1]"
    using some by (simp add: upt_conv_Cons map_Suc_upt)
  then have items: "aq_items q = aq_elements q ?i # aq_items ?q"
    unfolding aq_items_def cnt slots by (simp add: comp_def add.assoc)
  show thesis by (rule that [OF eq inv' items]) simp
qed

lemma pop_empty:
  assumes "aq_inv q" and "aq_count q = 0"
  shows "pop q = Inl Blocks"
proof -
  from assms have "aq_states q (slot q (aq_tail q + of_nat 0)) = EMPTY"
    using aq_sizes(2) [OF assms(1)] unfolding aq_inv_def by auto
  then show ?thesis by (simp add: pop_def do_pop_def Let_def slot_def)
qed

lemma length_aq_items [simp]: "length (aq_items q) = aq_count q"
  by (simp add: aq_items_def)

lemma was_size_count:
  assumes "aq_inv q"
  shows "was_size q = of_nat (aq_count q)" and "unat (was_size q) = aq_count q"
proof -
  note sizes = aq_sizes [OF assms]
  show ws: "was_size q = of_nat (aq_count q)"
    unfolding was_size_def sizes(4) by simp
  show "unat (was_size q) = aq_count q"
    unfolding ws using sizes(1,3) by (intro unat_of_nat_below) simp
qed

lemma was_empty_items:
  assumes "aq_inv q"
  shows "was_empty q \<longleftrightarrow> aq_items q = []"
proof -
  have "was_empty q \<longleftrightarrow> unat (was_size q) = 0" unfolding was_empty_def by (simp only: unat_eq_zero)
  also have "\<dots> \<longleftrightarrow> length (aq_items q) = 0" by (simp only: was_size_count(2) [OF assms] length_aq_items)
  finally show ?thesis by (simp only: length_0_conv)
qed

lemma was_full_items:
  assumes "aq_inv q"
  shows "was_full q \<longleftrightarrow> aq_count q = unat (aq_size q)"
  unfolding was_full_def word_le_nat_alt was_size_count(2) [OF assms]
  using aq_sizes(3) [OF assms] by auto

text \<open>Insertion and removal as the buffer interface sees them.\<close>

definition aq_put :: "'a \<Rightarrow> 'a atomic_queue \<Rightarrow> 'a atomic_queue" where
  "aq_put x q = (case try_push x q of Inr (_, q') \<Rightarrow> q' | Inl _ \<Rightarrow> q)"

definition aq_get :: "'a atomic_queue \<Rightarrow> 'a \<times> 'a atomic_queue" where
  "aq_get q = (case pop q of Inr r \<Rightarrow> r | Inl _ \<Rightarrow> (aq_elements q 0, q))"

interpretation aq: bounded_fifo aq_put aq_get was_full was_empty aq_items "\<lambda>q. unat (aq_size q)" aq_inv
proof unfold_locales
  fix q :: "'a atomic_queue" and x
  assume inv: "aq_inv q"
  note sizes = aq_sizes [OF inv]
  show "was_empty q \<longleftrightarrow> aq_items q = []" using inv by (rule was_empty_items)
  show "was_full q \<longleftrightarrow> length (aq_items q) = unat (aq_size q)" using inv by (simp add: was_full_items)
  show "length (aq_items q) \<le> unat (aq_size q)" using sizes by simp
  {
    assume "\<not> was_full q"
    with sizes(3) have "aq_count q < unat (aq_size q)" by (simp add: was_full_items [OF inv])
    then obtain q' where "try_push x q = Inr (True, q')" and "aq_inv q'"
      and "aq_items q' = aq_items q @ [x]" and "aq_size q' = aq_size q"
      using try_push_room [OF inv] by metis
    then show "aq_inv (aq_put x q)" and "aq_items (aq_put x q) = aq_items q @ [x]"
      and "unat (aq_size (aq_put x q)) = unat (aq_size q)"
      by (simp_all add: aq_put_def)
  }
  {
    assume "\<not> was_empty q"
    then have "0 < aq_count q" by (metis inv length_aq_items length_greater_0_conv was_empty_items)
    then obtain y q' where "pop q = Inr (y, q')" and "aq_inv q'"
      and "aq_items q = y # aq_items q'" and "aq_size q' = aq_size q"
      using pop_item [OF inv] by metis
    then show "aq_inv (snd (aq_get q))" and "aq_items q = fst (aq_get q) # aq_items (snd (aq_get q))"
      and "unat (aq_size (snd (aq_get q))) = unat (aq_size q)"
      by (simp_all add: aq_get_def)
  }
qed

lemma AtomicQueueB2_inv:
  assumes "0 < n" and "n \<le> 2 ^ 30"
  shows "aq_inv (AtomicQueueB2 (of_nat n) d)" and "aq_items (AtomicQueueB2 (of_nat n) d) = []"
proof -
  show "aq_items (AtomicQueueB2 (of_nat n) d) = []"
    by (simp add: aq_items_def aq_count_def AtomicQueueB2_def)
  obtain m where m: "n = Suc m" using assms(1) by (cases n) auto
  obtain k where k: "m < 2 ^ k" "k = 0 \<or> 2 ^ (k - 1) \<le> m"
  proof
    let ?k = "LEAST k. m < 2 ^ k"
    have "m < 2 ^ m" by simp
    then show "m < 2 ^ ?k" by (rule LeastI)
    show "?k = 0 \<or> 2 ^ (?k - 1) \<le> m" by (metis Least_le not_less diff_less less_one neq0_conv not_le)
  qed
  have "k \<le> 30"
  proof (rule ccontr)
    assume "\<not> k \<le> 30"
    then have "(2 :: nat) ^ 30 \<le> 2 ^ (k - 1)" by (intro power_increasing) auto
    with k(2) \<open>\<not> k \<le> 30\<close> m assms(2) show False by auto
  qed
  with k have up: "round_up_to_power_of_2 (of_nat n) = 2 ^ k" unfolding m by (intro round_up_power) auto
  have "(2 :: nat) ^ k \<le> 2 ^ 12 \<longleftrightarrow> k \<le> 12" by (rule power_increasing_iff) simp
  moreover have "unat (2 ^ k :: 32 word) = 2 ^ k" using \<open>k \<le> 30\<close> by (simp add: unat_power2)
  ultimately have max: "max (2 ^ k) (push_bit 12 1) = (2 ^ max k 12 :: 32 word)"
    by (auto simp: max_def word_le_nat_alt push_bit_eq_mult)
  have "\<exists>k'. 12 \<le> k' \<and> k' \<le> 30 \<and> (2 :: 32 word) ^ max k 12 = 2 ^ k'"
    using \<open>k \<le> 30\<close> by (intro exI [of _ "max k 12"]) auto
  then show "aq_inv (AtomicQueueB2 (of_nat n) d)"
    unfolding aq_inv_def AtomicQueueB2_def using up max by (auto simp: aq_count_def)
qed



section \<open>Properties\<close>

text \<open>A sequence of calls of \<^verbatim>\<open>try_push\<close> and \<^verbatim>\<open>pop\<close> as the engine makes them, with no test of the queue in
  between, and what each call returns; a call that fails ends the sequence. \<open>list_run n\<close> is the same on
  a list that takes \<open>n\<close> elements: inserting into a full one is refused, removing from an empty one
  waits.\<close>

datatype 'a queue_reply = Pushed bool | Popped 'a

fun aq_run :: "'a fifo_op list \<Rightarrow> 'a atomic_queue \<Rightarrow> ('a queue_reply list \<times> 'a atomic_queue) result" where
  "aq_run [] q = Inr ([], q)"
| "aq_run (Put x # ops) q =
     bindE (try_push x q) (\<lambda>(ok, q1). bindE (aq_run ops q1) (\<lambda>(rs, q2). Inr (Pushed ok # rs, q2)))"
| "aq_run (Get # ops) q =
     bindE (pop q) (\<lambda>(x, q1). bindE (aq_run ops q1) (\<lambda>(rs, q2). Inr (Popped x # rs, q2)))"

fun list_run :: "nat \<Rightarrow> 'a fifo_op list \<Rightarrow> 'a list \<Rightarrow> ('a queue_reply list \<times> 'a list) result" where
  "list_run n [] l = Inr ([], l)"
| "list_run n (Put x # ops) l =
     (if length l < n then bindE (list_run n ops (l @ [x])) (\<lambda>(rs, l2). Inr (Pushed True # rs, l2))
      else bindE (list_run n ops l) (\<lambda>(rs, l2). Inr (Pushed False # rs, l2)))"
| "list_run n (Get # ops) [] = Inl Blocks"
| "list_run n (Get # ops) (x # l) = bindE (list_run n ops l) (\<lambda>(rs, l2). Inr (Popped x # rs, l2))"

lemma aq_run_list:
  assumes "aq_inv q"
  shows "list_run (unat (aq_size q)) ops (aq_items q) = bindE (aq_run ops q) (\<lambda>(rs, q'). Inr (rs, aq_items q')) \<and>
    (\<forall>rs q'. aq_run ops q = Inr (rs, q') \<longrightarrow> aq_inv q' \<and> aq_size q' = aq_size q)"
  using assms
proof (induction ops arbitrary: q)
  case (Cons a ops)
  note IH = Cons.IH and inv = Cons.prems and sizes = aq_sizes [OF Cons.prems]
  show ?case
  proof (cases a)
    case (Put x)
    show ?thesis
    proof (cases "aq_count q < unat (aq_size q)")
      case True
      then obtain q1 where "try_push x q = Inr (True, q1)" "aq_inv q1" "aq_items q1 = aq_items q @ [x]" "aq_size q1 = aq_size q"
        using try_push_room [OF inv] by metis
      with IH [of q1] True Put show ?thesis by (cases "aq_run ops q1") auto
    next
      case False
      then have full: "aq_count q = unat (aq_size q)" using sizes(3) by simp
      from try_push_full [OF inv full, of x] IH [OF inv] False Put show ?thesis by (cases "aq_run ops q") auto
    qed
  next
    case Get
    show ?thesis
    proof (cases "aq_count q = 0")
      case True
      then have "aq_items q = []" by (metis length_0_conv length_aq_items)
      with pop_empty [OF inv True] Get show ?thesis by simp
    next
      case False
      then obtain x q1 where "pop q = Inr (x, q1)" "aq_inv q1" "aq_items q = x # aq_items q1" "aq_size q1 = aq_size q"
        using pop_item [OF inv] by blast
      with IH [of q1] Get show ?thesis by (cases "aq_run ops q1") auto
    qed
  qed
qed simp

text \<open>C19: however \<^verbatim>\<open>try_push\<close> and \<^verbatim>\<open>pop\<close> are called on the engine's task queue, every call returns what it
  would on a list that takes as many elements as the queue has entries: an insertion is accepted
  while there is room and refused, changing nothing, when the queue is full, a removal delivers the
  oldest element and waits on an empty queue. The elements left are those of the list, and
  \<^verbatim>\<open>was_size\<close>, \<^verbatim>\<open>was_empty\<close> and \<^verbatim>\<open>was_full\<close> then tell the truth. This includes the
  wrap-around of the 32-bit head and tail counters.\<close>

theorem atomic_queue_fifo:
  assumes "aq_inv q"
  shows "bindE (aq_run ops q) (\<lambda>(rs, q'). Inr (rs, aq_items q')) = list_run (unat (aq_size q)) ops (aq_items q) \<and>
    (\<forall>rs q'. aq_run ops q = Inr (rs, q') \<longrightarrow> aq_inv q' \<and> aq_size q' = aq_size q \<and>
       unat (was_size q') = length (aq_items q') \<and> (was_empty q' \<longleftrightarrow> aq_items q' = []) \<and>
       (was_full q' \<longleftrightarrow> length (aq_items q') = unat (aq_size q)))"
  using aq_run_list [OF assms, of ops] by (auto simp: was_size_count(2) was_empty_items was_full_items)

theorem atomic_queue_fifo_witness:
  "(case aq_run [Put 7, Put 8, Get] (AtomicQueueB2 (of_nat 4) (0 :: nat)) of
      Inl _ \<Rightarrow> False
    | Inr (rs, q') \<Rightarrow> rs = [Pushed True, Pushed True, Popped 7] \<and> aq_items q' = [8]) \<and>
   aq_run [Put 7, Get, Get] (AtomicQueueB2 (of_nat 4) (0 :: nat)) = Inl Blocks"
proof -
  let ?q = "AtomicQueueB2 (of_nat 4) (0 :: nat)"
  have inv: "aq_inv ?q" and it: "aq_items ?q = []" by (rule AtomicQueueB2_inv; simp)+
  have sz: "unat (aq_size ?q) = 4096" by code_simp
  note r = atomic_queue_fifo [OF inv, unfolded it sz]
  have "bindE (aq_run [Put 7, Put 8, Get] ?q) (\<lambda>(rs, q'). Inr (rs, aq_items q')) = Inr ([Pushed True, Pushed True, Popped 7], [8])"
    "bindE (aq_run [Put 7, Get, Get] ?q) (\<lambda>(rs, q'). Inr (rs, aq_items q')) = Inl Blocks"
    using r [of "[Put 7, Put 8, Get]"] r [of "[Put 7, Get, Get]"] by simp_all
  then show ?thesis by (cases "aq_run [Put 7, Put 8, Get] ?q"; cases "aq_run [Put 7, Get, Get] ?q") auto
qed

text \<open>No operation reads or writes outside the arrays, and no two of the positions that can
  be in use at the same time share a slot, although the position is shuffled for cache lines.\<close>

theorem atomic_queue_slots:
  assumes "aq_inv q" and "i < unat (aq_size q)" and "j < unat (aq_size q)"
  shows "slot q (t + of_nat i) < unat (aq_size q) \<and>
    (slot q (t + of_nat i) = slot q (t + of_nat j) \<longleftrightarrow> i = j)"
  using slot_bound [OF assms(1)] slot_inj [OF assms(1) _ assms(2,3)] by blast

theorem atomic_queue_slots_witness:
  "slot (AtomicQueueB2 (of_nat 4) (0 :: nat)) (4294967295 + of_nat 0) <
     unat (aq_size (AtomicQueueB2 (of_nat 4) (0 :: nat))) \<and>
   (slot (AtomicQueueB2 (of_nat 4) (0 :: nat)) (4294967295 + of_nat 0) =
    slot (AtomicQueueB2 (of_nat 4) (0 :: nat)) (4294967295 + of_nat 1) \<longleftrightarrow> (0 :: nat) = 1)"
proof (rule atomic_queue_slots)
  show "aq_inv (AtomicQueueB2 (of_nat 4) (0 :: nat))" by (rule AtomicQueueB2_inv; simp)
  show "0 < unat (aq_size (AtomicQueueB2 (of_nat 4) (0 :: nat)))"
    and "1 < unat (aq_size (AtomicQueueB2 (of_nat 4) (0 :: nat)))" by code_simp+
qed

end
