(* ===== verification/Queue_Machine.thy ===== *)
theory Queue_Machine
  imports Atomic_Queue
begin

text \<open>
  The task queue under interleaving: \<^verbatim>\<open>try_push\<close> of any number of threads and the \<^verbatim>\<open>pop\<close>s of the one worker that owns
  the queue, one atomic access at a time (\<^verbatim>\<open>third_party/atomic_queue/include/atomic_queue/atomic_queue.h\<close>). The state is the
  queue of \<open>Atomic_Queue\<close>, words and shuffled slots included. A producer loads head (\<open>P_check\<close>), compares with tail, takes
  a ticket by exchanging head (\<open>P_cas\<close>, which may fail spuriously), waits for the slot of its ticket to be \<open>EMPTY\<close>
  (\<open>P_claim\<close>), writes (\<open>P_write\<close>) and publishes (\<open>P_publish\<close>). The worker reads the size once (\<open>C_ready\<close>, as
  \<^verbatim>\<open>context::process_work\<close> does) and pops that many: it takes a ticket from tail, waits for the slot (\<open>C_claim\<close>), reads
  (\<open>C_read\<close>) and frees it (\<open>C_release\<close>). \<open>qm_accepted\<close>, \<open>qm_popped\<close> and \<open>qm_loads\<close> record the history: values whose push got
  a ticket, values whose pop returned, completed pops per slot.
\<close>

section \<open>The machine\<close>

datatype 'a producer =
    P_idle
  | P_check 'a "32 word"
  | P_cas 'a "32 word"
  | P_claim 'a "32 word"
  | P_write 'a nat
  | P_publish nat

datatype 'a consumer =
    C_ready nat
  | C_claim "32 word" nat
  | C_read nat nat
  | C_release 'a nat nat

record 'a queue_machine =
  qm_q :: "'a atomic_queue"
  qm_prod :: "nat \<Rightarrow> 'a producer"
  qm_cons :: "'a consumer"
  qm_accepted :: "'a list"
  qm_popped :: "'a list"
  qm_loads :: "nat \<Rightarrow> nat"

definition put_state :: "nat \<Rightarrow> slot_state \<Rightarrow> 'a atomic_queue \<Rightarrow> 'a atomic_queue" where
  "put_state i st q = q\<lparr>aq_states := (aq_states q)(i := st)\<rparr>"

definition put_element :: "nat \<Rightarrow> 'a \<Rightarrow> 'a atomic_queue \<Rightarrow> 'a atomic_queue" where
  "put_element i x q = q\<lparr>aq_elements := (aq_elements q)(i := x)\<rparr>"

definition move :: "nat \<Rightarrow> 'a producer \<Rightarrow> 'a queue_machine \<Rightarrow> 'a queue_machine" where
  "move p pc s = s\<lparr>qm_prod := (qm_prod s)(p := pc)\<rparr>"

definition queue_full_for :: "32 word \<Rightarrow> 'a atomic_queue \<Rightarrow> bool" where
  "queue_full_for h q \<longleftrightarrow> sint (h - aq_tail q) \<ge> sint (aq_size q)"

inductive queue_step :: "nat \<Rightarrow> 'a queue_machine \<Rightarrow> 'a queue_machine \<Rightarrow> bool" for N :: nat where
  push_load: "p < N \<Longrightarrow> qm_prod s p = P_idle \<Longrightarrow> queue_step N s (move p (P_check x (aq_head (qm_q s))) s)"
| push_full: "p < N \<Longrightarrow> qm_prod s p = P_check x h \<Longrightarrow> queue_full_for h (qm_q s) \<Longrightarrow> queue_step N s (move p P_idle s)"
| push_room: "p < N \<Longrightarrow> qm_prod s p = P_check x h \<Longrightarrow> \<not> queue_full_for h (qm_q s) \<Longrightarrow> queue_step N s (move p (P_cas x h) s)"
| push_cas: "p < N \<Longrightarrow> qm_prod s p = P_cas x h \<Longrightarrow> aq_head (qm_q s) = h \<Longrightarrow>
    queue_step N s (move p (P_claim x h) (s\<lparr>qm_accepted := qm_accepted s @ [x], qm_q := (qm_q s)\<lparr>aq_head := h + 1\<rparr>\<rparr>))"
| push_retry: "p < N \<Longrightarrow> qm_prod s p = P_cas x h \<Longrightarrow> queue_step N s (move p (P_check x (aq_head (qm_q s))) s)"
| push_claim: "p < N \<Longrightarrow> qm_prod s p = P_claim x h \<Longrightarrow> i = slot (qm_q s) h \<Longrightarrow> aq_states (qm_q s) i = EMPTY \<Longrightarrow>
    queue_step N s (move p (P_write x i) (s\<lparr>qm_q := put_state i STORING (qm_q s)\<rparr>))"
| push_write: "p < N \<Longrightarrow> qm_prod s p = P_write x i \<Longrightarrow>
    queue_step N s (move p (P_publish i) (s\<lparr>qm_q := put_element i x (qm_q s)\<rparr>))"
| push_publish: "p < N \<Longrightarrow> qm_prod s p = P_publish i \<Longrightarrow>
    queue_step N s (move p P_idle (s\<lparr>qm_q := put_state i STORED (qm_q s)\<rparr>))"
| pop_count: "qm_cons s = C_ready 0 \<Longrightarrow> queue_step N s (s\<lparr>qm_cons := C_ready (unat (was_size (qm_q s)))\<rparr>)"
| pop_ticket: "qm_cons s = C_ready (Suc n) \<Longrightarrow>
    queue_step N s (s\<lparr>qm_cons := C_claim (aq_tail (qm_q s)) n, qm_q := (qm_q s)\<lparr>aq_tail := aq_tail (qm_q s) + 1\<rparr>\<rparr>)"
| pop_claim: "qm_cons s = C_claim t n \<Longrightarrow> i = slot (qm_q s) t \<Longrightarrow> aq_states (qm_q s) i = STORED \<Longrightarrow>
    queue_step N s (s\<lparr>qm_cons := C_read i n, qm_q := put_state i LOADING (qm_q s)\<rparr>)"
| pop_read: "qm_cons s = C_read i n \<Longrightarrow> queue_step N s (s\<lparr>qm_cons := C_release (aq_elements (qm_q s) i) i n\<rparr>)"
| pop_release: "qm_cons s = C_release x i n \<Longrightarrow>
    queue_step N s (s\<lparr>qm_cons := C_ready n, qm_q := put_state i EMPTY (qm_q s), qm_popped := qm_popped s @ [x],
                      qm_loads := (qm_loads s)(i := Suc (qm_loads s i))\<rparr>)"

definition queue_start :: "'a queue_machine \<Rightarrow> bool" where
  "queue_start s \<longleftrightarrow> (\<exists>d. qm_q s = AtomicQueue d) \<and> qm_prod s = (\<lambda>p. P_idle) \<and> qm_cons s = C_ready 0 \<and>
     qm_accepted s = [] \<and> qm_popped s = [] \<and> qm_loads s = (\<lambda>i. 0)"

section \<open>The invariant\<close>

lemma put_simps [simp]:
  "aq_head (put_state i st q) = aq_head q" "aq_tail (put_state i st q) = aq_tail q" "aq_size (put_state i st q) = aq_size q"
  "aq_states (put_state i st q) = (aq_states q)(i := st)" "aq_elements (put_state i st q) = aq_elements q"
  "aq_head (put_element i x q) = aq_head q" "aq_tail (put_element i x q) = aq_tail q" "aq_size (put_element i x q) = aq_size q"
  "aq_states (put_element i x q) = aq_states q" "aq_elements (put_element i x q) = (aq_elements q)(i := x)"
  by (simp_all add: put_state_def put_element_def)

lemma put_slot [simp]:
  "slot (put_state i st q) = slot q" "slot (put_element i x q) = slot q"
  "slot (q\<lparr>aq_head := h\<rparr>) = slot q" "slot (q\<lparr>aq_tail := t\<rparr>) = slot q"
  by (auto intro!: ext slot_cong)

lemma move_simps [simp]:
  "qm_q (move p pc s) = qm_q s" "qm_prod (move p pc s) = (qm_prod s)(p := pc)" "qm_cons (move p pc s) = qm_cons s"
  "qm_accepted (move p pc s) = qm_accepted s" "qm_popped (move p pc s) = qm_popped s" "qm_loads (move p pc s) = qm_loads s"
  by (simp_all add: move_def)

fun writes_at :: "'a producer \<Rightarrow> nat \<Rightarrow> bool" where
  "writes_at (P_write x j) i = (j = i)"
| "writes_at (P_publish j) i = (j = i)"
| "writes_at _ i = False"

fun reads_at :: "'a consumer \<Rightarrow> nat \<Rightarrow> bool" where
  "reads_at (C_read j n) i = (j = i)"
| "reads_at (C_release x j n) i = (j = i)"
| "reads_at _ i = False"



abbreviation writers :: "nat \<Rightarrow> 'a queue_machine \<Rightarrow> nat \<Rightarrow> nat" where
  "writers N s i \<equiv> tally N (\<lambda>pc. writes_at pc i) (qm_prod s)"

text \<open>Every slot that is being written has one writer, every slot that is being read is the consumer's.\<close>

definition slots_owned :: "nat \<Rightarrow> 'a queue_machine \<Rightarrow> bool" where
  "slots_owned N s \<longleftrightarrow>
     (\<forall>i. writers N s i = of_bool (aq_states (qm_q s) i = STORING)) \<and>
     (\<forall>i. aq_states (qm_q s) i = LOADING \<longleftrightarrow> reads_at (qm_cons s) i)"

lemma writer_slot:
  "slots_owned N s \<Longrightarrow> p < N \<Longrightarrow> writes_at (qm_prod s p) i \<Longrightarrow> aq_states (qm_q s) i = STORING"
  using tally_pos [of N "\<lambda>pc. writes_at pc i" "qm_prod s"] by (auto simp: slots_owned_def split: if_splits)

lemma reader_slot: "slots_owned N s \<Longrightarrow> reads_at (qm_cons s) i \<Longrightarrow> aq_states (qm_q s) i = LOADING"
  by (simp add: slots_owned_def)

lemma one_writer:
  assumes "slots_owned N s" "p < N" "p' < N" "writes_at (qm_prod s p) i" "writes_at (qm_prod s p') i"
  shows "p = p'"
proof (rule ccontr)
  assume "p \<noteq> p'"
  with assms have "2 \<le> writers N s i" by (intro tally_two) auto
  moreover have "writers N s i \<le> 1" using assms(1) by (simp add: slots_owned_def)
  ultimately show False by simp
qed

lemma slots_owned_move:
  assumes "slots_owned N s" and "p < N" and s': "qm_prod s' = (qm_prod s)(p := pc)" "qm_cons s' = qm_cons s"
    and "\<And>i. of_bool (aq_states (qm_q s') i = STORING) + of_bool (writes_at (qm_prod s p) i) =
      of_bool (aq_states (qm_q s) i = STORING) + (of_bool (writes_at pc i) :: nat)"
    and "\<And>i. aq_states (qm_q s') i = LOADING \<longleftrightarrow> aq_states (qm_q s) i = LOADING"
  shows "slots_owned N s'"
proof -
  have "writers N s' i = of_bool (aq_states (qm_q s') i = STORING)" for i
  proof -
    have "writers N s i = of_bool (aq_states (qm_q s) i = STORING)" using assms(1) by (simp add: slots_owned_def)
    with tally_upd [OF assms(2), of "\<lambda>pc. writes_at pc i" "qm_prod s" pc] assms(5) [of i] show ?thesis unfolding s' by linarith
  qed
  then show ?thesis using assms(1,4,6) by (simp add: slots_owned_def)
qed

lemma slots_owned_step: "queue_step N s t \<Longrightarrow> slots_owned N s \<Longrightarrow> slots_owned N t"
proof (induction rule: queue_step.induct)
  case (push_load p s x)
  show ?case by (rule slots_owned_move [OF push_load(3,1)]) (use push_load in auto)
next
  case (push_full p s x h)
  show ?case by (rule slots_owned_move [OF push_full(4,1)]) (use push_full in auto)
next
  case (push_room p s x h)
  show ?case by (rule slots_owned_move [OF push_room(4,1)]) (use push_room in auto)
next
  case (push_retry p s x h)
  show ?case by (rule slots_owned_move [OF push_retry(3,1)]) (use push_retry in auto)
next
  case (push_cas p s x h)
  show ?case by (rule slots_owned_move [OF push_cas(4,1)]) (use push_cas in auto)
next
  case (push_claim p s x h i)
  show ?case by (rule slots_owned_move [OF push_claim(5,1)]) (use push_claim in auto)
next
  case (push_write p s x i)
  show ?case by (rule slots_owned_move [OF push_write(3,1)]) (use push_write in auto)
next
  case (push_publish p s i)
  then have "aq_states (qm_q s) i = STORING" using writer_slot [of N s p i] by simp
  then show ?case by (intro slots_owned_move [OF push_publish(3,1)]) (use push_publish in auto)
next
  case (pop_release s x i n)
  then have "aq_states (qm_q s) i \<noteq> STORING" using reader_slot [of N s i] by simp
  with pop_release show ?case unfolding slots_owned_def by auto
qed (simp_all add: slots_owned_def)


text \<open>The counters: head counts the accepted pushes, tail the started pops, and the pops the consumer has still in
  its turn are covered by accepted pushes.\<close>

fun pops_under_way :: "'a consumer \<Rightarrow> nat" where
  "pops_under_way (C_ready n) = 0"
| "pops_under_way _ = 1"

fun turn_left :: "'a consumer \<Rightarrow> nat" where
  "turn_left (C_ready n) = n"
| "turn_left (C_claim t n) = n"
| "turn_left (C_read i n) = n"
| "turn_left (C_release x i n) = n"

definition pops :: "'a queue_machine \<Rightarrow> nat" where
  "pops s = length (qm_popped s) + pops_under_way (qm_cons s)"

definition counters_ok :: "'a queue_machine \<Rightarrow> bool" where
  "counters_ok s \<longleftrightarrow> aq_head (qm_q s) = of_nat (length (qm_accepted s)) \<and> aq_tail (qm_q s) = of_nat (pops s) \<and>
     turn_left (qm_cons s) + pops s \<le> length (qm_accepted s) \<and>
     (\<forall>t n. qm_cons s = C_claim t n \<longrightarrow> t = of_nat (length (qm_popped s)))"

lemma was_size_le:
  assumes "aq_head q - aq_tail q = of_nat n"
  shows "unat (was_size q) \<le> n"
proof (cases "sint (aq_head q - aq_tail q) \<le> 0")
  case True
  then show ?thesis by (simp add: was_size_def max_def)
next
  case False
  then have "was_size q = aq_head q - aq_tail q" by (simp add: was_size_def max_def)
  then show ?thesis using unat_of_nat [of n, where ?'a = 32] by (simp add: assms)
qed

lemma counters_ok_step: "queue_step N s t \<Longrightarrow> counters_ok s \<Longrightarrow> counters_ok t"
proof (induction rule: queue_step.induct)
  case (pop_count s)
  let ?n = "length (qm_accepted s) - length (qm_popped s)"
  have le: "length (qm_popped s) \<le> length (qm_accepted s)" using pop_count by (simp add: counters_ok_def pops_def)
  have "aq_head (qm_q s) - aq_tail (qm_q s) = of_nat ?n"
    using pop_count le by (simp add: counters_ok_def pops_def of_nat_diff)
  from was_size_le [OF this] pop_count le show ?case by (auto simp: counters_ok_def pops_def)
qed (auto simp: counters_ok_def pops_def)

text \<open>Every accepted value has been popped, is with a producer that is still storing it, is stored in a slot, or is being read.\<close>

fun carries :: "(nat \<Rightarrow> 'a) \<Rightarrow> 'a \<Rightarrow> 'a producer \<Rightarrow> bool" where
  "carries el a (P_claim x h) = (x = a)"
| "carries el a (P_write x i) = (x = a)"
| "carries el a (P_publish i) = (el i = a)"
| "carries el a _ = False"

fun takes :: "(nat \<Rightarrow> 'a) \<Rightarrow> 'a \<Rightarrow> 'a consumer \<Rightarrow> bool" where
  "takes el a (C_read i n) = (el i = a)"
| "takes el a (C_release x i n) = (x = a)"
| "takes el a _ = False"

definition stored :: "'a atomic_queue \<Rightarrow> 'a \<Rightarrow> nat" where
  "stored q a = tally (unat (aq_size q)) (\<lambda>i. aq_states q i = STORED \<and> aq_elements q i = a) (\<lambda>i. i)"

definition underway :: "nat \<Rightarrow> 'a queue_machine \<Rightarrow> 'a \<Rightarrow> nat" where
  "underway N s a = tally N (carries (aq_elements (qm_q s)) a) (qm_prod s) + of_bool (takes (aq_elements (qm_q s)) a (qm_cons s))"

definition conserved :: "nat \<Rightarrow> 'a queue_machine \<Rightarrow> bool" where
  "conserved N s \<longleftrightarrow> (\<forall>a. count_list (qm_accepted s) a = count_list (qm_popped s) a + underway N s a + stored (qm_q s) a)"

definition used_in_range :: "'a queue_machine \<Rightarrow> bool" where
  "used_in_range s \<longleftrightarrow> (\<exists>k. 12 \<le> k \<and> k \<le> 30 \<and> aq_size (qm_q s) = 2 ^ k) \<and>
     (\<forall>i. aq_states (qm_q s) i \<noteq> EMPTY \<longrightarrow> i < unat (aq_size (qm_q s)))"

lemma slot_range: "12 \<le> k \<Longrightarrow> k \<le> 30 \<Longrightarrow> aq_size q = 2 ^ k \<Longrightarrow> slot q c < unat (aq_size q)"
  by (simp add: slot_take_bit unat_take_bit unat_power2)

lemma used_in_range_step: "queue_step N s t \<Longrightarrow> slots_owned N s \<Longrightarrow> used_in_range s \<Longrightarrow> used_in_range t"
proof (induction rule: queue_step.induct)
  case (push_claim p s x h i)
  then have "slot (qm_q s) h < unat (aq_size (qm_q s))" by (auto simp: used_in_range_def intro: slot_range)
  with push_claim show ?case by (simp add: used_in_range_def)
next
  case (push_publish p s i)
  then have "aq_states (qm_q s) i = STORING" using writer_slot [of N s p i] by simp
  with push_publish show ?case by (simp add: used_in_range_def)
qed (auto simp: used_in_range_def)

lemma stored_put:
  assumes "i < unat (aq_size q)"
  shows "stored (put_state i st q) a + of_bool (aq_states q i = STORED \<and> aq_elements q i = a) =
    stored q a + of_bool (st = STORED \<and> aq_elements q i = a)"
  unfolding stored_def using assms by (subst put_simps(3), subst tally_change) auto

lemma stored_write: "aq_states q i \<noteq> STORED \<Longrightarrow> stored (put_element i x q) a = stored q a"
  unfolding stored_def by (auto intro!: tally_cong)

lemma stored_counter [simp]: "stored (q\<lparr>aq_head := h\<rparr>) a = stored q a" "stored (q\<lparr>aq_tail := h\<rparr>) a = stored q a"
  by (simp_all add: stored_def)


lemma conserved_move:
  assumes "conserved N s" and "p < N" and s': "qm_prod s' = (qm_prod s)(p := pc)" "qm_cons s' = qm_cons s" "qm_popped s' = qm_popped s"
      "aq_elements (qm_q s') = aq_elements (qm_q s)"
    and "\<And>a. count_list (qm_accepted s') a + stored (qm_q s) a + of_bool (carries (aq_elements (qm_q s)) a (qm_prod s p)) =
      count_list (qm_accepted s) a + stored (qm_q s') a + of_bool (carries (aq_elements (qm_q s)) a pc)"
  shows "conserved N s'"
  unfolding conserved_def
proof
  fix a
  show "count_list (qm_accepted s') a = count_list (qm_popped s') a + underway N s' a + stored (qm_q s') a"
    using assms(1) [unfolded conserved_def underway_def, THEN spec, of a] assms(7) [of a]
      tally_upd [OF assms(2), of "carries (aq_elements (qm_q s)) a" "qm_prod s" pc]
    unfolding underway_def s' by linarith
qed

lemma conserved_step:
  "queue_step N s t \<Longrightarrow> slots_owned N s \<Longrightarrow> used_in_range s \<Longrightarrow> conserved N s \<Longrightarrow> conserved N t"
proof (induction rule: queue_step.induct)
  case (push_load p s x)
  show ?case by (rule conserved_move [OF push_load(5,1)]) (use push_load in auto)
next
  case (push_full p s x h)
  show ?case by (rule conserved_move [OF push_full(6,1)]) (use push_full in auto)
next
  case (push_room p s x h)
  show ?case by (rule conserved_move [OF push_room(6,1)]) (use push_room in auto)
next
  case (push_retry p s x h)
  show ?case by (rule conserved_move [OF push_retry(5,1)]) (use push_retry in auto)
next
  case (push_cas p s x h)
  show ?case by (rule conserved_move [OF push_cas(6,1)]) (use push_cas in auto)
next
  case (push_claim p s x h i)
  then have "i < unat (aq_size (qm_q s))" by (auto simp: used_in_range_def intro: slot_range)
  from stored_put [OF this, of STORING] push_claim(4) have "stored (put_state i STORING (qm_q s)) a = stored (qm_q s) a" for a
    by simp
  then show ?case by (intro conserved_move [OF push_claim(7,1)]) (use push_claim in auto)
next
  case (push_write p s x i)
  have st: "aq_states (qm_q s) i = STORING" using push_write writer_slot [of N s p i] by simp
  let ?el = "aq_elements (qm_q s)"
  have others: "carries (?el(i := x)) a (qm_prod s j) = carries ?el a (qm_prod s j)" if "j < N" "j \<noteq> p" for j a
    using that push_write one_writer [of N s p j i] by (cases "qm_prod s j") auto
  have "tally N (carries (?el(i := x)) a) ((qm_prod s)(p := P_publish i)) + of_bool (carries ?el a (qm_prod s p)) =
      tally N (carries ?el a) (qm_prod s) + of_bool (x = a)" for a
    by (subst tally_change [OF push_write(1)]) (use others in auto)
  then have "tally N (carries (?el(i := x)) a) ((qm_prod s)(p := P_publish i)) = tally N (carries ?el a) (qm_prod s)" for a
    using push_write(2) by simp
  moreover have "\<not> reads_at (qm_cons s) i" using reader_slot [OF push_write(3), of i] st by auto
  then have "takes (?el(i := x)) a (qm_cons s) = takes ?el a (qm_cons s)" for a by (cases "qm_cons s") auto
  ultimately show ?case using push_write(5) stored_write [of "qm_q s" i x] st by (simp add: conserved_def underway_def)
next
  case (push_publish p s i)
  have st: "aq_states (qm_q s) i = STORING" using push_publish writer_slot [of N s p i] by simp
  then have "i < unat (aq_size (qm_q s))" using push_publish by (simp add: used_in_range_def)
  from stored_put [OF this, of STORED] st
  show ?case by (intro conserved_move [OF push_publish(5,1)]) (use push_publish in auto)
next
  case (pop_claim s t n i)
  then have "i < unat (aq_size (qm_q s))" by (simp add: used_in_range_def)
  from stored_put [OF this, of LOADING] pop_claim(3)
  have "stored (qm_q s) a = stored (put_state i LOADING (qm_q s)) a + of_bool (aq_elements (qm_q s) i = a)" for a by simp
  with pop_claim(1,6) show ?case by (simp add: conserved_def underway_def)
next
  case (pop_release s x i n)
  have st: "aq_states (qm_q s) i = LOADING" using pop_release reader_slot [of N s i] by simp
  then have "i < unat (aq_size (qm_q s))" using pop_release by (simp add: used_in_range_def)
  from stored_put [OF this, of EMPTY] st have "stored (put_state i EMPTY (qm_q s)) a = stored (qm_q s) a" for a by simp
  with pop_release show ?case by (simp add: conserved_def underway_def)
qed (auto simp: conserved_def underway_def)


text \<open>Slot by slot: the pushes that got a ticket for a slot are under way or completed, and so are the pops; a completed push
  that no completed pop has met is what the slot holds.\<close>

definition tickets :: "'a atomic_queue \<Rightarrow> nat \<Rightarrow> nat \<Rightarrow> nat" where
  "tickets q n i = length (filter (\<lambda>m. slot q (of_nat m) = i) [0..<n])"

lemma tickets_Suc [simp]: "tickets q (Suc n) i = tickets q n i + of_bool (slot q (of_nat n) = i)"
  by (simp add: tickets_def)

lemma tickets_mono: "n \<le> m \<Longrightarrow> tickets q n i \<le> tickets q m i"
  by (induction m) (auto simp: le_Suc_eq)

lemma tickets_put [simp]:
  "tickets (put_state j st q) = tickets q" "tickets (put_element j x q) = tickets q"
  "tickets (q\<lparr>aq_head := h\<rparr>) = tickets q" "tickets (q\<lparr>aq_tail := h\<rparr>) = tickets q"
  by (simp_all add: tickets_def fun_eq_iff)

fun targets :: "'a atomic_queue \<Rightarrow> nat \<Rightarrow> 'a producer \<Rightarrow> bool" where
  "targets q i (P_claim x h) = (slot q h = i)"
| "targets q i pc = writes_at pc i"

fun wants :: "'a atomic_queue \<Rightarrow> nat \<Rightarrow> 'a consumer \<Rightarrow> bool" where
  "wants q i (C_claim t n) = (slot q t = i)"
| "wants q i c = reads_at c i"

definition tickets_ok :: "nat \<Rightarrow> 'a queue_machine \<Rightarrow> bool" where
  "tickets_ok N s \<longleftrightarrow> (\<forall>i.
     tickets (qm_q s) (length (qm_accepted s)) i =
       tally N (targets (qm_q s) i) (qm_prod s) + qm_loads s i + of_bool (aq_states (qm_q s) i \<in> {STORED, LOADING}) \<and>
     tickets (qm_q s) (pops s) i = qm_loads s i + of_bool (wants (qm_q s) i (qm_cons s)))"

lemma targets_cong: "slot q' = slot q \<Longrightarrow> targets q' i pc = targets q i pc"
  by (cases pc) auto

lemma wants_cong: "slot q' = slot q \<Longrightarrow> wants q' i c = wants q i c"
  by (cases c) auto

lemma targets_put [simp]:
  "targets (put_state j st q) = targets q" "targets (put_element j x q) = targets q"
  "targets (q\<lparr>aq_head := h\<rparr>) = targets q" "targets (q\<lparr>aq_tail := h\<rparr>) = targets q"
  "wants (put_state j st q) = wants q" "wants (put_element j x q) = wants q"
  "wants (q\<lparr>aq_head := h\<rparr>) = wants q" "wants (q\<lparr>aq_tail := h\<rparr>) = wants q"
  by (intro ext targets_cong wants_cong; simp)+

lemma tickets_ok_move:
  assumes "tickets_ok N s" and "p < N" and s': "qm_prod s' = (qm_prod s)(p := pc)" "qm_cons s' = qm_cons s" "qm_popped s' = qm_popped s"
      "qm_loads s' = qm_loads s" "tickets (qm_q s') = tickets (qm_q s)" "targets (qm_q s') = targets (qm_q s)" "wants (qm_q s') = wants (qm_q s)"
    and "\<And>i. tickets (qm_q s) (length (qm_accepted s')) i + of_bool (targets (qm_q s) i (qm_prod s p)) +
        of_bool (aq_states (qm_q s) i \<in> {STORED, LOADING}) =
      tickets (qm_q s) (length (qm_accepted s)) i + of_bool (targets (qm_q s) i pc) + of_bool (aq_states (qm_q s') i \<in> {STORED, LOADING})"
  shows "tickets_ok N s'"
  unfolding tickets_ok_def
proof (intro allI conjI)
  fix i
  note old = assms(1) [unfolded tickets_ok_def, THEN spec, of i]
  show "tickets (qm_q s') (length (qm_accepted s')) i =
      tally N (targets (qm_q s') i) (qm_prod s') + qm_loads s' i + of_bool (aq_states (qm_q s') i \<in> {STORED, LOADING})"
    using old assms(10) [of i] tally_upd [OF assms(2), of "targets (qm_q s) i" "qm_prod s" pc] unfolding s' by linarith
  show "tickets (qm_q s') (pops s') i = qm_loads s' i + of_bool (wants (qm_q s') i (qm_cons s'))"
    using old by (simp add: s' pops_def)
qed

lemma tickets_ok_step:
  "queue_step N s t \<Longrightarrow> slots_owned N s \<Longrightarrow> counters_ok s \<Longrightarrow> tickets_ok N s \<Longrightarrow> tickets_ok N t"
proof (induction rule: queue_step.induct)
  case (push_load p s x)
  show ?case by (rule tickets_ok_move [OF push_load(5,1)]) (use push_load in auto)
next
  case (push_full p s x h)
  show ?case by (rule tickets_ok_move [OF push_full(6,1)]) (use push_full in auto)
next
  case (push_room p s x h)
  show ?case by (rule tickets_ok_move [OF push_room(6,1)]) (use push_room in auto)
next
  case (push_retry p s x h)
  show ?case by (rule tickets_ok_move [OF push_retry(5,1)]) (use push_retry in auto)
next
  case (push_cas p s x h)
  then have "h = of_nat (length (qm_accepted s))" by (simp add: counters_ok_def)
  then show ?case by (intro tickets_ok_move [OF push_cas(6,1)]) (use push_cas in auto)
next
  case (push_claim p s x h i)
  show ?case by (rule tickets_ok_move [OF push_claim(7,1)]) (use push_claim in auto)
next
  case (push_write p s x i)
  show ?case by (rule tickets_ok_move [OF push_write(5,1)]) (use push_write in auto)
next
  case (push_publish p s i)
  have "aq_states (qm_q s) i = STORING" using push_publish writer_slot [of N s p i] by simp
  then show ?case by (intro tickets_ok_move [OF push_publish(5,1)]) (use push_publish in auto)
next
  case (pop_release s x i n)
  have "aq_states (qm_q s) i = LOADING" using pop_release reader_slot [of N s i] by simp
  with pop_release show ?case by (auto simp: tickets_ok_def pops_def)
qed (auto simp: tickets_ok_def pops_def counters_ok_def)

definition queue_inv_ok :: "nat \<Rightarrow> 'a queue_machine \<Rightarrow> bool" where
  "queue_inv_ok N s \<longleftrightarrow> slots_owned N s \<and> counters_ok s \<and> used_in_range s \<and> conserved N s \<and> tickets_ok N s"

interpretation qm: step_system queue_start "queue_step N" "queue_inv_ok N"
proof unfold_locales
  fix s :: "'a queue_machine" assume s: "queue_start s"
  then obtain d where q: "qm_q s = AtomicQueue d" and p: "qm_prod s = (\<lambda>p. P_idle)" by (auto simp: queue_start_def)
  have "aq_inv (AtomicQueueB2 (of_nat kQueCap) d)" by (rule AtomicQueueB2_inv) (simp_all add: kQueCap_def)
  then have "used_in_range s" by (simp add: used_in_range_def q aq_inv_def AtomicQueue_def) (simp add: AtomicQueueB2_def)
  moreover have st: "aq_states (qm_q s) = (\<lambda>i. EMPTY)" "aq_head (qm_q s) = 0" "aq_tail (qm_q s) = 0"
    by (simp_all add: q AtomicQueue_def AtomicQueueB2_def)
  have t: "tally N P (qm_prod s) = 0" if "\<not> P P_idle" for P using that by (simp add: p tally_def)
  have "slots_owned N s" "counters_ok s" "conserved N s" "tickets_ok N s"
    using s st t by (auto simp: queue_start_def slots_owned_def counters_ok_def pops_def conserved_def underway_def stored_def
        tickets_ok_def tickets_def)
  ultimately show "queue_inv_ok N s" by (simp add: queue_inv_ok_def)
next
  fix s t :: "'a queue_machine" assume "queue_inv_ok N s" "queue_step N s t"
  then show "queue_inv_ok N t"
    by (auto simp: queue_inv_ok_def intro: slots_owned_step counters_ok_step used_in_range_step conserved_step tickets_ok_step)
qed


section \<open>Undisturbed operations\<close>

text \<open>A push or a pop that nobody interferes with does in the machine what \<open>try_push\<close> and \<open>pop\<close> say.\<close>

lemma machine_push:
  assumes p: "p < N" "qm_prod s p = P_idle" and push: "try_push x (qm_q s) = Inr (True, q)"
  shows "(queue_step N)\<^sup>*\<^sup>* s (s\<lparr>qm_accepted := qm_accepted s @ [x], qm_q := q\<rparr>)"
proof -
  let ?h = "aq_head (qm_q s)" and ?i = "slot (qm_q s) (aq_head (qm_q s))"
  let ?q = "(qm_q s)\<lparr>aq_head := ?h + 1\<rparr>" and ?xs = "qm_accepted s @ [x]"
  have room: "\<not> queue_full_for ?h (qm_q s)" and empty: "aq_states (qm_q s) ?i = EMPTY"
    and q: "q = put_state ?i STORED (put_element ?i x (put_state ?i STORING ?q))"
    using push by (auto simp: try_push_def queue_full_for_def do_push_def Let_def put_state_def put_element_def split: if_splits)
  let ?s1 = "move p (P_check x ?h) s" and ?s2 = "move p (P_cas x ?h) s"
  let ?s3 = "move p (P_claim x ?h) (s\<lparr>qm_accepted := ?xs, qm_q := ?q\<rparr>)"
  let ?s4 = "move p (P_write x ?i) (s\<lparr>qm_accepted := ?xs, qm_q := put_state ?i STORING ?q\<rparr>)"
  let ?s5 = "move p (P_publish ?i) (s\<lparr>qm_accepted := ?xs, qm_q := put_element ?i x (put_state ?i STORING ?q)\<rparr>)"
  have idle: "(qm_prod s)(p := P_idle) = qm_prod s" using p(2) by (simp add: fun_upd_idem)
  have "queue_step N s ?s1" using push_load [OF p] by blast
  moreover have "queue_step N ?s1 ?s2" using push_room [of p N ?s1 x ?h] p(1) room by (simp add: move_def)
  moreover have "queue_step N ?s2 ?s3" using push_cas [of p N ?s2 x ?h] p(1) by (simp add: move_def)
  moreover have "queue_step N ?s3 ?s4" using push_claim [of p N ?s3 x ?h ?i] p(1) empty by (simp add: move_def)
  moreover have "queue_step N ?s4 ?s5" using push_write [of p N ?s4 x ?i] p(1) by (simp add: move_def)
  moreover have "queue_step N ?s5 (s\<lparr>qm_accepted := ?xs, qm_q := q\<rparr>)"
    using push_publish [of p N ?s5 ?i] p(1) idle by (simp add: move_def q)
  ultimately show ?thesis by (meson converse_rtranclp_into_rtranclp rtranclp.rtrancl_refl)
qed

lemma machine_claimed:
  assumes "qm_cons s = C_claim t n" and "aq_states (qm_q s) (slot (qm_q s) t) = STORED"
  shows "\<exists>s'. (queue_step N)\<^sup>*\<^sup>* s s' \<and> qm_popped s' = qm_popped s @ [aq_elements (qm_q s) (slot (qm_q s) t)] \<and>
    qm_cons s' = C_ready n \<and> qm_accepted s' = qm_accepted s \<and> qm_q s' = put_state (slot (qm_q s) t) EMPTY (qm_q s)"
proof -
  let ?i = "slot (qm_q s) t"
  let ?s1 = "s\<lparr>qm_cons := C_read ?i n, qm_q := put_state ?i LOADING (qm_q s)\<rparr>"
  let ?s2 = "?s1\<lparr>qm_cons := C_release (aq_elements (qm_q s) ?i) ?i n\<rparr>"
  let ?s3 = "?s2\<lparr>qm_cons := C_ready n, qm_q := put_state ?i EMPTY (qm_q ?s2), qm_popped := qm_popped s @ [aq_elements (qm_q s) ?i],
    qm_loads := (qm_loads s)(?i := Suc (qm_loads s ?i))\<rparr>"
  have "queue_step N s ?s1" using pop_claim [OF assms(1) refl assms(2)] by simp
  moreover have "queue_step N ?s1 ?s2" using pop_read [of ?s1 ?i n N] by simp
  moreover have "queue_step N ?s2 ?s3" using pop_release [of ?s2 "aq_elements (qm_q s) ?i" ?i n N] by simp
  ultimately have "(queue_step N)\<^sup>*\<^sup>* s ?s3" by (meson converse_rtranclp_into_rtranclp rtranclp.rtrancl_refl)
  then show ?thesis by (intro exI [of _ ?s3]) (simp add: put_state_def)
qed

lemma machine_pushes:
  assumes p: "p < N" "qm_prod s p = P_idle"
  shows "aq_inv (qm_q s) \<Longrightarrow> length (aq_items (qm_q s)) + length xs \<le> unat (aq_size (qm_q s)) \<Longrightarrow>
    \<exists>q. (queue_step N)\<^sup>*\<^sup>* s (s\<lparr>qm_accepted := qm_accepted s @ xs, qm_q := q\<rparr>) \<and> aq_inv q \<and>
      aq_items q = aq_items (qm_q s) @ xs \<and> aq_size q = aq_size (qm_q s) \<and> aq_tail q = aq_tail (qm_q s)"
  using p
proof (induction xs arbitrary: s)
  case Nil
  then show ?case by (intro exI [of _ "qm_q s"]) simp
next
  case (Cons x xs)
  from Cons.prems(2) have "aq_count (qm_q s) < unat (aq_size (qm_q s))" by simp
  from try_push_room [OF Cons.prems(1) this, of x] obtain q where
    q: "try_push x (qm_q s) = Inr (True, q)" "aq_inv q" "aq_items q = aq_items (qm_q s) @ [x]" "aq_size q = aq_size (qm_q s)" by blast
  have t: "aq_tail q = aq_tail (qm_q s)" using q(1) by (auto simp: try_push_def do_push_def Let_def split: if_splits)
  let ?s = "s\<lparr>qm_accepted := qm_accepted s @ [x], qm_q := q\<rparr>"
  have len: "length (aq_items (qm_q ?s)) + length xs \<le> unat (aq_size (qm_q ?s))"
    using Cons.prems(2) q(3,4) by (simp del: length_aq_items)
  have "\<exists>q'. (queue_step N)\<^sup>*\<^sup>* ?s (?s\<lparr>qm_accepted := qm_accepted ?s @ xs, qm_q := q'\<rparr>) \<and> aq_inv q' \<and>
      aq_items q' = aq_items (qm_q ?s) @ xs \<and> aq_size q' = aq_size (qm_q ?s) \<and> aq_tail q' = aq_tail (qm_q ?s)"
    by (rule Cons.IH) (use q len Cons.prems in simp_all)
  with machine_push [OF Cons.prems(3,4) q(1)] q(3,4) t show ?case by (auto intro: rtranclp_trans)
qed


section \<open>Properties\<close>

definition fresh_machine :: "'a \<Rightarrow> 'a queue_machine" where
  "fresh_machine d = \<lparr>qm_q = AtomicQueue d, qm_prod = (\<lambda>p. P_idle), qm_cons = C_ready 0, qm_accepted = [], qm_popped = [], qm_loads = (\<lambda>i. 0)\<rparr>"

lemma fresh_machine_reachable: "reachable queue_start (queue_step N) (fresh_machine d)"
  by (rule reach_start) (auto simp: queue_start_def fresh_machine_def)

lemma fresh_queue: "aq_inv (AtomicQueue d)" "aq_items (AtomicQueue d) = []" "aq_count (AtomicQueue d) = 0" "unat (aq_size (AtomicQueue d)) = 16384"
proof -
  show "aq_inv (AtomicQueue d)" "aq_items (AtomicQueue d) = []"
    unfolding AtomicQueue_def by (rule AtomicQueueB2_inv; simp add: kQueCap_def)+
  show "aq_count (AtomicQueue d) = 0" by (simp add: AtomicQueue_def AtomicQueueB2_def aq_count_def)
  show "unat (aq_size (AtomicQueue d)) = 16384" unfolding AtomicQueue_def AtomicQueueB2_def by (simp add: kQueCap_def) code_simp
qed

text \<open>C4: under every interleaving of pushes and pops no handle is lost, duplicated or invented: each accepted one has been popped, is with
  a producer that is still storing it, is stored, or is being read. Two threads never work on the same slot, and no slot
  outside the arrays is touched. Whenever nobody is under way, exactly what was accepted and not popped is stored and head
  minus tail counts it; all this includes the wrap-around of the counters.\<close>

theorem queue_conserves_handles:
  assumes "reachable queue_start (queue_step N) s"
  shows "(\<forall>a. count_list (qm_accepted s) a = count_list (qm_popped s) a + underway N s a + stored (qm_q s) a) \<and>
    (\<forall>p p' i. p < N \<and> p' < N \<and> writes_at (qm_prod s p) i \<and> writes_at (qm_prod s p') i \<longrightarrow> p = p') \<and>
    (\<forall>p i. p < N \<and> writes_at (qm_prod s p) i \<longrightarrow> \<not> reads_at (qm_cons s) i \<and> i < unat (aq_size (qm_q s))) \<and>
    ((\<forall>p<N. qm_prod s p = P_idle) \<and> qm_cons s = C_ready 0 \<longrightarrow>
      (\<forall>a. count_list (qm_accepted s) a = count_list (qm_popped s) a + stored (qm_q s) a) \<and>
      aq_head (qm_q s) - aq_tail (qm_q s) = of_nat (length (qm_accepted s) - length (qm_popped s)))"
proof -
  have inv: "slots_owned N s" "counters_ok s" "used_in_range s" "conserved N s"
    using qm.reachable_inv [OF assms] by (simp_all add: queue_inv_ok_def)
  have "\<not> reads_at (qm_cons s) i \<and> i < unat (aq_size (qm_q s))" if "p < N" "writes_at (qm_prod s p) i" for p i
    using writer_slot [OF inv(1) that] reader_slot [OF inv(1), of i] inv(3) by (auto simp: used_in_range_def)
  moreover have "underway N s a = 0" if "\<forall>p<N. qm_prod s p = P_idle" "qm_cons s = C_ready 0" for a
    using that by (simp add: underway_def tally_def)
  moreover have "aq_head (qm_q s) - aq_tail (qm_q s) = of_nat (length (qm_accepted s) - length (qm_popped s))" if "qm_cons s = C_ready 0"
    using inv(2) that by (simp add: counters_ok_def pops_def of_nat_diff)
  ultimately show ?thesis using inv(4) one_writer [OF inv(1)] by (auto simp: conserved_def)
qed

theorem queue_conserves_handles_witness:
  "\<exists>s :: nat queue_machine. reachable queue_start (queue_step 3) s \<and> qm_accepted s = [7, 8] \<and> qm_popped s = [] \<and>
    stored (qm_q s) 7 = 1 \<and> aq_head (qm_q s) - aq_tail (qm_q s) = 2"
proof -
  from machine_pushes [of 1 3 "fresh_machine (0 :: nat)" "[7, 8]"] fresh_queue [of "0 :: nat"] obtain q where
    steps: "(queue_step 3)\<^sup>*\<^sup>* (fresh_machine 0) ((fresh_machine (0 :: nat))\<lparr>qm_accepted := [7, 8], qm_q := q\<rparr>)"
    by (auto simp: fresh_machine_def)
  let ?s = "(fresh_machine (0 :: nat))\<lparr>qm_accepted := [7, 8], qm_q := q\<rparr>"
  have r: "reachable queue_start (queue_step 3) ?s" using steps fresh_machine_reachable by (rule reachable_steps)
  have "(\<forall>p<3. qm_prod ?s p = P_idle) \<and> qm_cons ?s = C_ready 0" "qm_accepted ?s = [7, 8]" "qm_popped ?s = []"
    by (simp_all add: fresh_machine_def)
  with queue_conserves_handles [OF r] have "\<forall>a. count_list [7, 8] a = stored (qm_q ?s) a"
    "aq_head (qm_q ?s) - aq_tail (qm_q ?s) = of_nat 2" by auto
  with r \<open>qm_accepted ?s = [7, 8]\<close> \<open>qm_popped ?s = []\<close> show ?thesis
    by (intro exI [of _ ?s]) (auto dest: spec [of _ 7])
qed

text \<open>C18: the worker never waits in vain: when it spins on the slot of its ticket, either the slot is ready for it, or a producer
  that is storing into this very slot can take its next step; no other thread has to act first.\<close>

theorem queue_consumer_progress:
  assumes "reachable queue_start (queue_step N) s" and "qm_cons s = C_claim t n"
  shows "(\<exists>s'. queue_step N s s' \<and> qm_cons s' = C_read (slot (qm_q s) t) n) \<or>
    (\<exists>p<N. targets (qm_q s) (slot (qm_q s) t) (qm_prod s p) \<and> (\<exists>s'. queue_step N s s' \<and> qm_prod s' p \<noteq> qm_prod s p))"
proof -
  let ?i = "slot (qm_q s) t"
  have inv: "slots_owned N s" "counters_ok s" "tickets_ok N s"
    using qm.reachable_inv [OF assms(1)] by (simp_all add: queue_inv_ok_def)
  have "tickets (qm_q s) (pops s) ?i \<le> tickets (qm_q s) (length (qm_accepted s)) ?i"
    using inv(2) by (intro tickets_mono) (simp add: counters_ok_def)
  then have more: "1 \<le> tally N (targets (qm_q s) ?i) (qm_prod s) + of_bool (aq_states (qm_q s) ?i \<in> {STORED, LOADING})"
    using inv(3) assms(2) by (auto simp: tickets_ok_def dest!: spec [of _ ?i])
  show ?thesis
  proof (cases "aq_states (qm_q s) ?i")
    case STORED
    let ?s = "s\<lparr>qm_cons := C_read ?i n, qm_q := put_state ?i LOADING (qm_q s)\<rparr>"
    have "queue_step N s ?s" using pop_claim [OF assms(2) refl STORED] .
    then show ?thesis by (intro disjI1 exI [of _ ?s]) simp
  next
    case LOADING
    then show ?thesis using inv(1) assms(2) by (auto simp: slots_owned_def)
  next
    case EMPTY
    then obtain p where p: "p < N" "targets (qm_q s) ?i (qm_prod s p)" using more tally_pos [of N "targets (qm_q s) ?i" "qm_prod s"] by auto
    moreover have "\<not> writes_at (qm_prod s p) ?i" using writer_slot [OF inv(1) p(1)] EMPTY by auto
    ultimately obtain x h where ph: "qm_prod s p = P_claim x h" "slot (qm_q s) h = ?i" by (cases "qm_prod s p") auto
    let ?s = "move p (P_write x ?i) (s\<lparr>qm_q := put_state ?i STORING (qm_q s)\<rparr>)"
    have "queue_step N s ?s" using push_claim [OF p(1) ph(1), of ?i] EMPTY ph(2) by simp
    moreover have "qm_prod ?s p \<noteq> qm_prod s p" by (simp add: ph(1))
    ultimately show ?thesis using p by blast
  next
    case STORING
    then have "0 < writers N s ?i" using inv(1) by (simp add: slots_owned_def)
    then obtain p where p: "p < N" "writes_at (qm_prod s p) ?i" by (auto simp: tally_pos)
    have "\<exists>s'. queue_step N s s' \<and> qm_prod s' p \<noteq> qm_prod s p"
    proof (cases "qm_prod s p")
      case (P_write x j)
      from push_write [OF p(1) this] show ?thesis by (intro exI conjI) (auto simp: P_write)
    next
      case (P_publish j)
      from push_publish [OF p(1) this] show ?thesis by (intro exI conjI) (auto simp: P_publish)
    qed (use p(2) in simp_all)
    moreover have "targets (qm_q s) ?i (qm_prod s p)" using p(2) by (cases "qm_prod s p") simp_all
    ultimately show ?thesis using p(1) by blast
  qed
qed


lemma machine_ticket:
  assumes "qm_cons s = C_ready 0" and "unat (was_size (qm_q s)) = Suc n"
  shows "(queue_step N)\<^sup>*\<^sup>* s (s\<lparr>qm_cons := C_claim (aq_tail (qm_q s)) n, qm_q := (qm_q s)\<lparr>aq_tail := aq_tail (qm_q s) + 1\<rparr>\<rparr>)"
proof -
  let ?s = "s\<lparr>qm_cons := C_ready (Suc n)\<rparr>"
  have "queue_step N s ?s" using pop_count [OF assms(1), of N] by (simp add: assms(2))
  moreover have "queue_step N ?s (s\<lparr>qm_cons := C_claim (aq_tail (qm_q s)) n, qm_q := (qm_q s)\<lparr>aq_tail := aq_tail (qm_q s) + 1\<rparr>\<rparr>)"
    using pop_ticket [of ?s n N] by simp
  ultimately show ?thesis by (meson converse_rtranclp_into_rtranclp rtranclp.rtrancl_refl)
qed

text \<open>One producer has its ticket but has not stored yet, and the consumer waits for it.\<close>

definition late_machine :: "nat queue_machine" where
  "late_machine = (fresh_machine 0)\<lparr>qm_accepted := [1], qm_prod := (\<lambda>p. P_idle)(0 := P_claim 1 0), qm_cons := C_claim 0 0,
     qm_q := (AtomicQueue 0)\<lparr>aq_head := 1, aq_tail := 1\<rparr>\<rparr>"

lemma late_machine_reachable: "0 < N \<Longrightarrow> reachable queue_start (queue_step N) late_machine"
proof -
  assume N: "0 < N"
  let ?q = "AtomicQueue 0 :: nat atomic_queue" and ?s0 = "fresh_machine 0 :: nat queue_machine"
  let ?s1 = "move 0 (P_check 1 0) ?s0" and ?s2 = "move 0 (P_cas 1 0) ?s0"
  let ?s3 = "move 0 (P_claim 1 0) (?s0\<lparr>qm_accepted := [1], qm_q := ?q\<lparr>aq_head := 1\<rparr>\<rparr>)"
  have q: "aq_head ?q = 0" "aq_tail ?q = 0" by (simp_all add: AtomicQueue_def AtomicQueueB2_def)
  have room: "\<not> queue_full_for 0 ?q"
    using aq_sizes(5) [OF fresh_queue(1), of "0 :: nat"] fresh_queue(3,4) [of "0 :: nat"] by (simp add: queue_full_for_def q)
  have s0: "qm_prod ?s0 = (\<lambda>p. P_idle)" "qm_q ?s0 = ?q" "qm_accepted ?s0 = []" "qm_cons ?s0 = C_ready 0" by (simp_all add: fresh_machine_def)
  have "queue_step N ?s0 ?s1" using push_load [of 0 N ?s0 1] N s0 q by simp
  moreover have "queue_step N ?s1 ?s2" using push_room [of 0 N ?s1 1 0] N s0 room by (simp add: move_def)
  moreover have "queue_step N ?s2 ?s3" using push_cas [of 0 N ?s2 1 0] N s0 q by (simp add: move_def)
  ultimately have "(queue_step N)\<^sup>*\<^sup>* ?s0 ?s3" by (meson converse_rtranclp_into_rtranclp rtranclp.rtrancl_refl)
  moreover have "unat (was_size (qm_q ?s3)) = Suc 0" using q by (simp add: was_size_def max_def) 
  with machine_ticket [of ?s3 0 N] s0 q have "(queue_step N)\<^sup>*\<^sup>* ?s3 late_machine"
    by (simp add: late_machine_def move_def fresh_machine_def)
  ultimately show ?thesis using reachable_steps fresh_machine_reachable by (metis rtranclp_trans)
qed

theorem queue_consumer_progress_witness:
  "(\<exists>s'. queue_step 2 late_machine s' \<and> qm_cons s' = C_read (slot (qm_q late_machine) 0) 0) \<or>
   (\<exists>p<2. targets (qm_q late_machine) (slot (qm_q late_machine) 0) (qm_prod late_machine p) \<and>
      (\<exists>s'. queue_step 2 late_machine s' \<and> qm_prod s' p \<noteq> qm_prod late_machine p))"
  by (rule queue_consumer_progress [OF late_machine_reachable]) (simp_all add: late_machine_def)

text \<open>the queue keeps the order of submissions only as long as no producer is delayed between taking its ticket and storing: here the
  first producer is, and the worker, waiting for its handle 1, receives the last of 16384 handles that a second
  producer pushed one after the other, before all the earlier ones.\<close>

theorem queue_order_lost:
  "\<exists>s. reachable queue_start (queue_step 2) s \<and> qm_accepted s = 1 # [2..<16386] \<and> qm_popped s = [16385]"
proof -
  define ys :: "nat list" where "ys = [2..<16386]"
  have ys: "length ys = 16384" "ys ! 16383 = 16385" unfolding ys_def by (simp_all add: nth_upt del: upt_rec_numeral)
  let ?s = "late_machine" and ?q = "(AtomicQueue (0 :: nat))\<lparr>aq_head := 1, aq_tail := 1\<rparr>"
  have q: "qm_q ?s = ?q" "qm_cons ?s = C_claim 0 0" "qm_accepted ?s = [1]" "qm_popped ?s = []" "qm_prod ?s 1 = P_idle"
    by (simp_all add: late_machine_def fresh_machine_def)
  have sz: "unat (aq_size ?q) = 16384" "aq_count ?q = 0" using fresh_queue(4) [of "0 :: nat"] by (simp_all add: aq_count_def)
  have "aq_states (AtomicQueue (0 :: nat)) = (\<lambda>i. EMPTY)" by (simp add: AtomicQueue_def AtomicQueueB2_def)
  then have inv: "aq_inv ?q" using fresh_queue(1) [of "0 :: nat"] sz(2) by (simp add: aq_inv_def)
  from machine_pushes [of 1 2 ?s ys] q inv sz ys(1) obtain q' where
    steps: "(queue_step 2)\<^sup>*\<^sup>* ?s (?s\<lparr>qm_accepted := 1 # ys, qm_q := q'\<rparr>)"
    and q': "aq_inv q'" "aq_items q' = aq_items ?q @ ys" "aq_size q' = aq_size ?q" "aq_tail q' = 1" by auto
  have items: "aq_items q' = ys" using q'(2) sz(2) by (simp add: aq_items_def)
  then have cnt: "aq_count q' = 16384" using length_aq_items [of q'] ys(1) by simp
  have "slot q' (1 + of_nat 16383) = slot q' 0"
  proof -
    have "aq_size q' = of_nat (unat (aq_size q'))" by simp
    also have "\<dots> = 16384" using q'(3) sz(1) by simp
    finally show ?thesis using slot_period [OF q'(1), of 0] by simp
  qed
  moreover have "aq_states q' (slot q' (1 + of_nat 16383)) = STORED"
    using q'(1,3,4) sz(1) cnt unfolding aq_inv_def by (auto dest: spec [of _ 16383])
  moreover have "aq_elements q' (slot q' (1 + of_nat 16383)) = aq_items q' ! 16383"
    using cnt q'(4) by (simp add: aq_items_def)
  ultimately have head: "aq_states q' (slot q' 0) = STORED" "aq_elements q' (slot q' 0) = 16385" by (simp_all only: items ys(2))
  let ?t = "?s\<lparr>qm_accepted := 1 # ys, qm_q := q'\<rparr>"
  have r: "reachable queue_start (queue_step 2) ?t" using steps late_machine_reachable [of 2] by (auto intro: reachable_steps)
  from machine_claimed [of ?t 0 0 2] head q obtain t where "(queue_step 2)\<^sup>*\<^sup>* ?t t" "qm_popped t = [16385]" "qm_accepted t = 1 # ys"
    by auto
  then show ?thesis using r unfolding ys_def [symmetric] by (auto intro: reachable_steps)
qed

end
