(* ===== verification/Marked_Buffer.thy ===== *)
theory Marked_Buffer
  imports Config
begin

text \<open>
  The pool of fixed file slots: \<^verbatim>\<open>marked_buffer<Type, length>\<close> of
  \<^verbatim>\<open>include/coro/marked_buffer.hpp\<close>. The array is a list of \<^verbatim>\<open>length\<close> elements, the queue
  \<^verbatim>\<open>que\<close> the list of free indices; an item's pointer \<^verbatim>\<open>&data[idx]\<close> is the index it points to.
\<close>

record item =
  idx :: int
  ptr :: "nat option"

record 'a marked_buffer =
  data :: "'a list"
  que :: "int list"

definition valid :: "item \<Rightarrow> bool" where
  "valid it \<longleftrightarrow> idx it \<ge> 0"

definition set_invalid :: "item \<Rightarrow> item" where
  "set_invalid it = it\<lparr>idx := -1, ptr := None\<rparr>"

definition invalid_item :: item where
  "invalid_item = \<lparr>idx = -1, ptr = None\<rparr>"

definition mb_init :: "'a marked_buffer \<Rightarrow> 'a marked_buffer" where
  "mb_init b = b\<lparr>que := []\<rparr>"

text \<open>\<^verbatim>\<open>set_data\<close>: reading \<^verbatim>\<open>values[i]\<close> past the end of the vector is undefined.\<close>

definition set_data :: "'a list \<Rightarrow> 'a marked_buffer \<Rightarrow> 'a marked_buffer result" where
  "set_data values b =
     (let n = length (data b) in
      if length values < n then Inl Out_of_bounds
      else Inr (b\<lparr>que := que b @ map int [0..<n], data := take n values\<rparr>))"

definition borrow :: "'a marked_buffer \<Rightarrow> item \<times> 'a marked_buffer" where
  "borrow b =
     (case que b of
        [] \<Rightarrow> (invalid_item, b)
      | i # rest \<Rightarrow> (\<lparr>idx = i, ptr = Some (nat i)\<rparr>, b\<lparr>que := rest\<rparr>))"

definition return_back :: "item \<Rightarrow> 'a marked_buffer \<Rightarrow> 'a marked_buffer" where
  "return_back it b = (if \<not> valid it then b else b\<lparr>que := que b @ [idx it]\<rparr>)"


section \<open>The pool invariant\<close>

text \<open>Free indices are inside the array and listed once; the others are lent out.\<close>

definition mb_inv :: "'a marked_buffer \<Rightarrow> bool" where
  "mb_inv b \<longleftrightarrow> distinct (que b) \<and> set (que b) \<subseteq> {0..<int (length (data b))}"

definition lent :: "'a marked_buffer \<Rightarrow> int set" where
  "lent b = {0..<int (length (data b))} - set (que b)"

lemma set_data_inv:
  assumes "set_data values (mb_init b) = Inr b'"
  shows "mb_inv b'" and "lent b' = {}" and "length (data b') = length (data b)"
    and "data b' = take (length (data b)) values" and "length (que b') = length (data b)"
  using assms
  by (auto simp: set_data_def mb_init_def mb_inv_def lent_def Let_def distinct_map image_int_atLeastLessThan
      split: if_splits)

lemma borrow_cases:
  assumes "mb_inv b"
  shows "que b = [] \<Longrightarrow> borrow b = (invalid_item, b)"
    and "que b \<noteq> [] \<Longrightarrow> valid (fst (borrow b)) \<and> mb_inv (snd (borrow b)) \<and>
           idx (fst (borrow b)) \<in> {0..<int (length (data b))} \<and> idx (fst (borrow b)) \<notin> lent b \<and>
           lent (snd (borrow b)) = insert (idx (fst (borrow b))) (lent b) \<and>
           ptr (fst (borrow b)) = Some (nat (idx (fst (borrow b)))) \<and> data (snd (borrow b)) = data b"
  using assms by (cases "que b"; auto simp: borrow_def mb_inv_def lent_def valid_def)+

lemma return_back_lent:
  assumes "mb_inv b" and "idx it \<in> lent b"
  shows "mb_inv (return_back it b)" and "lent (return_back it b) = lent b - {idx it}"
    and "data (return_back it b) = data b"
  using assms by (auto simp: return_back_def mb_inv_def lent_def valid_def)

lemma lent_finite: "finite (lent b)"
  by (simp add: lent_def)

lemma pool_count:
  assumes "mb_inv b"
  shows "length (que b) + card (lent b) = length (data b)"
proof -
  let ?all = "{0..<int (length (data b))}"
  have sub: "set (que b) \<subseteq> ?all" using assms by (simp add: mb_inv_def)
  then have "card (set (que b)) \<le> length (data b)" using card_mono [of ?all] by simp
  with sub have "card (set (que b)) + card (lent b) = length (data b)"
    by (simp add: lent_def card_Diff_subset)
  with assms show ?thesis by (simp add: mb_inv_def distinct_card)
qed

end
