(* ===== verification/Uring_Proxy.thy ===== *)
theory Uring_Proxy
  imports Marked_Buffer
begin

text \<open>
  The io_uring wrapper \<^verbatim>\<open>include/coro/uring_proxy.hpp\<close> and the fixed file slots of
  \<^verbatim>\<open>include/coro/io/base_io_type.hpp\<close>. liburing and the Linux kernel are not part of the
  repository: what the code calls of them is the record \<open>kernel_ops\<close>, an argument of every
  definition, acting on an opaque state \<open>'k\<close> of the kernel objects of one proxy (its ring,
  its eventfd, its files). A system call that may put the calling thread to sleep returns
  \<open>None\<close> when it does. Documented behaviour is stated by named predicates
  (\<open>eventfd_doc\<close>, \<open>files_update_doc\<close>), which theorems take as hypotheses.
\<close>

section \<open>What the code calls of liburing and the kernel\<close>

text \<open>A completion entry carries the user data of its submission and a result.\<close>

record cqe =
  user_data :: addr
  res :: int

datatype sqe_prep =
    Prep_nop
  | Prep_read int addr "64 word" int
  | Prep_accept int int
  | Prep_recv int addr "64 word" int
  | Prep_send int addr "64 word" int
  | Prep_close int
  | Prep_connect int addr
  | Prep_timeout "64 word" "64 word" "32 word" "32 word"
  | Set_flags int
  | Set_data addr

record 'k kernel_ops =
  k_eventfd :: "'k \<Rightarrow> int \<times> 'k"
  k_eventfd_read :: "int \<Rightarrow> 'k \<Rightarrow> (int \<times> 64 word \<times> 'k) option"
  k_eventfd_write :: "int \<Rightarrow> 64 word \<Rightarrow> 'k \<Rightarrow> (int \<times> 'k) option"
  k_close :: "int \<Rightarrow> 'k \<Rightarrow> 'k"
  k_open_null :: "'k \<Rightarrow> int \<times> 'k"
  k_queue_init_params :: "32 word \<Rightarrow> 'k \<Rightarrow> int \<times> 'k"
  k_register_eventfd :: "int \<Rightarrow> 'k \<Rightarrow> int \<times> 'k"
  k_register_files :: "int list \<Rightarrow> 'k \<Rightarrow> int \<times> 'k"
  k_files_update :: "nat \<Rightarrow> int list \<Rightarrow> 'k \<Rightarrow> int \<times> 'k"
  k_queue_exit :: "'k \<Rightarrow> 'k"
  k_peek_cqe :: "'k \<Rightarrow> cqe option"
  k_wait_cqe_nr :: "nat \<Rightarrow> 'k \<Rightarrow> 'k option"
  k_ready_cqes :: "'k \<Rightarrow> cqe list"
  k_peek_batch_cqe :: "nat \<Rightarrow> 'k \<Rightarrow> cqe list"
  k_cq_advance :: "nat \<Rightarrow> 'k \<Rightarrow> 'k"
  k_get_sqe :: "'k \<Rightarrow> addr \<times> 'k"
  k_prep :: "addr \<Rightarrow> sqe_prep \<Rightarrow> 'k \<Rightarrow> 'k"
  k_submit :: "'k \<Rightarrow> int \<times> 'k"

text \<open>The documented eventfd (no \<^verbatim>\<open>EFD_NONBLOCK\<close>, no \<^verbatim>\<open>EFD_SEMAPHORE\<close>): a counter of at most
  \<open>2 ^ 64 - 2\<close>; a write adds to it and waits while the sum would pass the maximum (a write of
  \<open>2 ^ 64 - 1\<close> fails with \<^verbatim>\<open>EINVAL\<close>, of which nothing is said here), a read returns it and resets it to zero,
  and waits while it is zero. \<open>cnt fd k\<close> is the counter.\<close>

definition eventfd_max :: nat where "eventfd_max = 2 ^ 64 - 2"

definition eventfd_doc :: "'k kernel_ops \<Rightarrow> (int \<Rightarrow> 'k \<Rightarrow> nat) \<Rightarrow> bool" where
  "eventfd_doc K cnt \<longleftrightarrow>
     (\<forall>fd v k. fd \<ge> 0 \<longrightarrow> unat v \<le> eventfd_max \<longrightarrow>
        (if cnt fd k + unat v \<le> eventfd_max
         then (\<exists>k'. k_eventfd_write K fd v k = Some (0, k') \<and> cnt fd k' = cnt fd k + unat v)
         else k_eventfd_write K fd v k = None)) \<and>
     (\<forall>fd k. fd \<ge> 0 \<longrightarrow>
        (if cnt fd k = 0 then k_eventfd_read K fd k = None
         else (\<exists>k'. k_eventfd_read K fd k = Some (0, of_nat (cnt fd k), k') \<and> cnt fd k' = 0)))"

text \<open>Updating registered files returns the number of files updated.\<close>

definition files_update_doc :: "'k kernel_ops \<Rightarrow> bool" where
  "files_update_doc K \<longleftrightarrow> (\<forall>off fds k. fst (k_files_update K off fds k) = int (length fds))"


text \<open>\<^verbatim>\<open>io_uring_peek_batch_cqe\<close> fills in at most as many entries as it is asked for.\<close>

definition peek_doc :: "'k kernel_ops \<Rightarrow> bool" where
  "peek_doc K \<longleftrightarrow> (\<forall>n k. length (k_peek_batch_cqe K n k) \<le> n)"

text \<open>The completion queue \<open>cq k\<close> as liburing documents it: peeking shows the first entries in order,
  at most as many as asked for, and advancing consumes that many.\<close>

definition cq_doc :: "'k kernel_ops \<Rightarrow> ('k \<Rightarrow> cqe list) \<Rightarrow> bool" where
  "cq_doc K cq \<longleftrightarrow>
     (\<forall>n k. k_peek_batch_cqe K n k = take n (cq k)) \<and> (\<forall>n k. cq (k_cq_advance K n k) = drop n (cq k))"

text \<open>Submitting only adds to the eventfd registered for completions.\<close>

definition submit_doc :: "'k kernel_ops \<Rightarrow> (int \<Rightarrow> 'k \<Rightarrow> nat) \<Rightarrow> bool" where
  "submit_doc K cnt \<longleftrightarrow> (\<forall>fd k. cnt fd k \<le> cnt fd (snd (k_submit K k)))"

text \<open>A concrete kernel with the documented behaviour, whose state is one eventfd counter.\<close>

definition sample_kernel :: "nat kernel_ops" where
  "sample_kernel =
     \<lparr>k_eventfd = (\<lambda>k. (3, 0)),
      k_eventfd_read = (\<lambda>fd k. if k = 0 then None else Some (0, of_nat k, 0)),
      k_eventfd_write = (\<lambda>fd v k. if k + unat v \<le> eventfd_max then Some (0, k + unat v) else None),
      k_close = (\<lambda>fd k. k),
      k_open_null = (\<lambda>k. (5, k)),
      k_queue_init_params = (\<lambda>n k. (0, k)),
      k_register_eventfd = (\<lambda>fd k. (0, k)),
      k_register_files = (\<lambda>fds k. (0, k)),
      k_files_update = (\<lambda>off fds k. (int (length fds), k)),
      k_queue_exit = (\<lambda>k. k),
      k_peek_cqe = (\<lambda>k. None),
      k_wait_cqe_nr = (\<lambda>n k. None),
      k_ready_cqes = (\<lambda>k. []),
      k_peek_batch_cqe = (\<lambda>n k. []),
      k_cq_advance = (\<lambda>n k. k),
      k_get_sqe = (\<lambda>k. (64, k)),
      k_prep = (\<lambda>s p k. k),
      k_submit = (\<lambda>k. (0, k))\<rparr>"

lemma sample_eventfd_doc: "eventfd_doc sample_kernel (\<lambda>fd k. k)"
  by (simp add: eventfd_doc_def sample_kernel_def)

lemma sample_submit_doc: "submit_doc sample_kernel (\<lambda>fd k. k)"
  by (simp add: submit_doc_def sample_kernel_def)

lemma sample_files_update_doc: "files_update_doc sample_kernel"
  by (simp add: files_update_doc_def sample_kernel_def)

lemma sample_peek_doc: "peek_doc sample_kernel"
  by (simp add: peek_doc_def sample_kernel_def)


section \<open>The proxy\<close>

record 'k uring_proxy =
  m_efd :: int
  m_uring :: 'k
  m_null_fds :: "int list"
  m_fds :: "int marked_buffer"

text \<open>The constructor: \<open>k\<close> is the state of the kernel objects, \<open>fds\<close> the uninitialised array.\<close>

definition new_uring_proxy :: "'k kernel_ops \<Rightarrow> 'k \<Rightarrow> int list \<Rightarrow> 'k uring_proxy result" where
  "new_uring_proxy K k fds =
     (case k_eventfd K k of (efd, k') \<Rightarrow>
        if efd < 0 then Inl Std_exit
        else Inr \<lparr>m_efd = efd, m_uring = k', m_null_fds = [], m_fds = \<lparr>data = fds, que = []\<rparr>\<rparr>)"

text \<open>The loop that opens \<^verbatim>\<open>/dev/null\<close> once per slot.\<close>

definition open_null_fd :: "'k kernel_ops \<Rightarrow> nat \<Rightarrow> 'k uring_proxy \<Rightarrow> 'k uring_proxy result" where
  "open_null_fd K i p =
     (case k_open_null K (m_uring p) of (fd, k') \<Rightarrow>
        if fd \<le> 0 then Inl Std_exit
        else Inr (p\<lparr>m_uring := k', m_null_fds := m_null_fds p @ [fd]\<rparr>))"

definition uring_init :: "'k kernel_ops \<Rightarrow> 32 word \<Rightarrow> 'k uring_proxy \<Rightarrow> 'k uring_proxy result" where
  "uring_init K entry_length p =
     (case k_queue_init_params K entry_length (m_uring p) of (r, k1) \<Rightarrow>
      if r \<noteq> 0 then Inl Std_exit
      else case k_register_eventfd K (m_efd p) k1 of (r, k2) \<Rightarrow>
      if r \<noteq> 0 then Inl Std_exit
      else if \<not> kEnableFixfd then Inr (p\<lparr>m_uring := k2\<rparr>)
      else
        bindE (forE [0..<kFixFdArraySize] (open_null_fd K)
                 (p\<lparr>m_uring := k2, m_fds := mb_init (m_fds p), m_null_fds := []\<rparr>)) (\<lambda>p1.
        bindE (set_data (m_null_fds p1) (m_fds p1)) (\<lambda>fds.
        case k_register_files K (data fds) (m_uring p1) of (r, k3) \<Rightarrow>
        if r \<noteq> 0 then Inl Std_exit
        else Inr (p1\<lparr>m_fds := fds, m_uring := k3\<rparr>))))"

definition uring_deinit :: "'k kernel_ops \<Rightarrow> 'k uring_proxy \<Rightarrow> 'k uring_proxy" where
  "uring_deinit K p =
     (let k1 = k_close K (m_efd p) (m_uring p);
          k2 = (if kEnableFixfd then fold (k_close K) (m_null_fds p) k1 else k1)
      in p\<lparr>m_efd := -1, m_uring := k_queue_exit K k2\<rparr>)"

definition peek_uring :: "'k kernel_ops \<Rightarrow> 'k uring_proxy \<Rightarrow> bool" where
  "peek_uring K p \<longleftrightarrow> k_peek_cqe K (m_uring p) \<noteq> None"

definition wait_uring :: "'k kernel_ops \<Rightarrow> nat \<Rightarrow> 'k uring_proxy \<Rightarrow> 'k uring_proxy result" where
  "wait_uring K num p =
     (case k_wait_cqe_nr K num (m_uring p) of None \<Rightarrow> Inl Blocks | Some k \<Rightarrow> Inr (p\<lparr>m_uring := k\<rparr>))"

definition cq_advance :: "'k kernel_ops \<Rightarrow> nat \<Rightarrow> 'k uring_proxy \<Rightarrow> 'k uring_proxy" where
  "cq_advance K num p = p\<lparr>m_uring := k_cq_advance K num (m_uring p)\<rparr>"

definition seen_cqe_entry :: "'k kernel_ops \<Rightarrow> 'k uring_proxy \<Rightarrow> 'k uring_proxy" where
  "seen_cqe_entry K p = p\<lparr>m_uring := k_cq_advance K 1 (m_uring p)\<rparr>"

definition get_free_sqe :: "'k kernel_ops \<Rightarrow> 'k uring_proxy \<Rightarrow> addr \<times> 'k uring_proxy" where
  "get_free_sqe K p = (case k_get_sqe K (m_uring p) of (s, k) \<Rightarrow> (s, p\<lparr>m_uring := k\<rparr>))"

definition submit :: "'k kernel_ops \<Rightarrow> 'k uring_proxy \<Rightarrow> int \<times> 'k uring_proxy" where
  "submit K p = (case k_submit K (m_uring p) of (r, k) \<Rightarrow> (r, p\<lparr>m_uring := k\<rparr>))"

text \<open>\<^verbatim>\<open>handle_for_each_cqe\<close>: \<open>f\<close> is the handler, acting on a state of the caller.\<close>

definition handle_for_each_cqe ::
    "'k kernel_ops \<Rightarrow> (cqe \<Rightarrow> 's \<Rightarrow> 's) \<Rightarrow> bool \<Rightarrow> 's \<Rightarrow> 'k uring_proxy \<Rightarrow> nat \<times> 's \<times> 'k uring_proxy" where
  "handle_for_each_cqe K f mark_finish s p =
     (let cqes = k_ready_cqes K (m_uring p); i = length cqes
      in (i, fold f cqes s, if mark_finish then cq_advance K i p else p))"

definition wait_eventfd :: "'k kernel_ops \<Rightarrow> 'k uring_proxy \<Rightarrow> (64 word \<times> 'k uring_proxy) result" where
  "wait_eventfd K p =
     (case k_eventfd_read K (m_efd p) (m_uring p) of
        None \<Rightarrow> Inl Blocks
      | Some (ret, u, k) \<Rightarrow> if ret = -1 then Inl Assert_failed else Inr (u, p\<lparr>m_uring := k\<rparr>))"

definition peek_batch_cqe :: "'k kernel_ops \<Rightarrow> nat \<Rightarrow> 'k uring_proxy \<Rightarrow> cqe list" where
  "peek_batch_cqe K num p = k_peek_batch_cqe K num (m_uring p)"

definition write_eventfd :: "'k kernel_ops \<Rightarrow> 64 word \<Rightarrow> 'k uring_proxy \<Rightarrow> 'k uring_proxy result" where
  "write_eventfd K num p =
     (case k_eventfd_write K (m_efd p) num (m_uring p) of
        None \<Rightarrow> Inl Blocks
      | Some (ret, k) \<Rightarrow> if ret = -1 then Inl Assert_failed else Inr (p\<lparr>m_uring := k\<rparr>))"

definition get_fixed_fd :: "'k uring_proxy \<Rightarrow> item \<times> 'k uring_proxy" where
  "get_fixed_fd p =
     (if \<not> kEnableFixfd then (invalid_item, p)
      else case borrow (m_fds p) of (it, fds) \<Rightarrow> (it, p\<lparr>m_fds := fds\<rparr>))"

definition update_register_fixed_fds :: "'k kernel_ops \<Rightarrow> int \<Rightarrow> 'k uring_proxy \<Rightarrow> 'k uring_proxy result" where
  "update_register_fixed_fds K index p =
     (if \<not> kEnableFixfd then Inr p
      else if index \<ge> 0 then
        (if nat index \<ge> length (data (m_fds p)) then Inl Out_of_bounds
         else case k_files_update K (nat index) [data (m_fds p) ! nat index] (m_uring p) of (r, k) \<Rightarrow>
           if r \<noteq> 1 then Inl Std_exit else Inr (p\<lparr>m_uring := k\<rparr>))
      else
        (case k_files_update K 0 (data (m_fds p)) (m_uring p) of (r, k) \<Rightarrow>
           if r \<noteq> int kFixFdArraySize then Inl Std_exit else Inr (p\<lparr>m_uring := k\<rparr>)))"

definition back_fixed_fd :: "'k kernel_ops \<Rightarrow> item \<Rightarrow> 'k uring_proxy \<Rightarrow> 'k uring_proxy result" where
  "back_fixed_fd K it p =
     (if \<not> valid it then Inr p
      else if nat (idx it) \<ge> length (data (m_fds p)) \<or> nat (idx it) \<ge> length (m_null_fds p) then Inl Out_of_bounds
      else
        bindE (update_register_fixed_fds K (idx it)
           (p\<lparr>m_fds := (m_fds p)\<lparr>data := (data (m_fds p))[nat (idx it) := m_null_fds p ! nat (idx it)]\<rparr>\<rparr>)) (\<lambda>p'.
        Inr (p'\<lparr>m_fds := return_back it (m_fds p')\<rparr>)))"


section \<open>Fixed file slots of connections\<close>

text \<open>\<^verbatim>\<open>fixed_fds\<close>: the object holds one item; the constructor borrows it, \<^verbatim>\<open>assign\<close> puts a
  descriptor into the slot, \<^verbatim>\<open>return_back\<close> and the destructor give the slot back.\<close>

definition IOSQE_FIXED_FILE :: nat where "IOSQE_FIXED_FILE = 1"

definition fixed_fds_ctor :: "'k uring_proxy \<Rightarrow> item \<times> 'k uring_proxy" where
  "fixed_fds_ctor p = get_fixed_fd p"

text \<open>Returned: the descriptor and the flags as the caller's references are left.\<close>

definition fixed_fds_assign ::
    "'k kernel_ops \<Rightarrow> item \<Rightarrow> int \<Rightarrow> nat \<Rightarrow> 'k uring_proxy \<Rightarrow> (int \<times> nat \<times> 'k uring_proxy) result" where
  "fixed_fds_assign K it fd flag p =
     (if \<not> valid it then Inr (fd, flag, p)
      else case ptr it of
        None \<Rightarrow> Inl Null_deref
      | Some i \<Rightarrow>
          bindE (update_register_fixed_fds K (idx it)
             (p\<lparr>m_fds := (m_fds p)\<lparr>data := (data (m_fds p))[i := fd]\<rparr>\<rparr>)) (\<lambda>p'.
          Inr (idx it, or flag IOSQE_FIXED_FILE, p')))"

definition fixed_fds_return_back :: "'k kernel_ops \<Rightarrow> item \<Rightarrow> 'k uring_proxy \<Rightarrow> (item \<times> 'k uring_proxy) result" where
  "fixed_fds_return_back K it p =
     (if valid it then bindE (back_fixed_fd K it p) (\<lambda>p'. Inr (set_invalid it, p'))
      else Inr (it, p))"


section \<open>The slots stay consistent\<close>

text \<open>The pool is well formed and every free slot holds its null descriptor.\<close>

definition proxy_inv :: "'k uring_proxy \<Rightarrow> bool" where
  "proxy_inv p \<longleftrightarrow>
     mb_inv (m_fds p) \<and> length (data (m_fds p)) = kFixFdArraySize \<and> length (m_null_fds p) = kFixFdArraySize \<and>
     (\<forall>i \<in> set (que (m_fds p)). data (m_fds p) ! nat i = m_null_fds p ! nat i)"

lemma kFixFd_simps [simp]: "kEnableFixfd" "kFixFdArraySize = 8"
  by (simp_all add: kEnableFixfd_def kFixFdArraySize_def)

lemma open_null_fds:
  assumes "forE is (open_null_fd K) p = Inr p'"
  shows "m_fds p' = m_fds p \<and> m_efd p' = m_efd p \<and>
    (\<exists>fds. m_null_fds p' = m_null_fds p @ fds \<and> length fds = length is \<and> (\<forall>fd\<in>set fds. fd > 0))"
  using assms
proof (induction "is" arbitrary: p)
  case Nil
  then show ?case by simp
next
  case (Cons i "is")
  then obtain p1 where one: "open_null_fd K i p = Inr p1" and rest: "forE is (open_null_fd K) p1 = Inr p'" by auto
  from one obtain fd where "fd > 0" and "m_null_fds p1 = m_null_fds p @ [fd]" "m_fds p1 = m_fds p" "m_efd p1 = m_efd p"
    by (auto simp: open_null_fd_def split: prod.splits if_splits)
  moreover from Cons.IH [OF rest] obtain fds where "m_null_fds p' = m_null_fds p1 @ fds" "length fds = length is"
    "\<forall>fd\<in>set fds. fd > 0" "m_fds p' = m_fds p1" "m_efd p' = m_efd p1" by auto
  ultimately show ?case by (intro conjI exI [of _ "fd # fds"]) auto
qed

lemma update_one_slot:
  assumes "files_update_doc K" and "0 \<le> i" and "nat i < length (data (m_fds p))"
  obtains k where "update_register_fixed_fds K i p = Inr (p\<lparr>m_uring := k\<rparr>)"
proof -
  obtain r k where rk: "k_files_update K (nat i) [data (m_fds p) ! nat i] (m_uring p) = (r, k)"
    by (rule prod.exhaust)
  with assms(1) have "r = 1" unfolding files_update_doc_def by (metis One_nat_def fst_conv length_Cons list.size(3) of_nat_1)
  with rk assms(2,3) have "update_register_fixed_fds K i p = Inr (p\<lparr>m_uring := k\<rparr>)"
    by (simp add: update_register_fixed_fds_def)
  then show thesis by (rule that)
qed

lemma back_fixed_fd_ok:
  assumes doc: "files_update_doc K" and inv: "proxy_inv p" and lent: "idx it \<in> lent (m_fds p)"
  obtains p' where "back_fixed_fd K it p = Inr p'" and "proxy_inv p'"
    and "lent (m_fds p') = lent (m_fds p) - {idx it}"
    and "data (m_fds p') = (data (m_fds p))[nat (idx it) := m_null_fds p ! nat (idx it)]"
    and "m_null_fds p' = m_null_fds p"
proof -
  let ?i = "nat (idx it)"
  let ?p = "p\<lparr>m_fds := (m_fds p)\<lparr>data := (data (m_fds p))[?i := m_null_fds p ! ?i]\<rparr>\<rparr>"
  have b: "0 \<le> idx it" "?i < 8" "length (data (m_fds p)) = 8" "length (m_null_fds p) = 8"
    using lent inv by (auto simp: lent_def proxy_inv_def)
  obtain k where k: "update_register_fixed_fds K (idx it) ?p = Inr (?p\<lparr>m_uring := k\<rparr>)"
    using update_one_slot [OF doc b(1), of ?p] b by auto
  let ?r = "?p\<lparr>m_uring := k, m_fds := return_back it (m_fds ?p)\<rparr>"
  have eq: "back_fixed_fd K it p = Inr ?r"
    using b k by (simp add: back_fixed_fd_def valid_def)
  have mb: "mb_inv (m_fds ?p)" and le: "idx it \<in> lent (m_fds ?p)"
    using inv lent by (auto simp: proxy_inv_def mb_inv_def lent_def)
  note rb = return_back_lent [OF mb le]
  have null: "data (m_fds ?p) ! nat i = m_null_fds p ! nat i" if "i \<in> set (que (m_fds p)) \<or> i = idx it" for i
    using that inv b by (cases "nat i = ?i") (auto simp: proxy_inv_def)
  have "proxy_inv ?r"
    unfolding proxy_inv_def using rb b null
    by (auto simp: return_back_def split: if_splits)
  then show thesis
    by (rule that [OF eq]) (use rb in \<open>simp_all add: lent_def\<close>)
qed

lemma fixed_fds_ctor_cases:
  assumes "proxy_inv p"
  shows "que (m_fds p) = [] \<Longrightarrow> fixed_fds_ctor p = (invalid_item, p)"
    and "que (m_fds p) \<noteq> [] \<Longrightarrow> fixed_fds_ctor p = (it, p1) \<Longrightarrow>
           valid it \<and> proxy_inv p1 \<and> idx it \<in> lent (m_fds p1) \<and> idx it \<in> {0..<8} \<and>
           lent (m_fds p1) = insert (idx it) (lent (m_fds p)) \<and> idx it \<notin> lent (m_fds p) \<and>
           ptr it = Some (nat (idx it)) \<and> data (m_fds p1) = data (m_fds p) \<and> m_null_fds p1 = m_null_fds p \<and>
           data (m_fds p) ! nat (idx it) = m_null_fds p ! nat (idx it)"
proof -
  have mb: "mb_inv (m_fds p)" using assms by (simp add: proxy_inv_def)
  show "que (m_fds p) = [] \<Longrightarrow> fixed_fds_ctor p = (invalid_item, p)"
    using borrow_cases(1) [OF mb] by (simp add: fixed_fds_ctor_def get_fixed_fd_def)
  assume ne: "que (m_fds p) \<noteq> []" and ctor: "fixed_fds_ctor p = (it, p1)"
  then obtain i rest where q: "que (m_fds p) = i # rest" by (cases "que (m_fds p)") auto
  with ctor have p1: "it = \<lparr>idx = i, ptr = Some (nat i)\<rparr>" "p1 = p\<lparr>m_fds := (m_fds p)\<lparr>que := rest\<rparr>\<rparr>"
    by (auto simp: fixed_fds_ctor_def get_fixed_fd_def borrow_def)
  then show "valid it \<and> proxy_inv p1 \<and> idx it \<in> lent (m_fds p1) \<and> idx it \<in> {0..<8} \<and>
           lent (m_fds p1) = insert (idx it) (lent (m_fds p)) \<and> idx it \<notin> lent (m_fds p) \<and>
           ptr it = Some (nat (idx it)) \<and> data (m_fds p1) = data (m_fds p) \<and> m_null_fds p1 = m_null_fds p \<and>
           data (m_fds p) ! nat (idx it) = m_null_fds p ! nat (idx it)"
    using assms q by (auto simp: proxy_inv_def mb_inv_def lent_def valid_def)
qed

lemma fixed_fds_assign_ok:
  assumes doc: "files_update_doc K" and inv: "proxy_inv p" and lent: "idx it \<in> lent (m_fds p)"
    and ptr: "ptr it = Some (nat (idx it))"
  obtains p' where "fixed_fds_assign K it fd flag p = Inr (idx it, or flag IOSQE_FIXED_FILE, p')" and "proxy_inv p'"
    and "lent (m_fds p') = lent (m_fds p)" and "data (m_fds p') = (data (m_fds p))[nat (idx it) := fd]"
    and "m_null_fds p' = m_null_fds p"
proof -
  let ?p = "p\<lparr>m_fds := (m_fds p)\<lparr>data := (data (m_fds p))[nat (idx it) := fd]\<rparr>\<rparr>"
  have b: "0 \<le> idx it" "nat (idx it) < 8" "length (data (m_fds p)) = 8"
    using lent inv by (auto simp: lent_def proxy_inv_def)
  obtain k where k: "update_register_fixed_fds K (idx it) ?p = Inr (?p\<lparr>m_uring := k\<rparr>)"
    using update_one_slot [OF doc b(1), of ?p] b by auto
  have eq: "fixed_fds_assign K it fd flag p = Inr (idx it, or flag IOSQE_FIXED_FILE, ?p\<lparr>m_uring := k\<rparr>)"
    using b ptr k by (simp add: fixed_fds_assign_def valid_def)
  have free: "nat (idx it) \<noteq> nat i" if "i \<in> set (que (m_fds p))" for i
  proof -
    from that inv have "0 \<le> i" unfolding proxy_inv_def mb_inv_def by auto
    moreover from that lent have "i \<noteq> idx it" unfolding lent_def by auto
    ultimately show ?thesis using b(1) by simp
  qed
  have "proxy_inv (?p\<lparr>m_uring := k\<rparr>)"
    using inv free by (auto simp: proxy_inv_def mb_inv_def)
  then show thesis by (rule that [OF eq]) (simp_all add: lent_def)
qed


section \<open>Properties\<close>

text \<open>A proxy that survived its initialisation has eight distinct free slots, each registered
  with the open null descriptor it will hold whenever it is free.\<close>

theorem uring_init_slots:
  assumes "uring_init K n p = Inr p'" and "length (data (m_fds p)) = kFixFdArraySize"
  shows "proxy_inv p' \<and> lent (m_fds p') = {} \<and> data (m_fds p') = m_null_fds p' \<and> (\<forall>fd \<in> set (m_null_fds p'). fd > 0)"
proof -
  obtain r1 k1 where 1: "k_queue_init_params K n (m_uring p) = (r1, k1)" by (rule prod.exhaust)
  obtain r2 k2 where 2: "k_register_eventfd K (m_efd p) k1 = (r2, k2)" by (rule prod.exhaust)
  from assms(1) 1 2 obtain p1 fds where
    loop: "forE [0..<8] (open_null_fd K) (p\<lparr>m_uring := k2, m_fds := mb_init (m_fds p), m_null_fds := []\<rparr>) = Inr p1"
    and sd: "set_data (m_null_fds p1) (m_fds p1) = Inr fds"
    by (auto simp: uring_init_def split: if_splits)
  obtain r3 k3 where 3: "k_register_files K (data fds) (m_uring p1) = (r3, k3)" by (rule prod.exhaust)
  from assms(1) 1 2 3 loop sd have p': "p' = p1\<lparr>m_fds := fds, m_uring := k3\<rparr>"
    by (auto simp: uring_init_def split: if_splits)
  from open_null_fds [OF loop] have p1: "m_fds p1 = mb_init (m_fds p)" "length (m_null_fds p1) = 8"
    "\<forall>fd\<in>set (m_null_fds p1). fd > 0" by auto
  with set_data_inv [of "m_null_fds p1" "m_fds p" fds] sd assms(2) have "mb_inv fds" "lent fds = {}" "data fds = m_null_fds p1"
    by simp_all
  with p1 p' show ?thesis by (auto simp: proxy_inv_def)
qed

definition sample_proxy :: "nat uring_proxy" where
  "sample_proxy = \<lparr>m_efd = 3, m_uring = 0, m_null_fds = replicate 8 5,
     m_fds = \<lparr>data = replicate 8 5, que = [0, 1, 2, 3, 4, 5, 6, 7]\<rparr>\<rparr>"

lemma sample_uring_init:
  "uring_init sample_kernel kEntryLength
     \<lparr>m_efd = 3, m_uring = 0, m_null_fds = [], m_fds = \<lparr>data = replicate 8 0, que = []\<rparr>\<rparr> = Inr sample_proxy"
  by (simp add: uring_init_def sample_kernel_def open_null_fd_def set_data_def mb_init_def sample_proxy_def
      upt_rec numeral_eq_Suc)

theorem uring_init_slots_witness:
  "proxy_inv sample_proxy \<and> lent (m_fds sample_proxy) = {} \<and> data (m_fds sample_proxy) = m_null_fds sample_proxy"
  using uring_init_slots [OF sample_uring_init] by simp

lemma fixed_fds_cycle:
  assumes doc: "files_update_doc K" and inv: "proxy_inv p" and ctor: "fixed_fds_ctor p = (it, p1)"
  shows "\<exists>fd' flag' p2 it' p3.
    fixed_fds_assign K it fd flag p1 = Inr (fd', flag', p2) \<and>
    fixed_fds_return_back K it p2 = Inr (it', p3) \<and>
    (\<forall>q. fixed_fds_return_back K it' q = Inr (it', q)) \<and>
    proxy_inv p3 \<and> lent (m_fds p3) = lent (m_fds p) \<and> data (m_fds p3) = data (m_fds p) \<and>
    (if que (m_fds p) = [] then fd' = fd \<and> flag' = flag \<and> p3 = p
     else fd' = idx it \<and> fd' \<notin> lent (m_fds p) \<and> 0 \<le> fd' \<and> fd' < 8 \<and>
          data (m_fds p2) ! nat fd' = fd \<and> flag' = or flag IOSQE_FIXED_FILE)"
proof (cases "que (m_fds p) = []")
  case True
  with fixed_fds_ctor_cases(1) [OF inv] ctor have "it = invalid_item" "p1 = p" by auto
  then show ?thesis using True inv
    by (auto simp: fixed_fds_assign_def fixed_fds_return_back_def valid_def invalid_item_def)
next
  case False
  note c = fixed_fds_ctor_cases(2) [OF inv False ctor]
  then have inv1: "proxy_inv p1" and l1: "idx it \<in> lent (m_fds p1)" and pt: "ptr it = Some (nat (idx it))" by auto
  obtain p2 where a: "fixed_fds_assign K it fd flag p1 = Inr (idx it, or flag IOSQE_FIXED_FILE, p2)"
    and p2: "proxy_inv p2" "lent (m_fds p2) = lent (m_fds p1)" "data (m_fds p2) = (data (m_fds p1))[nat (idx it) := fd]"
      "m_null_fds p2 = m_null_fds p1"
    by (rule fixed_fds_assign_ok [OF doc inv1 l1 pt])
  from l1 p2(2) have l2: "idx it \<in> lent (m_fds p2)" by simp
  obtain p3 where b: "back_fixed_fd K it p2 = Inr p3" and p3: "proxy_inv p3" "lent (m_fds p3) = lent (m_fds p2) - {idx it}"
      "data (m_fds p3) = (data (m_fds p2))[nat (idx it) := m_null_fds p2 ! nat (idx it)]"
    by (rule back_fixed_fd_ok [OF doc p2(1) l2])
  have r: "fixed_fds_return_back K it p2 = Inr (set_invalid it, p3)"
    using c b by (simp add: fixed_fds_return_back_def)
  have len: "length (data (m_fds p)) = 8" using inv by (simp add: proxy_inv_def)
  have "m_null_fds p2 ! nat (idx it) = data (m_fds p) ! nat (idx it)" using c p2(4) by simp
  then have "data (m_fds p3) = data (m_fds p)"
    using c p2(3) p3(3) by (metis list_update_id list_update_overwrite)
  then show ?thesis using False c p2 p3 len a r
    by (intro exI [of _ "idx it"] exI [of _ "or flag IOSQE_FIXED_FILE"] exI [of _ p2] exI [of _ "set_invalid it"] exI [of _ p3])
      (auto simp: fixed_fds_return_back_def valid_def set_invalid_def)
qed

text \<open>the life of a connection's fixed slot: when a slot is free, construction takes one nobody
  else holds, assignment puts the descriptor into it and hands out the slot number with the
  fixed-file flag, giving it back restores the null descriptor and the pool exactly as before,
  and giving it back again (as the destructor does) changes nothing. With no slot free the
  descriptor and flags are left alone.\<close>

theorem fixed_fds_lifecycle:
  assumes doc: "files_update_doc K" and inv: "proxy_inv p" and ctor: "fixed_fds_ctor p = (it, p1)"
  shows "\<exists>fd' flag' p2 it' p3.
    fixed_fds_assign K it fd flag p1 = Inr (fd', flag', p2) \<and>
    fixed_fds_return_back K it p2 = Inr (it', p3) \<and>
    fixed_fds_return_back K it' p3 = Inr (it', p3) \<and>
    proxy_inv p3 \<and> lent (m_fds p3) = lent (m_fds p) \<and> data (m_fds p3) = data (m_fds p) \<and>
    (if que (m_fds p) = [] then fd' = fd \<and> flag' = flag \<and> p3 = p
     else fd' = idx it \<and> fd' \<notin> lent (m_fds p) \<and> 0 \<le> fd' \<and> fd' < 8 \<and>
          data (m_fds p2) ! nat fd' = fd \<and> flag' = or flag IOSQE_FIXED_FILE)"
  using fixed_fds_cycle [OF assms, of fd flag] by metis

lemma sample_proxy_inv: "proxy_inv sample_proxy"
  by (simp add: proxy_inv_def mb_inv_def sample_proxy_def)

theorem fixed_fds_lifecycle_witness:
  "\<exists>fd' flag' p2 it' p3.
    fixed_fds_assign sample_kernel (fst (fixed_fds_ctor sample_proxy)) 42 0 (snd (fixed_fds_ctor sample_proxy)) =
      Inr (fd', flag', p2) \<and>
    fixed_fds_return_back sample_kernel (fst (fixed_fds_ctor sample_proxy)) p2 = Inr (it', p3) \<and>
    fd' = 0 \<and> flag' = 1 \<and> data (m_fds p2) ! 0 = 42 \<and> data (m_fds p3) = replicate 8 5"
proof -
  let ?it = "fst (fixed_fds_ctor sample_proxy)" and ?p1 = "snd (fixed_fds_ctor sample_proxy)"
  have e: "que (m_fds sample_proxy) \<noteq> []" "idx ?it = 0" "data (m_fds sample_proxy) = replicate 8 5"
    by (simp_all add: sample_proxy_def fixed_fds_ctor_def get_fixed_fd_def borrow_def)
  have "fixed_fds_ctor sample_proxy = (?it, ?p1)" by simp
  from fixed_fds_lifecycle [OF sample_files_update_doc sample_proxy_inv this, of 42 0] e
  obtain fd' flag' p2 it' p3 where
    "fixed_fds_assign sample_kernel ?it 42 0 ?p1 = Inr (fd', flag', p2)"
    "fixed_fds_return_back sample_kernel ?it p2 = Inr (it', p3)"
    "fd' = 0" "data (m_fds p2) ! nat fd' = 42" "flag' = or 0 IOSQE_FIXED_FILE" "data (m_fds p3) = replicate 8 5"
    by auto
  then show ?thesis by (intro exI [of _ fd'] exI [of _ flag'] exI [of _ p2] exI [of _ it'] exI [of _ p3])
      (simp add: IOSQE_FIXED_FILE_def)
qed

end
