(* ===== verification/Container.thy ===== *)
theory Container
  imports Prelude
begin

text \<open>
  Where a coroutine's result is kept: \<^verbatim>\<open>container<T>\<close> of
  \<^verbatim>\<open>include/coro/detail/container.hpp\<close> (the variant-based one, its reference form, and
  the specialisation for plain-old-data types), and the result part of \<^verbatim>\<open>promise<void>\<close>
  of \<^verbatim>\<open>include/coro/task.hpp\<close>.
\<close>

section \<open>The variant container\<close>

datatype ('v, 'e) storage = Unset | Stored 'v | Exception_ptr 'e

text \<open>What \<^verbatim>\<open>result()\<close> throws: the stored exception, or the \<^verbatim>\<open>runtime_error\<close> of an unset container.\<close>

datatype 'e thrown = Rethrown 'e | Never_set

definition return_value :: "'v \<Rightarrow> ('v, 'e) storage \<Rightarrow> ('v, 'e) storage" where
  "return_value value m_storage = Stored value"

definition set_exception :: "'e \<Rightarrow> ('v, 'e) storage \<Rightarrow> ('v, 'e) storage" where
  "set_exception current_exception m_storage = Exception_ptr current_exception"

text \<open>The three overloads of \<^verbatim>\<open>result()\<close> make the same case distinction.\<close>

definition container_result :: "('v, 'e) storage \<Rightarrow> 'e thrown + 'v" where
  "container_result m_storage =
     (case m_storage of
        Stored v \<Rightarrow> Inr v
      | Exception_ptr e \<Rightarrow> Inl (Rethrown e)
      | Unset \<Rightarrow> Inl Never_set)"

definition value_ready :: "('v, 'e) storage \<Rightarrow> bool" where
  "value_ready m_storage = (case m_storage of Stored _ \<Rightarrow> True | _ \<Rightarrow> False)"

definition value_exception :: "('v, 'e) storage \<Rightarrow> bool" where
  "value_exception m_storage = (case m_storage of Exception_ptr _ \<Rightarrow> True | _ \<Rightarrow> False)"

definition value_unset :: "('v, 'e) storage \<Rightarrow> bool" where
  "value_unset m_storage \<longleftrightarrow> \<not> value_ready m_storage \<and> \<not> value_exception m_storage"

text \<open>For a reference type the stored value is the address of the referred object, and
  \<^verbatim>\<open>result()\<close> reads the object when it is called.\<close>

definition return_value_ref :: "addr \<Rightarrow> (addr, 'e) storage \<Rightarrow> (addr, 'e) storage" where
  "return_value_ref ref m_storage = Stored ref"

definition container_result_ref :: "(addr \<Rightarrow> 'v) \<Rightarrow> (addr, 'e) storage \<Rightarrow> 'e thrown + 'v" where
  "container_result_ref memory m_storage =
     (case m_storage of
        Stored p \<Rightarrow> Inr (memory p)
      | Exception_ptr e \<Rightarrow> Inl (Rethrown e)
      | Unset \<Rightarrow> Inl Never_set)"


section \<open>The container of plain-old-data types\<close>

datatype value_state = vs_none | vs_value | vs_exception

text \<open>The anonymous union: no member is active until one is written.\<close>

datatype ('v, 'e) pod_union = No_member | M_value 'v | M_exception_ptr 'e

record ('v, 'e) pod_container =
  pc_union :: "('v, 'e) pod_union"
  pc_state :: value_state

definition pod_container :: "('v, 'e) pod_container" where
  "pod_container = \<lparr>pc_union = No_member, pc_state = vs_none\<rparr>"

definition pod_return_value :: "'v \<Rightarrow> ('v, 'e) pod_container \<Rightarrow> ('v, 'e) pod_container" where
  "pod_return_value value c = c\<lparr>pc_union := M_value value, pc_state := vs_value\<rparr>"

text \<open>\<^verbatim>\<open>m_exception_ptr = std::current_exception()\<close> calls the assignment operator of an object
  whose lifetime has begun only if \<^verbatim>\<open>m_exception_ptr\<close> is already the active member.\<close>

definition pod_set_exception :: "'e \<Rightarrow> ('v, 'e) pod_container \<Rightarrow> ('v, 'e) pod_container result" where
  "pod_set_exception current_exception c =
     (case pc_union c of
        M_exception_ptr _ \<Rightarrow> Inr (c\<lparr>pc_union := M_exception_ptr current_exception, pc_state := vs_exception\<rparr>)
      | _ \<Rightarrow> Inl Inactive_member)"

text \<open>\<^verbatim>\<open>result()\<close> is \<^verbatim>\<open>noexcept\<close>, so rethrowing ends in \<^verbatim>\<open>std::terminate\<close>; \<open>d\<close> is \<^verbatim>\<open>T{}\<close>.\<close>

definition pod_result :: "'v \<Rightarrow> ('v, 'e) pod_container \<Rightarrow> 'v result" where
  "pod_result d c =
     (case pc_state c of
        vs_value \<Rightarrow> (case pc_union c of M_value v \<Rightarrow> Inr v | _ \<Rightarrow> Inl Inactive_member)
      | vs_exception \<Rightarrow> (case pc_union c of M_exception_ptr e \<Rightarrow> Inl Std_terminate | _ \<Rightarrow> Inl Inactive_member)
      | vs_none \<Rightarrow> Inr d)"

definition pod_destructor :: "('v, 'e) pod_container \<Rightarrow> unit result" where
  "pod_destructor c =
     (if pc_state c = vs_exception
      then (case pc_union c of M_exception_ptr e \<Rightarrow> Inr () | _ \<Rightarrow> Inl Inactive_member)
      else Inr ())"

definition pod_value_ready :: "('v, 'e) pod_container \<Rightarrow> bool" where
  "pod_value_ready c \<longleftrightarrow> pc_state c = vs_value"

definition pod_value_exception :: "('v, 'e) pod_container \<Rightarrow> bool" where
  "pod_value_exception c \<longleftrightarrow> pc_state c = vs_exception"

definition pod_value_unset :: "('v, 'e) pod_container \<Rightarrow> bool" where
  "pod_value_unset c \<longleftrightarrow> pc_state c = vs_none"


section \<open>\<open>promise<void>\<close>\<close>

definition void_unhandled_exception :: "'e \<Rightarrow> 'e option \<Rightarrow> 'e option" where
  "void_unhandled_exception current_exception m_exception_ptr = Some current_exception"

definition void_result :: "'e option \<Rightarrow> 'e + unit" where
  "void_result m_exception_ptr = (case m_exception_ptr of Some e \<Rightarrow> Inl e | None \<Rightarrow> Inr ())"


section \<open>Properties\<close>

text \<open>The tag and the active union member agree.\<close>

definition pod_inv :: "('v, 'e) pod_container \<Rightarrow> bool" where
  "pod_inv c \<longleftrightarrow>
     (case pc_state c of
        vs_none \<Rightarrow> pc_union c = No_member
      | vs_value \<Rightarrow> (\<exists>v. pc_union c = M_value v)
      | vs_exception \<Rightarrow> (\<exists>e. pc_union c = M_exception_ptr e))"

text \<open>What the plain-old-data container stands for.\<close>

definition pod_abs :: "('v, 'e) pod_container \<Rightarrow> ('v, 'e) storage" where
  "pod_abs c =
     (case pc_union c of No_member \<Rightarrow> Unset | M_value v \<Rightarrow> Stored v | M_exception_ptr e \<Rightarrow> Exception_ptr e)"

datatype ('v, 'e) container_op = Return_value 'v | Set_exception 'e

definition storage_step :: "('v, 'e) container_op \<Rightarrow> ('v, 'e) storage \<Rightarrow> ('v, 'e) storage" where
  "storage_step a s = (case a of Return_value v \<Rightarrow> return_value v s | Set_exception e \<Rightarrow> set_exception e s)"

definition pod_step :: "('v, 'e) container_op \<Rightarrow> ('v, 'e) pod_container \<Rightarrow> ('v, 'e) pod_container result" where
  "pod_step a c = (case a of Return_value v \<Rightarrow> Inr (pod_return_value v c) | Set_exception e \<Rightarrow> pod_set_exception e c)"

lemma pod_step_abs:
  assumes "pod_inv c" and "pod_step a c = Inr c'"
  shows "pod_inv c' \<and> pod_abs c' = storage_step a (pod_abs c)"
  using assms
  by (cases a) (auto simp: pod_step_def storage_step_def pod_return_value_def pod_set_exception_def
      return_value_def set_exception_def pod_inv_def pod_abs_def split: pod_union.splits)

lemma pod_run_abs:
  assumes "forE ops pod_step c = Inr c'" and "pod_inv c"
  shows "pod_inv c' \<and> pod_abs c' = fold storage_step ops (pod_abs c)"
  using assms
proof (induction ops arbitrary: c)
  case Nil
  then show ?case by simp
next
  case (Cons a ops)
  then show ?case using pod_step_abs by fastforce
qed

text \<open>the plain-old-data container refines the variant container: after any run of
  \<^verbatim>\<open>return_value\<close> and \<^verbatim>\<open>set_exception\<close> calls that stays defined, it holds what the variant
  container holds after the same calls, \<^verbatim>\<open>result()\<close> returns the same value when one was set,
  and ends in \<^verbatim>\<open>std::terminate\<close> exactly where the variant container rethrows.\<close>

theorem pod_container_refines:
  assumes "forE ops pod_step pod_container = Inr c"
  shows "pod_abs c = fold storage_step ops Unset \<and>
    pod_result d c =
      (case container_result (fold storage_step ops Unset) of
         Inr v \<Rightarrow> Inr v | Inl (Rethrown e) \<Rightarrow> Inl Std_terminate | Inl Never_set \<Rightarrow> Inr d) \<and>
    pod_destructor c = Inr ()"
proof -
  have "pod_inv pod_container" and "pod_abs pod_container = (Unset :: ('a, 'b) storage)"
    by (simp_all add: pod_inv_def pod_abs_def pod_container_def)
  with pod_run_abs [OF assms] have "pod_inv c" and abs: "pod_abs c = fold storage_step ops Unset" by auto
  moreover have "pod_result d c =
      (case container_result (pod_abs c) of
         Inr v \<Rightarrow> Inr v | Inl (Rethrown e) \<Rightarrow> Inl Std_terminate | Inl Never_set \<Rightarrow> Inr d)
    \<and> pod_destructor c = Inr ()"
    using \<open>pod_inv c\<close>
    by (auto simp: pod_inv_def pod_abs_def pod_result_def pod_destructor_def container_result_def
        split: value_state.splits)
  ultimately show ?thesis by simp
qed

theorem pod_container_refines_witness:
  "forE [Return_value (1 :: nat), Return_value 5] pod_step (pod_container :: (nat, nat) pod_container)
     = Inr \<lparr>pc_union = M_value 5, pc_state = vs_value\<rparr> \<and>
   pod_result 0 (\<lparr>pc_union = M_value 5, pc_state = vs_value\<rparr> :: (nat, nat) pod_container) = Inr 5"
proof -
  have run: "forE [Return_value (1 :: nat), Return_value 5] pod_step (pod_container :: (nat, nat) pod_container)
     = Inr \<lparr>pc_union = M_value 5, pc_state = vs_value\<rparr>"
    by (simp add: pod_step_def pod_return_value_def pod_container_def)
  show ?thesis using run pod_container_refines [OF run, of 0]
    by (simp add: storage_step_def return_value_def container_result_def)
qed

text \<open>A coroutine returning a plain-old-data type that throws before returning a value makes
  \<^verbatim>\<open>unhandled_exception\<close> assign to a union member that is not active, which is undefined
  behaviour; the variant container keeps the exception and rethrows it.\<close>

theorem pod_exception_undefined:
  "pod_set_exception e (pod_container :: ('v, 'e) pod_container) = Inl Inactive_member \<and>
   pod_set_exception e (pod_return_value v (pod_container :: ('v, 'e) pod_container)) = Inl Inactive_member \<and>
   container_result (set_exception e (Unset :: ('v, 'e) storage)) = Inl (Rethrown e)"
  by (simp add: pod_set_exception_def pod_container_def pod_return_value_def container_result_def set_exception_def)

end
