(* ===== verification/Task.thy ===== *)
theory Task
  imports Container
begin

text \<open>
  Coroutine frames, promises and the owning handle \<^verbatim>\<open>task<T>\<close>:
  \<^verbatim>\<open>include/coro/task.hpp\<close>. A frame is found by its handle (an address, 0 is the null
  handle) and is \<open>None\<close> once it has been destroyed, so that touching a dead frame is
  \<open>Use_after_free\<close>. The promise's result is kept beside the frames (\<open>c_results\<close>).
  Task objects have addresses of their own, because move assignment compares them.

  The bodies of coroutines are user code: a parameter \<open>prog\<close> that says what the coroutine
  does next, from its frame and everything it can see. \<open>run_coro\<close> is the language's
  resumption of a coroutine with the awaiters of this file: a suspension either returns to
  the caller of \<^verbatim>\<open>resume()\<close> or transfers symmetrically to another coroutine.
\<close>

type_synonym handle = addr

datatype coro_state = cs_normal | cs_detach | cs_none

record frame =
  f_state :: coro_state
  f_continuation :: handle
  f_pc :: nat
  f_done :: bool

type_synonym frames = "handle \<Rightarrow> frame option"

record 'v coros =
  c_frames :: frames
  c_results :: "handle \<Rightarrow> ('v, string) storage"
  c_tasks :: "addr \<Rightarrow> handle"

text \<open>The promise a coroutine starts with, suspended at its initial suspend point.\<close>

definition new_frame :: frame where
  "new_frame = \<lparr>f_state = cs_normal, f_continuation = nullptr, f_pc = 0, f_done = False\<rparr>"

section \<open>The promise\<close>

definition set_state :: "coro_state \<Rightarrow> frame \<Rightarrow> frame" where
  "set_state state f = f\<lparr>f_state := state\<rparr>"

definition is_detach :: "frame \<Rightarrow> bool" where
  "is_detach f \<longleftrightarrow> f_state f = cs_detach"

definition set_continuation :: "handle \<Rightarrow> frame \<Rightarrow> frame" where
  "set_continuation c f = f\<lparr>f_continuation := c\<rparr>"

text \<open>\<^verbatim>\<open>final_awaitable::await_suspend\<close>: whom control is transferred to; the null handle
  stands for \<^verbatim>\<open>std::noop_coroutine()\<close>.\<close>

definition final_await_suspend :: "frame \<Rightarrow> handle" where
  "final_await_suspend f = (if f_continuation f \<noteq> nullptr then f_continuation f else nullptr)"

section \<open>Awaiting a task\<close>

definition is_done :: "handle \<Rightarrow> frames \<Rightarrow> bool result" where
  "is_done h fs =
     (if h = nullptr then Inl Null_deref
      else case fs h of None \<Rightarrow> Inl Use_after_free | Some f \<Rightarrow> Inr (f_done f))"

definition destroy_frame :: "handle \<Rightarrow> frames \<Rightarrow> frames result" where
  "destroy_frame h fs = (case fs h of None \<Rightarrow> Inl Use_after_free | Some f \<Rightarrow> Inr (fs(h := None)))"

definition await_ready :: "handle \<Rightarrow> frames \<Rightarrow> bool result" where
  "await_ready h fs = (if h = nullptr then Inr True else is_done h fs)"

text \<open>\<^verbatim>\<open>awaitable_base::await_suspend\<close> stores the continuation and transfers to the awaited coroutine.\<close>

definition await_suspend :: "handle \<Rightarrow> handle \<Rightarrow> frames \<Rightarrow> (handle \<times> frames) result" where
  "await_suspend awaiting h fs =
     (case fs h of None \<Rightarrow> Inl Use_after_free
      | Some f \<Rightarrow> Inr (h, fs(h \<mapsto> set_continuation awaiting f)))"

text \<open>\<^verbatim>\<open>await_resume\<close> of both \<^verbatim>\<open>operator co_await\<close> overloads: the result of the awaited promise.\<close>

definition await_resume :: "handle \<Rightarrow> 'v coros \<Rightarrow> (string thrown + 'v) result" where
  "await_resume h s =
     (if h = nullptr then Inl Null_deref
      else case c_frames s h of None \<Rightarrow> Inl Use_after_free | Some f \<Rightarrow> Inr (container_result (c_results s h)))"

section \<open>The task object\<close>

definition task_default :: "addr \<Rightarrow> 'v coros \<Rightarrow> 'v coros" where
  "task_default t s = s\<lparr>c_tasks := (c_tasks s)(t := nullptr)\<rparr>"

text \<open>Calling a coroutine function: a frame is allocated and \<^verbatim>\<open>get_return_object\<close> wraps its handle.\<close>

definition get_return_object :: "addr \<Rightarrow> handle \<Rightarrow> 'v coros \<Rightarrow> 'v coros" where
  "get_return_object t h s =
     s\<lparr>c_frames := (c_frames s)(h \<mapsto> new_frame), c_results := (c_results s)(h := Unset),
       c_tasks := (c_tasks s)(t := h)\<rparr>"

definition task_move_ctor :: "addr \<Rightarrow> addr \<Rightarrow> 'v coros \<Rightarrow> 'v coros" where
  "task_move_ctor t other s =
     s\<lparr>c_tasks := (c_tasks s)(t := c_tasks s other, other := nullptr)\<rparr>"

definition task_dtor :: "addr \<Rightarrow> 'v coros \<Rightarrow> 'v coros result" where
  "task_dtor t s =
     (if c_tasks s t \<noteq> nullptr
      then bindE (destroy_frame (c_tasks s t) (c_frames s)) (\<lambda>fs. Inr (s\<lparr>c_frames := fs\<rparr>))
      else Inr s)"

definition task_move_assign :: "addr \<Rightarrow> addr \<Rightarrow> 'v coros \<Rightarrow> 'v coros result" where
  "task_move_assign t other s =
     (if other \<noteq> t
      then bindE (if c_tasks s t \<noteq> nullptr then destroy_frame (c_tasks s t) (c_frames s) else Inr (c_frames s))
             (\<lambda>fs. Inr (s\<lparr>c_frames := fs, c_tasks := (c_tasks s)(t := c_tasks s other, other := nullptr)\<rparr>))
      else Inr s)"

definition is_ready :: "addr \<Rightarrow> 'v coros \<Rightarrow> bool result" where
  "is_ready t s = (if c_tasks s t = nullptr then Inr True else is_done (c_tasks s t) (c_frames s))"

definition task_destroy :: "addr \<Rightarrow> 'v coros \<Rightarrow> (bool \<times> 'v coros) result" where
  "task_destroy t s =
     (if c_tasks s t \<noteq> nullptr
      then bindE (destroy_frame (c_tasks s t) (c_frames s))
             (\<lambda>fs. Inr (True, s\<lparr>c_frames := fs, c_tasks := (c_tasks s)(t := nullptr)\<rparr>))
      else Inr (False, s))"

definition task_detach :: "addr \<Rightarrow> 'v coros \<Rightarrow> 'v coros result" where
  "task_detach t s =
     (if c_tasks s t = nullptr then Inl Assert_failed
      else case c_frames s (c_tasks s t) of
        None \<Rightarrow> Inl Use_after_free
      | Some f \<Rightarrow> Inr (s\<lparr>c_frames := (c_frames s)(c_tasks s t \<mapsto> set_state cs_detach f),
                        c_tasks := (c_tasks s)(t := nullptr)\<rparr>))"

definition task_handle :: "addr \<Rightarrow> 'v coros \<Rightarrow> handle" where
  "task_handle t s = c_tasks s t"

definition task_release_handle :: "addr \<Rightarrow> 'v coros \<Rightarrow> handle \<times> 'v coros" where
  "task_release_handle t s = (c_tasks s t, s\<lparr>c_tasks := (c_tasks s)(t := nullptr)\<rparr>)"

text \<open>\<^verbatim>\<open>clean\<close>: a detached coroutine is destroyed, any other is left to its owner.\<close>

definition clean :: "handle \<Rightarrow> frames \<Rightarrow> frames result" where
  "clean h fs =
     (case fs h of None \<Rightarrow> Inl Use_after_free
      | Some f \<Rightarrow> (case f_state f of cs_detach \<Rightarrow> destroy_frame h fs | _ \<Rightarrow> Inr fs))"


section \<open>Resuming a coroutine\<close>

text \<open>What a coroutine body does next: \<open>Await t\<close> is \<^verbatim>\<open>co_await\<close> on the task object \<open>t\<close>,
  \<open>Suspend\<close> awaits something outside this file, \<open>Call t h\<close> calls a coroutine function whose
  frame is \<open>h\<close> and keeps the result in \<open>t\<close>, \<open>End_task t\<close> ends the lifetime of \<open>t\<close>.\<close>

datatype 'v coro_action =
    Await addr
  | Suspend
  | Call addr handle
  | End_task addr
  | Co_return 'v
  | Co_throw string

definition advance :: "handle \<Rightarrow> 'v coros \<Rightarrow> 'v coros" where
  "advance h s = s\<lparr>c_frames := (c_frames s)(h := map_option (f_pc_update Suc) (c_frames s h))\<rparr>"

text \<open>The promise stores the outcome and the coroutine stops at its final suspend point.\<close>

definition finish :: "handle \<Rightarrow> ('v, string) storage \<Rightarrow> 'v coros \<Rightarrow> 'v coros" where
  "finish h r s =
     s\<lparr>c_results := (c_results s)(h := r),
       c_frames := (c_frames s)(h := map_option (f_done_update (\<lambda>_. True)) (c_frames s h))\<rparr>"

text \<open>One action of the running coroutine: it fails, control returns to whoever called
  \<^verbatim>\<open>resume()\<close>, or the thread goes on in a coroutine (the same, or another one by symmetric
  transfer).\<close>

datatype 'v coro_next = Fails error | Returns "'v coros" | Continues handle "'v coros"

definition await_next :: "addr \<Rightarrow> handle \<Rightarrow> 'v coros \<Rightarrow> 'v coro_next" where
  "await_next t h s =
     (case await_ready (c_tasks s t) (c_frames s) of
        Inl e \<Rightarrow> Fails e
      | Inr ready \<Rightarrow>
          if ready then
            (case await_resume (c_tasks s t) s of Inl e \<Rightarrow> Fails e | Inr _ \<Rightarrow> Continues h (advance h s))
          else
            (case await_suspend h (c_tasks s t) (c_frames s) of
               Inl e \<Rightarrow> Fails e
             | Inr (c, fs) \<Rightarrow> Continues c (advance h (s\<lparr>c_frames := fs\<rparr>))))"

definition final_next :: "frame \<Rightarrow> handle \<Rightarrow> ('v, string) storage \<Rightarrow> 'v coros \<Rightarrow> 'v coro_next" where
  "final_next f h r s =
     (let k = final_await_suspend f
      in if k = nullptr then Returns (finish h r s) else Continues k (finish h r s))"

definition coro_step :: "('v coros \<Rightarrow> handle \<Rightarrow> 'v coro_action) \<Rightarrow> handle \<Rightarrow> 'v coros \<Rightarrow> 'v coro_next" where
  "coro_step prog h s =
     (case c_frames s h of
        None \<Rightarrow> Fails Use_after_free
      | Some f \<Rightarrow>
          if f_done f then Fails Assert_failed
          else case prog s h of
            Suspend \<Rightarrow> Returns (advance h s)
          | Call t c \<Rightarrow> Continues h (advance h (get_return_object t c s))
          | End_task t \<Rightarrow>
              (case task_dtor t s of
                 Inl e \<Rightarrow> Fails e
               | Inr s' \<Rightarrow> Continues h (advance h (s'\<lparr>c_tasks := (c_tasks s')(t := nullptr)\<rparr>)))
          | Await t \<Rightarrow> await_next t h s
          | Co_return v \<Rightarrow> final_next f h (return_value v (c_results s h)) s
          | Co_throw e \<Rightarrow> final_next f h (set_exception e (c_results s h)) s)"

partial_function (option) run_coro ::
    "('v coros \<Rightarrow> handle \<Rightarrow> 'v coro_action) \<Rightarrow> handle \<Rightarrow> 'v coros \<Rightarrow> 'v coros result option" where
  "run_coro prog h s =
     (case coro_step prog h s of
        Fails e \<Rightarrow> Some (Inl e)
      | Returns s' \<Rightarrow> Some (Inr s')
      | Continues k s' \<Rightarrow> run_coro prog k s')"

text \<open>\<^verbatim>\<open>task::resume\<close>: resumes unless done, and tells whether there is more to do.\<close>

definition task_resume ::
    "('v coros \<Rightarrow> handle \<Rightarrow> 'v coro_action) \<Rightarrow> addr \<Rightarrow> 'v coros \<Rightarrow> (bool \<times> 'v coros) result option" where
  "task_resume prog t s =
     (case is_done (c_tasks s t) (c_frames s) of
        Inl e \<Rightarrow> Some (Inl e)
      | Inr d \<Rightarrow>
          Option.bind (if d then Some (Inr s) else run_coro prog (c_tasks s t) s) (\<lambda>r.
          Some (bindE r (\<lambda>s'. bindE (is_done (c_tasks s' t) (c_frames s')) (\<lambda>d'. Inr (\<not> d', s'))))))"


section \<open>Ownership\<close>

text \<open>Every live frame has exactly one owner: one task object, or, once it is detached, none
  (the engine destroys it).\<close>

definition owner_inv :: "'v coros \<Rightarrow> bool" where
  "owner_inv s \<longleftrightarrow>
     c_frames s nullptr = None \<and>
     (\<forall>t. c_tasks s t \<noteq> nullptr \<longrightarrow> (\<exists>f. c_frames s (c_tasks s t) = Some f \<and> \<not> is_detach f)) \<and>
     (\<forall>t u. c_tasks s t \<noteq> nullptr \<and> c_tasks s t = c_tasks s u \<longrightarrow> t = u) \<and>
     (\<forall>h f. c_frames s h = Some f \<longrightarrow> is_detach f \<or> (\<exists>t. c_tasks s t = h))"

datatype task_op =
    New_task addr handle
  | Move_ctor addr addr
  | Move_assign addr addr
  | Destroy addr
  | Detach addr
  | Dtor addr

text \<open>Storage is constructed into only while it holds no task, a new frame is at a fresh
  address, and only a task that holds a coroutine is detached (the code asserts it).\<close>

definition task_op_ok :: "task_op \<Rightarrow> 'v coros \<Rightarrow> bool" where
  "task_op_ok a s =
     (case a of
        New_task t h \<Rightarrow> c_tasks s t = nullptr \<and> h \<noteq> nullptr \<and> c_frames s h = None
      | Move_ctor t other \<Rightarrow> c_tasks s t = nullptr \<and> t \<noteq> other
      | Detach t \<Rightarrow> c_tasks s t \<noteq> nullptr
      | _ \<Rightarrow> True)"

definition task_step :: "task_op \<Rightarrow> 'v coros \<Rightarrow> 'v coros result" where
  "task_step a s =
     (case a of
        New_task t h \<Rightarrow> Inr (get_return_object t h s)
      | Move_ctor t other \<Rightarrow> Inr (task_move_ctor t other s)
      | Move_assign t other \<Rightarrow> task_move_assign t other s
      | Destroy t \<Rightarrow> bindE (task_destroy t s) (\<lambda>(_, s'). Inr s')
      | Detach t \<Rightarrow> task_detach t s
      | Dtor t \<Rightarrow> bindE (task_dtor t s) (\<lambda>s'. Inr (s'\<lparr>c_tasks := (c_tasks s')(t := nullptr)\<rparr>)))"

lemmas task_defs = get_return_object_def task_move_ctor_def task_move_assign_def task_destroy_def
  task_detach_def task_dtor_def destroy_frame_def set_state_def is_detach_def new_frame_def

lemma owner_inv_null: "owner_inv s \<Longrightarrow> c_frames s nullptr = None"
  by (simp add: owner_inv_def)

lemma owned_frame:
  assumes "owner_inv s" and "c_tasks s t \<noteq> nullptr"
  obtains f where "c_frames s (c_tasks s t) = Some f" and "\<not> is_detach f"
  using assms unfolding owner_inv_def by blast

lemma owned_frame_ex:
  "owner_inv s \<Longrightarrow> c_tasks s t \<noteq> nullptr \<Longrightarrow> \<exists>f. c_frames s (c_tasks s t) = Some f \<and> \<not> is_detach f"
  unfolding owner_inv_def by blast

lemma owner_unique: "owner_inv s \<Longrightarrow> c_tasks s t \<noteq> nullptr \<Longrightarrow> c_tasks s t = c_tasks s u \<Longrightarrow> t = u"
  unfolding owner_inv_def by blast

lemma frame_owned: "owner_inv s \<Longrightarrow> c_frames s h = Some f \<Longrightarrow> is_detach f \<or> (\<exists>t. c_tasks s t = h)"
  unfolding owner_inv_def by blast

lemma owner_invI:
  assumes "c_frames s nullptr = None"
    and "\<And>t. c_tasks s t \<noteq> nullptr \<Longrightarrow> \<exists>f. c_frames s (c_tasks s t) = Some f \<and> \<not> is_detach f"
    and "\<And>t u. c_tasks s t \<noteq> nullptr \<Longrightarrow> c_tasks s t = c_tasks s u \<Longrightarrow> t = u"
    and "\<And>h f. c_frames s h = Some f \<Longrightarrow> \<not> is_detach f \<Longrightarrow> \<exists>t. c_tasks s t = h"
  shows "owner_inv s"
  using assms unfolding owner_inv_def by blast

lemma owner_inv_new:
  assumes inv: "owner_inv s" and t: "c_tasks s t = nullptr" and h: "h \<noteq> nullptr" "c_frames s h = None"
  shows "owner_inv (get_return_object t h s)"
proof (rule owner_invI)
  have fresh: "c_tasks s u \<noteq> h" for u using owned_frame_ex [OF inv, of u] h by auto
  show "c_frames (get_return_object t h s) nullptr = None"
    using owner_inv_null [OF inv] h by (simp add: task_defs)
  show "\<exists>f. c_frames (get_return_object t h s) (c_tasks (get_return_object t h s) u) = Some f \<and> \<not> is_detach f"
    if "c_tasks (get_return_object t h s) u \<noteq> nullptr" for u
    using owned_frame_ex [OF inv, of u] that fresh by (auto simp: task_defs)
  show "u = v" if "c_tasks (get_return_object t h s) u \<noteq> nullptr"
    "c_tasks (get_return_object t h s) u = c_tasks (get_return_object t h s) v" for u v
    using owner_unique [OF inv, of u v] that fresh [of u] fresh [of v]
    by (cases "u = t"; cases "v = t") (simp_all add: get_return_object_def)
  show "\<exists>u. c_tasks (get_return_object t h s) u = g"
    if "c_frames (get_return_object t h s) g = Some f" "\<not> is_detach f" for g f
  proof (cases "g = h")
    case True
    then have "c_tasks (get_return_object t h s) t = g" by (simp add: get_return_object_def)
    then show ?thesis by blast
  next
    case False
    with that have g: "c_frames s g = Some f" by (simp add: get_return_object_def)
    with frame_owned [OF inv g] that(2) obtain u where u: "c_tasks s u = g" by blast
    from g owner_inv_null [OF inv] have "g \<noteq> nullptr" by (metis option.distinct(1))
    with u t have "c_tasks (get_return_object t h s) u = g" by (auto simp: get_return_object_def)
    then show ?thesis by blast
  qed
qed

lemma owner_inv_move:
  assumes inv: "owner_inv s" and t: "c_tasks s t = nullptr" "t \<noteq> other"
  shows "owner_inv (s\<lparr>c_tasks := (c_tasks s)(t := c_tasks s other, other := nullptr)\<rparr>)" (is "owner_inv ?s")
proof (rule owner_invI)
  show "c_frames ?s nullptr = None" using owner_inv_null [OF inv] by simp
  show "\<exists>f. c_frames ?s (c_tasks ?s u) = Some f \<and> \<not> is_detach f" if "c_tasks ?s u \<noteq> nullptr" for u
    using that owned_frame_ex [OF inv, of u] owned_frame_ex [OF inv, of other] by (auto split: if_splits)
  show "u = v" if "c_tasks ?s u \<noteq> nullptr" "c_tasks ?s u = c_tasks ?s v" for u v
  proof -
    let ?src = "\<lambda>w. if w = t then other else w"
    have src: "w \<noteq> other \<and> c_tasks ?s w = c_tasks s (?src w)" if "c_tasks ?s w \<noteq> nullptr" for w
      using that by (auto split: if_splits)
    have nv: "c_tasks ?s v \<noteq> nullptr" using that(1) unfolding that(2) .
    note u = src [OF that(1)] and v = src [OF nv]
    from u v that(2) have "c_tasks s (?src u) = c_tasks s (?src v)" by (metis (no_types))
    moreover from u that(1) have "c_tasks s (?src u) \<noteq> nullptr" by (metis (no_types))
    ultimately have "?src u = ?src v" using owner_unique [OF inv] by blast
    with u v show ?thesis by (metis (no_types))
  qed
  show "\<exists>u. c_tasks ?s u = h" if f: "c_frames ?s h = Some f" "\<not> is_detach f" for h f
  proof -
    from f frame_owned [OF inv, of h f] obtain u where u: "c_tasks s u = h" by auto
    from f(1) owner_inv_null [OF inv] have "h \<noteq> nullptr" by (metis (no_types, lifting) coros.select_convs(1) coros.surjective coros.update_convs(3) option.distinct(1))
    with u t(1) have "u \<noteq> t" by auto
    show ?thesis
    proof (cases "u = other")
      case True
      with u t(2) have "c_tasks ?s t = h" by simp
      then show ?thesis by blast
    next
      case False
      with u \<open>u \<noteq> t\<close> have "c_tasks ?s u = h" by simp
      then show ?thesis by blast
    qed
  qed
qed

lemma owner_inv_destroy:
  assumes inv: "owner_inv s" and t: "c_tasks s t \<noteq> nullptr"
  shows "owner_inv (s\<lparr>c_frames := (c_frames s)(c_tasks s t := None), c_tasks := (c_tasks s)(t := nullptr)\<rparr>)" (is "owner_inv ?s")
proof (rule owner_invI)
  have other: "c_tasks s u \<noteq> c_tasks s t" if "u \<noteq> t" for u
    using owner_unique [OF inv t] that by metis
  show "c_frames ?s nullptr = None" using owner_inv_null [OF inv] by simp
  show "\<exists>f. c_frames ?s (c_tasks ?s u) = Some f \<and> \<not> is_detach f" if "c_tasks ?s u \<noteq> nullptr" for u
    using that owned_frame_ex [OF inv, of u] other [of u] by (auto split: if_splits)
  show "u = v" if "c_tasks ?s u \<noteq> nullptr" "c_tasks ?s u = c_tasks ?s v" for u v
    using owner_unique [OF inv, of u v] that by (auto split: if_splits)
  show "\<exists>u. c_tasks ?s u = h" if f: "c_frames ?s h = Some f" "\<not> is_detach f" for h f
    using frame_owned [OF inv, of h f] f by (auto split: if_splits)
qed

lemma owner_inv_detach:
  assumes inv: "owner_inv s" and t: "c_tasks s t \<noteq> nullptr" and f: "c_frames s (c_tasks s t) = Some f"
  shows "owner_inv (s\<lparr>c_frames := (c_frames s)(c_tasks s t \<mapsto> set_state cs_detach f), c_tasks := (c_tasks s)(t := nullptr)\<rparr>)" (is "owner_inv ?s")
proof (rule owner_invI)
  have other: "c_tasks s u \<noteq> c_tasks s t" if "u \<noteq> t" for u
    using owner_unique [OF inv t] that by metis
  show "c_frames ?s nullptr = None" using owner_inv_null [OF inv] t by simp
  show "\<exists>f. c_frames ?s (c_tasks ?s u) = Some f \<and> \<not> is_detach f" if "c_tasks ?s u \<noteq> nullptr" for u
    using that owned_frame_ex [OF inv, of u] other [of u] by (auto split: if_splits)
  show "u = v" if "c_tasks ?s u \<noteq> nullptr" "c_tasks ?s u = c_tasks ?s v" for u v
    using owner_unique [OF inv, of u v] that by (auto split: if_splits)
  show "\<exists>u. c_tasks ?s u = h" if g: "c_frames ?s h = Some g" "\<not> is_detach g" for h g
    using frame_owned [OF inv, of h g] g by (auto simp: is_detach_def set_state_def split: if_splits)
qed

lemma task_step_owner_inv:
  assumes inv: "owner_inv s" and ok: "task_op_ok a s"
  shows "\<exists>s'. task_step a s = Inr s' \<and> owner_inv s'"
proof (cases a)
  case (New_task t h)
  with ok owner_inv_new [OF inv] show ?thesis by (simp add: task_step_def task_op_ok_def)
next
  case (Move_ctor t other)
  with ok owner_inv_move [OF inv] show ?thesis
    by (simp add: task_step_def task_op_ok_def task_move_ctor_def)
next
  case (Move_assign t other)
  show ?thesis
  proof (cases "other = t \<or> c_tasks s t = nullptr")
    case True
    with Move_assign inv owner_inv_move [OF inv, of t other] show ?thesis
      by (auto simp: task_step_def task_move_assign_def)
  next
    case False
    then obtain f where f: "c_frames s (c_tasks s t) = Some f" using owned_frame [OF inv] by blast
    let ?d = "s\<lparr>c_frames := (c_frames s)(c_tasks s t := None), c_tasks := (c_tasks s)(t := nullptr)\<rparr>"
    from False have "owner_inv ?d" by (intro owner_inv_destroy inv) simp
    from owner_inv_move [OF this, of t other] False f Move_assign show ?thesis
      by (simp add: task_step_def task_move_assign_def destroy_frame_def fun_upd_twist)
  qed
next
  case (Destroy t)
  show ?thesis
  proof (cases "c_tasks s t = nullptr")
    case False
    then obtain f where "c_frames s (c_tasks s t) = Some f" using owned_frame [OF inv] by blast
    with False Destroy owner_inv_destroy [OF inv False] show ?thesis
      by (simp add: task_step_def task_destroy_def destroy_frame_def)
  qed (use Destroy inv in \<open>simp add: task_step_def task_destroy_def\<close>)
next
  case (Detach t)
  with ok obtain f where "c_frames s (c_tasks s t) = Some f" using owned_frame [OF inv]
    by (auto simp: task_op_ok_def)
  with Detach ok owner_inv_detach [OF inv] show ?thesis
    by (simp add: task_step_def task_detach_def task_op_ok_def)
next
  case (Dtor t)
  show ?thesis
  proof (cases "c_tasks s t = nullptr")
    case True
    then have "(c_tasks s)(t := nullptr) = c_tasks s" by auto
    with True Dtor inv show ?thesis by (simp add: task_step_def task_dtor_def)
  next
    case False
    then obtain f where "c_frames s (c_tasks s t) = Some f" using owned_frame [OF inv] by blast
    with False Dtor owner_inv_destroy [OF inv False] show ?thesis
      by (simp add: task_step_def task_dtor_def destroy_frame_def)
  qed
qed



section \<open>Properties\<close>

fun task_ops_ok :: "task_op list \<Rightarrow> 'v coros \<Rightarrow> bool" where
  "task_ops_ok [] s \<longleftrightarrow> True"
| "task_ops_ok (a # as) s \<longleftrightarrow>
     task_op_ok a s \<and> (case task_step a s of Inl e \<Rightarrow> True | Inr s' \<Rightarrow> task_ops_ok as s')"

text \<open>C20: from any state in which each live coroutine frame has exactly one owner, every sequence of
  constructions, moves, destructions and detachments of task objects runs without touching a
  destroyed frame and ends in such a state: no double destruction, no frame lost.\<close>

theorem task_ownership:
  assumes "owner_inv s" and "task_ops_ok ops s"
  shows "\<exists>s'. forE ops task_step s = Inr s' \<and> owner_inv s'"
  using assms
proof (induction ops arbitrary: s)
  case Nil
  then show ?case by simp
next
  case (Cons a ops)
  then obtain s1 where "task_step a s = Inr s1" and "owner_inv s1"
    using task_step_owner_inv by fastforce
  with Cons show ?case by simp
qed

definition no_coros :: "nat coros" where
  "no_coros = \<lparr>c_frames = (\<lambda>_. None), c_results = (\<lambda>_. Unset), c_tasks = (\<lambda>_. nullptr)\<rparr>"

lemma owner_inv_no_coros: "owner_inv no_coros"
  by (simp add: owner_inv_def no_coros_def)

theorem task_ownership_witness:
  "\<exists>s'. forE [New_task 1 10, New_task 2 20, Move_assign 1 2, Detach 1, Dtor 2] task_step no_coros = Inr s' \<and> owner_inv s'"
  by (rule task_ownership [OF owner_inv_no_coros])
    (simp add: no_coros_def task_op_ok_def task_step_def task_defs)

text \<open>
  What happens between a coroutine \<open>h\<close>'s \<^verbatim>\<open>co_await\<close> on the coroutine \<open>c\<close> and the end of \<open>c\<close>: any number of
  actions by \<open>c\<close> itself, by coroutines it awaits, and by others that somebody resumes once control has
  been given back. A configuration is the running coroutine, if any, and the state. The code in
  between leaves the await alone: nobody resumes \<open>h\<close>, awaits or destroys \<open>h\<close> or \<open>c\<close>, task objects are
  constructed into empty storage and new frames at fresh addresses; \<open>c\<close> has not finished yet.
\<close>

definition leaves_alone :: "handle \<Rightarrow> handle \<Rightarrow> 'v coros \<Rightarrow> 'v coro_action \<Rightarrow> bool" where
  "leaves_alone h c s a =
     (case a of
        Await t \<Rightarrow> c_tasks s t \<noteq> h \<and> c_tasks s t \<noteq> c
      | Call t x \<Rightarrow> c_tasks s t = nullptr \<and> c_frames s x = None
      | End_task t \<Rightarrow> c_tasks s t \<noteq> h \<and> c_tasks s t \<noteq> c
      | _ \<Rightarrow> True)"

definition is_final :: "'v coro_action \<Rightarrow> bool" where
  "is_final a = (case a of Co_return _ \<Rightarrow> True | Co_throw _ \<Rightarrow> True | _ \<Rightarrow> False)"

inductive away :: "('v coros \<Rightarrow> handle \<Rightarrow> 'v coro_action) \<Rightarrow> handle \<Rightarrow> handle
    \<Rightarrow> handle option \<times> 'v coros \<Rightarrow> handle option \<times> 'v coros \<Rightarrow> bool"
  for prog :: "'v coros \<Rightarrow> handle \<Rightarrow> 'v coro_action" and h :: handle and c :: handle where
  goes_on: "leaves_alone h c s (prog s k) \<Longrightarrow> \<not> (k = c \<and> is_final (prog s k)) \<Longrightarrow> coro_step prog k s = Continues k' s' \<Longrightarrow>
    away prog h c (Some k, s) (Some k', s')"
| gives_back: "leaves_alone h c s (prog s k) \<Longrightarrow> \<not> (k = c \<and> is_final (prog s k)) \<Longrightarrow> coro_step prog k s = Returns s' \<Longrightarrow>
    away prog h c (Some k, s) (None, s')"
| resumed: "k \<noteq> h \<Longrightarrow> away prog h c (None, s) (Some k, s)"

text \<open>The await is pending: \<open>h\<close>'s frame is as it suspended, the task object \<open>t\<close> still owns \<open>c\<close>, and \<open>c\<close>, unfinished,
  is the only coroutine that will transfer control to \<open>h\<close>.\<close>

definition pending_await :: "handle \<Rightarrow> frame \<Rightarrow> addr \<Rightarrow> handle \<Rightarrow> handle option \<times> 'v coros \<Rightarrow> bool" where
  "pending_await h f t c = (\<lambda>(r, s). r \<noteq> Some h \<and> c_frames s h = Some f \<and> c_tasks s t = c \<and>
     (\<exists>g. c_frames s c = Some g \<and> \<not> f_done g \<and> f_continuation g = h) \<and>
     (\<forall>k g. k \<noteq> c \<longrightarrow> c_frames s k = Some g \<longrightarrow> \<not> f_done g \<longrightarrow> f_continuation g \<noteq> h))"

lemma coro_step_cases:
  assumes "coro_step prog k s = r" and "r = Continues k' s' \<or> r = Returns s'"
  obtains (suspend) f where "prog s k = Suspend" "c_frames s k = Some f" "r = Returns (advance k s)"
  | (call) f t x where "prog s k = Call t x" "c_frames s k = Some f" "r = Continues k (advance k (get_return_object t x s))"
  | (ends) f t s1 where "prog s k = End_task t" "c_frames s k = Some f" "task_dtor t s = Inr s1"
      "r = Continues k (advance k (s1\<lparr>c_tasks := (c_tasks s1)(t := nullptr)\<rparr>))"
  | (await_done) f t where "prog s k = Await t" "c_frames s k = Some f" "r = Continues k (advance k s)"
  | (await_child) f t g where "prog s k = Await t" "c_frames s k = Some f" "c_frames s (c_tasks s t) = Some g"
      "r = Continues (c_tasks s t) (advance k (s\<lparr>c_frames := (c_frames s)(c_tasks s t \<mapsto> set_continuation k g)\<rparr>))"
  | (final) f st where "is_final (prog s k)" "c_frames s k = Some f" "\<not> f_done f"
      "r = (if f_continuation f = nullptr then Returns (finish k st s) else Continues (f_continuation f) (finish k st s))"
  using assms
  by (auto simp: coro_step_def await_next_def await_suspend_def final_next_def final_await_suspend_def Let_def is_final_def
      split: option.splits if_splits coro_action.splits sum.splits)

lemma pending_away:
  assumes step: "away prog h c x y" and pend: "pending_await h f t c x" and hn: "h \<noteq> nullptr" "c \<noteq> nullptr" "c \<noteq> h"
  shows "pending_await h f t c y"
proof -
  obtain r s r' s' where xy: "x = (r, s)" "y = (r', s')" by (metis prod.exhaust)
  have p: "r \<noteq> Some h" "c_frames s h = Some f" "c_tasks s t = c" "\<exists>g. c_frames s c = Some g \<and> \<not> f_done g \<and> f_continuation g = h"
    "\<forall>k g. k \<noteq> c \<longrightarrow> c_frames s k = Some g \<longrightarrow> \<not> f_done g \<longrightarrow> f_continuation g \<noteq> h"
    using pend by (simp_all add: pending_await_def xy)
  have step_ok: "pending_await h f t c (r', s')"
    if "r = Some k" "leaves_alone h c s (prog s k) \<and> \<not> (k = c \<and> is_final (prog s k))" "coro_step prog k s = nxt"
      "nxt = Continues k' s' \<and> r' = Some k' \<or> nxt = Returns s' \<and> r' = None" for k k' nxt
  proof -
    have k: "k \<noteq> h" using p(1) that(1) by simp
    from that(4) have "nxt = Continues k' s' \<or> nxt = Returns s'" by blast
    from that(3) this show ?thesis
    proof (cases rule: coro_step_cases)
      case suspend
      then show ?thesis using that p k by (auto simp: pending_await_def advance_def split: if_splits)
    next
      case (call g u x)
      then have "u \<noteq> t" "x \<noteq> h" "x \<noteq> c" using that(2) p hn by (auto simp: leaves_alone_def)
      then show ?thesis using call that(4) p k hn
        by (auto simp: pending_await_def advance_def get_return_object_def new_frame_def split: if_splits)
    next
      case (ends g u s1)
      then have "u \<noteq> t" "c_tasks s u \<noteq> h" "c_tasks s u \<noteq> c" using that(2) p by (auto simp: leaves_alone_def)
      then show ?thesis using ends that(4) p k
        by (auto simp: pending_await_def advance_def task_dtor_def destroy_frame_def split: if_splits option.splits)
    next
      case (await_done g u)
      then show ?thesis using that p k by (auto simp: pending_await_def advance_def split: if_splits)
    next
      case (await_child g u g')
      then have "c_tasks s u \<noteq> h" "c_tasks s u \<noteq> c" using that(2) by (auto simp: leaves_alone_def)
      then show ?thesis using await_child that(4) p k by (auto simp: pending_await_def advance_def set_continuation_def split: if_splits)
    next
      case (final g st)
      then have "k \<noteq> c" using that(2) by blast
      then show ?thesis using final that(4) p k by (auto simp: pending_await_def finish_def split: if_splits)
    qed
  qed
  from step [unfolded xy] show ?thesis
  proof cases
    case (goes_on k k')
    then show ?thesis using step_ok [of k _ k'] xy by simp
  next
    case (gives_back k)
    then show ?thesis using step_ok [of k] xy by simp
  next
    case (resumed k)
    then show ?thesis using p xy by (simp add: pending_await_def)
  qed
qed

lemma pending_aways:
  assumes "(away prog h c)\<^sup>*\<^sup>* x y" and "pending_await h f t c x" and "h \<noteq> nullptr" "c \<noteq> nullptr" "c \<noteq> h"
  shows "pending_await h f t c y"
  using assms by (induction rule: rtranclp_induct) (auto intro: pending_away)

text \<open>The end of \<open>c\<close> takes control back to \<open>h\<close> with the outcome.\<close>

lemma pending_finishes:
  assumes pend: "pending_await h f t c (Some c, s)" and hn: "h \<noteq> nullptr" "c \<noteq> nullptr" "c \<noteq> h"
    and act: "prog s c = (case r of Inr v \<Rightarrow> Co_return v | Inl e \<Rightarrow> Co_throw e)"
  shows "\<exists>s2. coro_step prog c s = Continues h s2 \<and> run_coro prog c s = run_coro prog h s2 \<and>
    c_frames s2 h = Some f \<and> is_ready t s2 = Inr True \<and>
    await_resume c s2 = Inr (case r of Inr v \<Rightarrow> Inr v | Inl e \<Rightarrow> Inl (Rethrown e))"
proof -
  let ?st = "case r of Inr v \<Rightarrow> Stored v | Inl e \<Rightarrow> Exception_ptr e"
  from pend obtain g where g: "c_frames s h = Some f" "c_tasks s t = c" "c_frames s c = Some g" "\<not> f_done g" "f_continuation g = h"
    by (auto simp: pending_await_def)
  then have 1: "coro_step prog c s = Continues h (finish c ?st s)"
    using hn act by (cases r) (simp_all add: coro_step_def final_next_def final_await_suspend_def return_value_def set_exception_def)
  then have "run_coro prog c s = run_coro prog h (finish c ?st s)" by (subst run_coro.simps) simp
  with 1 show ?thesis using g hn
    by (intro exI [of _ "finish c ?st s"]) (cases r; simp add: finish_def is_ready_def is_done_def await_resume_def container_result_def)
qed

lemma pending_only_child:
  assumes pend: "pending_await h f t c (Some k, s)" and hn: "h \<noteq> nullptr" "c \<noteq> nullptr" "c \<noteq> h"
    and act: "leaves_alone h c s (prog s k)" and step: "coro_step prog k s = Continues h s2"
  shows "k = c \<and> is_final (prog s k)"
proof (rule ccontr)
  assume "\<not> ?thesis"
  with act step have "away prog h c (Some k, s) (Some h, s2)" by (intro goes_on)
  from pending_away [OF this pend hn] show False by (simp add: pending_await_def)
qed

text \<open>C21: \<^verbatim>\<open>co_await\<close> on an unfinished coroutine \<open>c\<close>: control goes to it. Whatever \<open>c\<close> does then, awaiting
  other coroutines, suspending and being resumed, and whatever other coroutines do meanwhile, as long as
  they leave this await alone, the awaiting coroutine stays suspended where it is and its task is not
  ready; and when \<open>c\<close> returns (or throws), and only then, control comes back to the awaiting coroutine, one
  step further, with the returned value (or the exception) as what \<^verbatim>\<open>await_resume\<close> delivers.\<close>

theorem await_child_result:
  assumes h: "c_frames s h = Some f" "\<not> f_done f" "h \<noteq> nullptr" "prog s h = Await t"
    and c: "c_tasks s t = c" "c \<noteq> nullptr" "c \<noteq> h" "c_frames s c = Some g" "\<not> f_done g"
    and sole: "\<And>k g'. k \<noteq> c \<Longrightarrow> c_frames s k = Some g' \<Longrightarrow> \<not> f_done g' \<Longrightarrow> f_continuation g' \<noteq> h"
  shows "\<exists>s1. coro_step prog h s = Continues c s1 \<and>
    (\<forall>r s'. (away prog h c)\<^sup>*\<^sup>* (Some c, s1) (r, s') \<longrightarrow>
       r \<noteq> Some h \<and> c_frames s' h = Some (f\<lparr>f_pc := Suc (f_pc f)\<rparr>) \<and> is_ready t s' = Inr False \<and>
       (\<forall>out. r = Some c \<and> prog s' c = (case out of Inr v \<Rightarrow> Co_return v | Inl e \<Rightarrow> Co_throw e) \<longrightarrow>
          (\<exists>s2. coro_step prog c s' = Continues h s2 \<and> run_coro prog c s' = run_coro prog h s2 \<and>
             c_frames s2 h = Some (f\<lparr>f_pc := Suc (f_pc f)\<rparr>) \<and> is_ready t s2 = Inr True \<and>
             await_resume c s2 = Inr (case out of Inr v \<Rightarrow> Inr v | Inl e \<Rightarrow> Inl (Rethrown e)))) \<and>
       (\<forall>k s2. r = Some k \<and> leaves_alone h c s' (prog s' k) \<and> coro_step prog k s' = Continues h s2 \<longrightarrow>
          k = c \<and> is_final (prog s' k)))"
proof -
  let ?s1 = "advance h (s\<lparr>c_frames := (c_frames s)(c \<mapsto> set_continuation h g)\<rparr>)"
  let ?f = "f\<lparr>f_pc := Suc (f_pc f)\<rparr>"
  have 1: "coro_step prog h s = Continues c ?s1"
    using h c by (simp add: coro_step_def await_next_def await_ready_def is_done_def await_suspend_def)
  have "\<forall>k g'. k \<noteq> c \<longrightarrow> c_frames s k = Some g' \<longrightarrow> \<not> f_done g' \<longrightarrow> f_continuation g' \<noteq> h" using sole by blast
  moreover have "f_continuation f \<noteq> h" using sole [of h f] h c by blast
  ultimately have start: "pending_await h ?f t c (Some c, ?s1)"
    using h c by (auto simp: pending_await_def advance_def set_continuation_def split: if_splits)
  note hn = h(3) c(2,3)
  show ?thesis
  proof (rule exI [of _ ?s1], rule conjI [OF 1], intro conjI allI impI)
    fix r s' assume run: "(away prog h c)\<^sup>*\<^sup>* (Some c, ?s1) (r, s')"
    note pend = pending_aways [OF run start hn]
    then show "r \<noteq> Some h" "c_frames s' h = Some ?f" "is_ready t s' = Inr False"
      using hn by (auto simp: pending_await_def is_ready_def is_done_def)
    {
      fix out assume "r = Some c \<and> prog s' c = (case out of Inr v \<Rightarrow> Co_return v | Inl e \<Rightarrow> Co_throw e)"
      then show "\<exists>s2. coro_step prog c s' = Continues h s2 \<and> run_coro prog c s' = run_coro prog h s2 \<and>
          c_frames s2 h = Some ?f \<and> is_ready t s2 = Inr True \<and>
          await_resume c s2 = Inr (case out of Inr v \<Rightarrow> Inr v | Inl e \<Rightarrow> Inl (Rethrown e))"
        using pending_finishes [OF _ hn] pend by blast
    }
    {
      fix k s2 assume "r = Some k \<and> leaves_alone h c s' (prog s' k) \<and> coro_step prog k s' = Continues h s2"
      then show "k = c" "is_final (prog s' k)"
        using pending_only_child [OF _ hn] pend by blast+
    }
  qed
qed

text \<open>Coroutine 1 awaits 2; 2 suspends, is resumed by somebody and returns.\<close>

definition sample_parent_child :: "nat coros" where
  "sample_parent_child =
     \<lparr>c_frames = [1 \<mapsto> new_frame, 2 \<mapsto> new_frame], c_results = (\<lambda>_. Unset), c_tasks = (\<lambda>_. nullptr)(5 := 2)\<rparr>"

definition sample_prog :: "nat coros \<Rightarrow> handle \<Rightarrow> nat coro_action" where
  "sample_prog s h =
     (if h = 2 then (if map_option f_pc (c_frames s h) = Some 0 then Suspend else Co_return 7)
      else if map_option f_pc (c_frames s h) = Some 0 then Await 5 else Suspend)"

theorem await_child_result_witness:
  "\<exists>s1 s' s2. coro_step sample_prog 1 sample_parent_child = Continues 2 s1 \<and>
     (away sample_prog 1 2)\<^sup>*\<^sup>* (Some 2, s1) (Some 2, s') \<and> coro_step sample_prog 2 s' = Continues 1 s2 \<and>
     is_ready 5 s2 = Inr True \<and> await_resume 2 s2 = Inr (Inr 7)"
proof -
  let ?s = sample_parent_child
  have sole: "k \<noteq> 2 \<Longrightarrow> c_frames ?s k = Some g' \<Longrightarrow> \<not> f_done g' \<Longrightarrow> f_continuation g' \<noteq> 1" for k g'
    by (auto simp: sample_parent_child_def new_frame_def split: if_splits)
  have pre: "c_frames ?s 1 = Some new_frame" "\<not> f_done new_frame" "(1 :: nat) \<noteq> 0" "sample_prog ?s 1 = Await 5" "c_tasks ?s 5 = 2"
    "(2 :: nat) \<noteq> 0" "(2 :: nat) \<noteq> 1" "c_frames ?s 2 = Some new_frame" "\<not> f_done new_frame"
    by (simp_all add: sample_parent_child_def sample_prog_def new_frame_def)
  show ?thesis
  proof (rule exE [OF await_child_result [of ?s 1 new_frame sample_prog 5 2 new_frame, OF pre]], goal_cases)
    case (1 k g')
    then show ?case by (rule sole)
  next
    case (2 s1)
    note s1 = conjunct1 [OF 2] and all = conjunct2 [OF 2, THEN spec, THEN spec, THEN mp, THEN conjunct2, THEN conjunct2, THEN conjunct2, THEN conjunct1, THEN spec [of _ "Inr 7"]]
    have f: "c_frames s1 2 = Some (new_frame\<lparr>f_continuation := 1\<rparr>)"
      using s1 by (auto simp: coro_step_def sample_parent_child_def sample_prog_def new_frame_def await_next_def await_ready_def
          is_done_def await_suspend_def set_continuation_def advance_def)
    have "away sample_prog 1 2 (Some 2, s1) (None, advance 2 s1)"
      by (rule gives_back) (simp_all add: f sample_prog_def new_frame_def leaves_alone_def is_final_def coro_step_def)
    moreover have "away sample_prog 1 2 (None, advance 2 s1) (Some 2, advance 2 s1)" by (rule resumed) simp
    ultimately have run: "(away sample_prog 1 2)\<^sup>*\<^sup>* (Some 2, s1) (Some 2, advance 2 s1)" 
      by (rule rtranclp.rtrancl_into_rtrancl [OF r_into_rtranclp])
    have "sample_prog (advance 2 s1) 2 = Co_return 7" by (simp add: f advance_def sample_prog_def new_frame_def)
    with all [OF run] obtain s2 where "coro_step sample_prog 2 (advance 2 s1) = Continues 1 s2" "is_ready 5 s2 = Inr True"
      "await_resume 2 s2 = Inr (Inr 7)" by auto
    with s1 run show ?case by blast
  qed
qed

lemma clean_eq:
  "clean h fs =
     (case fs h of
        None \<Rightarrow> Inl Use_after_free
      | Some f \<Rightarrow> Inr (if is_detach f then fs(h := None) else fs))"
  by (auto simp: clean_def is_detach_def destroy_frame_def split: option.split coro_state.split)

end
