(* ===== verification/Engine.thy ===== *)
theory Engine
  imports Atomic_Queue Uring_Proxy Task
begin

text \<open>
  The execution engine: \<^verbatim>\<open>include/coro/engine.hpp\<close>, \<^verbatim>\<open>src/engine.cpp\<close>, and the
  thread-local and global records of \<^verbatim>\<open>include/coro/meta_info.hpp\<close>.

  The state all engines share is a record that later theories extend, so that an operation
  here also works on their larger states. Three things are arguments: the kernel
  operations \<open>K\<close>; \<open>resume\<close>, what running a coroutine until it gives control back does
  (user code); and \<open>cb\<close>, the call of a completion callback \<^verbatim>\<open>data->cb(data, res)\<close>.
  Log messages are not modelled: a branch that only logs returns the state it was given.
\<close>

section \<open>State\<close>

record 'k engine =
  e_id :: "32 word"
  m_upxy :: "'k uring_proxy"
  m_task_queue :: "handle atomic_queue"
  m_urc :: "cqe list"
  m_num_io_wait_submit :: "64 word"
  m_num_io_running :: "64 word"
  m_max_recursive_depth :: "64 word"

text \<open>\<open>linfo_ctx\<close> and \<open>linfo_egn\<close> are the running thread's \<^verbatim>\<open>linfo\<close>, \<open>context_id\<close> and
  \<open>engine_id\<close> the global counters \<^verbatim>\<open>ginfo\<close>; engines and contexts are found by number.\<close>

record 'k eworld =
  engines :: "nat \<Rightarrow> 'k engine"
  w_frames :: frames
  w_tasks :: "addr \<Rightarrow> handle"
  linfo_ctx :: "nat option"
  linfo_egn :: "nat option"
  context_id :: "32 word"
  engine_id :: "32 word"

definition init_meta_info :: "('k, 'z) eworld_scheme \<Rightarrow> ('k, 'z) eworld_scheme" where
  "init_meta_info w = w\<lparr>context_id := 0, engine_id := 0\<rparr>"

definition is_in_working_state :: "('k, 'z) eworld_scheme \<Rightarrow> bool" where
  "is_in_working_state w \<longleftrightarrow> linfo_ctx w \<noteq> None"

definition local_engine :: "('k, 'z) eworld_scheme \<Rightarrow> nat result" where
  "local_engine w = (case linfo_egn w of None \<Rightarrow> Inl Null_deref | Some i \<Rightarrow> Inr i)"

text \<open>Replacing engine \<open>i\<close>.\<close>

definition put_engine :: "nat \<Rightarrow> 'k engine \<Rightarrow> ('k, 'z) eworld_scheme \<Rightarrow> ('k, 'z) eworld_scheme" where
  "put_engine i e w = w\<lparr>engines := (engines w)(i := e)\<rparr>"

section \<open>Wake-up values\<close>

unbundle bit_operations_syntax

definition task_mask :: "64 word" where "task_mask = 0xFFFFF00000000000"
definition io_mask :: "64 word" where "io_mask = 0x00000FFFFF000000"
definition cqe_mask :: "64 word" where "cqe_mask = 0x0000000000FFFFFF"
definition task_flag :: "64 word" where "task_flag = push_bit 44 1"
definition io_flag :: "64 word" where "io_flag = push_bit 24 1"

definition wake_by_task :: "64 word \<Rightarrow> bool" where "wake_by_task val \<longleftrightarrow> val AND task_mask > 0"
definition wake_by_io :: "64 word \<Rightarrow> bool" where "wake_by_io val \<longleftrightarrow> val AND io_mask > 0"
definition wake_by_cqe :: "64 word \<Rightarrow> bool" where "wake_by_cqe val \<longleftrightarrow> val AND cqe_mask > 0"


section \<open>Operations\<close>

text \<open>The constructor: a fresh id from the global counter, an empty queue.\<close>

definition new_engine :: "'k uring_proxy \<Rightarrow> ('k, 'z) eworld_scheme \<Rightarrow> 'k engine \<times> ('k, 'z) eworld_scheme" where
  "new_engine p w =
     (\<lparr>e_id = engine_id w, m_upxy = p, m_task_queue = AtomicQueue nullptr, m_urc = [],
       m_num_io_wait_submit = 0, m_num_io_running = 0, m_max_recursive_depth = 0\<rparr>,
      w\<lparr>engine_id := engine_id w + 1\<rparr>)"

definition engine_init :: "'k kernel_ops \<Rightarrow> nat \<Rightarrow> ('k, 'z) eworld_scheme \<Rightarrow> ('k, 'z) eworld_scheme result" where
  "engine_init K i w =
     bindE (uring_init K kEntryLength (m_upxy (engines w i))) (\<lambda>p.
     Inr (put_engine i
            ((engines w i)\<lparr>m_num_io_wait_submit := 0, m_num_io_running := 0, m_max_recursive_depth := 0, m_upxy := p\<rparr>)
            (w\<lparr>linfo_egn := Some i\<rparr>)))"

definition engine_deinit :: "'k kernel_ops \<Rightarrow> nat \<Rightarrow> ('k, 'z) eworld_scheme \<Rightarrow> ('k, 'z) eworld_scheme" where
  "engine_deinit K i w =
     (let e = engines w i in
      put_engine i
        (e\<lparr>m_upxy := uring_deinit K (m_upxy e), m_num_io_wait_submit := 0, m_num_io_running := 0,
           m_max_recursive_depth := 0, m_task_queue := fst (swap (m_task_queue e) (AtomicQueue nullptr))\<rparr>) w)"

definition ready :: "nat \<Rightarrow> ('k, 'z) eworld_scheme \<Rightarrow> bool" where
  "ready i w \<longleftrightarrow> \<not> was_empty (m_task_queue (engines w i))"

definition num_task_schedule :: "nat \<Rightarrow> ('k, 'z) eworld_scheme \<Rightarrow> nat" where
  "num_task_schedule i w = unat (was_size (m_task_queue (engines w i)))"

definition get_free_urs :: "'k kernel_ops \<Rightarrow> nat \<Rightarrow> ('k, 'z) eworld_scheme \<Rightarrow> addr \<times> ('k, 'z) eworld_scheme" where
  "get_free_urs K i w =
     (case get_free_sqe K (m_upxy (engines w i)) of
        (s, p) \<Rightarrow> (s, put_engine i ((engines w i)\<lparr>m_upxy := p\<rparr>) w))"

definition add_io_submit :: "nat \<Rightarrow> ('k, 'z) eworld_scheme \<Rightarrow> ('k, 'z) eworld_scheme" where
  "add_io_submit i w =
     put_engine i ((engines w i)\<lparr>m_num_io_wait_submit := m_num_io_wait_submit (engines w i) + 1\<rparr>) w"

definition empty_io :: "nat \<Rightarrow> ('k, 'z) eworld_scheme \<Rightarrow> bool" where
  "empty_io i w \<longleftrightarrow> m_num_io_wait_submit (engines w i) = 0 \<and> m_num_io_running (engines w i) = 0"

definition is_local_engine :: "nat \<Rightarrow> ('k, 'z) eworld_scheme \<Rightarrow> bool result" where
  "is_local_engine i w = bindE (local_engine w) (\<lambda>l. Inr (e_id (engines w i) = e_id (engines w l)))"

definition wake_up :: "'k kernel_ops \<Rightarrow> nat \<Rightarrow> 64 word \<Rightarrow> ('k, 'z) eworld_scheme \<Rightarrow> ('k, 'z) eworld_scheme result" where
  "wake_up K i val w =
     bindE (write_eventfd K val (m_upxy (engines w i))) (\<lambda>p.
     Inr (put_engine i ((engines w i)\<lparr>m_upxy := p\<rparr>) w))"

definition schedule :: "nat \<Rightarrow> ('k, 'z) eworld_scheme \<Rightarrow> (handle \<times> ('k, 'z) eworld_scheme) result" where
  "schedule i w =
     bindE (pop (m_task_queue (engines w i))) (\<lambda>(coro, q).
     if coro = nullptr then Inl Assert_failed
     else Inr (coro, put_engine i ((engines w i)\<lparr>m_task_queue := q\<rparr>) w))"

definition exec_task :: "(handle \<Rightarrow> ('k, 'z) eworld_scheme \<Rightarrow> ('k, 'z) eworld_scheme result) \<Rightarrow> handle
    \<Rightarrow> ('k, 'z) eworld_scheme \<Rightarrow> ('k, 'z) eworld_scheme result" where
  "exec_task resume h w =
     bindE (resume h w) (\<lambda>w1.
     bindE (is_done h (w_frames w1)) (\<lambda>d.
     if d then bindE (clean h (w_frames w1)) (\<lambda>fs. Inr (w1\<lparr>w_frames := fs\<rparr>)) else Inr w1))"

definition add_depth :: "nat \<Rightarrow> 64 word \<Rightarrow> ('k, 'z) eworld_scheme \<Rightarrow> ('k, 'z) eworld_scheme" where
  "add_depth i d w =
     put_engine i ((engines w i)\<lparr>m_max_recursive_depth := m_max_recursive_depth (engines w i) + d\<rparr>) w"

definition submit_task :: "'k kernel_ops \<Rightarrow> (handle \<Rightarrow> ('k, 'z) eworld_scheme \<Rightarrow> ('k, 'z) eworld_scheme result) \<Rightarrow> nat
    \<Rightarrow> handle \<Rightarrow> ('k, 'z) eworld_scheme \<Rightarrow> ('k, 'z) eworld_scheme result" where
  "submit_task K resume i h w =
     (if h = nullptr then Inl Assert_failed
      else bindE (try_push h (m_task_queue (engines w i))) (\<lambda>(pushed, q).
      if pushed then wake_up K i task_flag (put_engine i ((engines w i)\<lparr>m_task_queue := q\<rparr>) w)
      else if is_in_working_state w then
        (if m_max_recursive_depth (engines w i) \<ge> kMaxRecursiveDepth then Inr w
         else bindE (exec_task resume h (add_depth i 1 w)) (\<lambda>w'. Inr (add_depth i (-1) w')))
      else Inr w))"

definition exec_one_task :: "(handle \<Rightarrow> ('k, 'z) eworld_scheme \<Rightarrow> ('k, 'z) eworld_scheme result) \<Rightarrow> nat
    \<Rightarrow> ('k, 'z) eworld_scheme \<Rightarrow> ('k, 'z) eworld_scheme result" where
  "exec_one_task resume i w = bindE (schedule i w) (\<lambda>(coro, w1). exec_task resume coro w1)"

definition handle_cqe_entry :: "(addr \<Rightarrow> int \<Rightarrow> 'w \<Rightarrow> 'w result) \<Rightarrow> cqe \<Rightarrow> 'w \<Rightarrow> 'w result" where
  "handle_cqe_entry cb c w = cb (user_data c) (res c) w"

definition do_io_submit :: "'k kernel_ops \<Rightarrow> nat \<Rightarrow> ('k, 'z) eworld_scheme \<Rightarrow> ('k, 'z) eworld_scheme" where
  "do_io_submit K i w =
     (let e = engines w i in
      if m_num_io_wait_submit e > 0
      then put_engine i (e\<lparr>m_upxy := snd (submit K (m_upxy e)),
                           m_num_io_running := m_num_io_running e + m_num_io_wait_submit e,
                           m_num_io_wait_submit := 0\<rparr>) w
      else w)"

text \<open>\<^verbatim>\<open>poll_submit\<close>. \<^verbatim>\<open>io_uring_peek_batch_cqe\<close> takes an \<^verbatim>\<open>unsigned\<close>, and writes into the array
  \<^verbatim>\<open>m_urc\<close> of \<^verbatim>\<open>kQueCap\<close> entries.\<close>

definition poll_submit :: "'k kernel_ops \<Rightarrow> (addr \<Rightarrow> int \<Rightarrow> ('k, 'z) eworld_scheme \<Rightarrow> ('k, 'z) eworld_scheme result) \<Rightarrow> nat
    \<Rightarrow> ('k, 'z) eworld_scheme \<Rightarrow> ('k, 'z) eworld_scheme result" where
  "poll_submit K cb i w =
     (let w1 = do_io_submit K i w in
      bindE (wait_eventfd K (m_upxy (engines w1 i))) (\<lambda>(cnt, p).
      let w2 = put_engine i ((engines w1 i)\<lparr>m_upxy := p\<rparr>) w1 in
      if \<not> wake_by_cqe cnt then Inr w2
      else
        let cqes = peek_batch_cqe K (unat (ucast (m_num_io_running (engines w2 i)) :: 32 word)) (m_upxy (engines w2 i));
            num = length cqes
        in if num = 0 then Inr w2
           else if num > kQueCap then Inl Out_of_bounds
           else bindE (forE cqes (handle_cqe_entry cb) (put_engine i ((engines w2 i)\<lparr>m_urc := cqes\<rparr>) w2)) (\<lambda>w3.
                Inr (put_engine i
                  ((engines w3 i)\<lparr>m_upxy := cq_advance K num (m_upxy (engines w3 i)),
                      m_num_io_running := m_num_io_running (engines w3 i) - of_nat num\<rparr>) w3))))"


section \<open>Lemmas\<close>

lemma put_engine_simps [simp]:
  "engines (put_engine i e w) = (engines w)(i := e)"
  "w_frames (put_engine i e w) = w_frames w"
  "w_tasks (put_engine i e w) = w_tasks w"
  "linfo_ctx (put_engine i e w) = linfo_ctx w"
  "linfo_egn (put_engine i e w) = linfo_egn w"
  "context_id (put_engine i e w) = context_id w"
  "engine_id (put_engine i e w) = engine_id w"
  "put_engine i e (put_engine i e' w) = put_engine i e w"
  "eworld.more (put_engine i e w) = eworld.more w"
  by (simp_all add: put_engine_def)

lemma task_flag_eq: "task_flag = 2 ^ 44"
  by (simp add: task_flag_def push_bit_eq_mult)

lemma unat_task_flag: "unat task_flag = 2 ^ 44"
  by (simp add: task_flag_eq unat_power2)

lemma mask_tests:
  "wake_by_cqe x \<longleftrightarrow> unat x mod 2 ^ 24 \<noteq> 0"
  "wake_by_io x \<longleftrightarrow> unat x div 2 ^ 24 mod 2 ^ 20 \<noteq> 0"
  "wake_by_task x \<longleftrightarrow> unat x div 2 ^ 44 mod 2 ^ 20 \<noteq> 0"
proof -
  have field: "x AND push_bit k (mask n) > 0 \<longleftrightarrow> unat x div 2 ^ k mod 2 ^ n \<noteq> 0"
    if "k + n \<le> 64" for k n :: nat and x :: "64 word"
  proof -
    have "x AND push_bit k (mask n) > 0 \<longleftrightarrow> x AND push_bit k (mask n) \<noteq> 0"
      by (simp add: word_neq_0_conv)
    also have "\<dots> \<longleftrightarrow> take_bit n (drop_bit k x) \<noteq> 0"
    proof -
      have "take_bit n (drop_bit k x) = drop_bit k (x AND push_bit k (mask n))"
        by (rule bit_word_eqI) (use that in \<open>auto simp: bit_simps\<close>)
      moreover have "x AND push_bit k (mask n) = push_bit k (take_bit n (drop_bit k x))"
        by (rule bit_word_eqI) (use that in \<open>auto simp: bit_simps\<close>)
      ultimately show ?thesis by (metis drop_bit_of_0 push_bit_of_0)
    qed
    also have "\<dots> \<longleftrightarrow> unat (take_bit n (drop_bit k x)) \<noteq> 0" by (simp add: unat_eq_zero)
    finally show ?thesis unfolding unat_take_bit unat_drop_bit_eq by (simp only: drop_bit_eq_div)
  qed
  have m: "cqe_mask = push_bit 0 (mask 24)" "io_mask = push_bit 24 (mask 20)" "task_mask = push_bit 44 (mask 20)"
    by (simp_all add: cqe_mask_def io_mask_def task_mask_def mask_eq_exp_minus_1 push_bit_eq_mult)
  show "wake_by_cqe x \<longleftrightarrow> unat x mod 2 ^ 24 \<noteq> 0"
    using field [of 0 24 x] by (simp only: wake_by_cqe_def m) simp
  show "wake_by_io x \<longleftrightarrow> unat x div 2 ^ 24 mod 2 ^ 20 \<noteq> 0"
    using field [of 24 20 x] by (simp only: wake_by_io_def m)
  show "wake_by_task x \<longleftrightarrow> unat x div 2 ^ 44 mod 2 ^ 20 \<noteq> 0"
    using field [of 44 20 x] by (simp only: wake_by_task_def m)
qed

lemma wake_fields:
  assumes t: "t < 2 ^ 20" and c: "c < 2 ^ 24"
  shows "(t * 2 ^ 44 + c) mod 2 ^ 24 = c" and "(t * 2 ^ 44 + c) div 2 ^ 24 mod 2 ^ 20 = 0"
    and "(t * 2 ^ 44 + c) div 2 ^ 44 mod 2 ^ 20 = (t :: nat)"
proof -
  have e: "t * 2 ^ 44 + c = c + (t * 2 ^ 20) * 2 ^ 24" by simp
  have "(c + (t * 2 ^ 20) * 2 ^ 24) mod 2 ^ 24 = c" using c unfolding mod_mult_self1 by (rule mod_less)
  then show "(t * 2 ^ 44 + c) mod 2 ^ 24 = c" unfolding e .
  have "(c + (t * 2 ^ 20) * 2 ^ 24) div 2 ^ 24 = t * 2 ^ 20" using c by (subst div_mult_self1) simp_all
  then show "(t * 2 ^ 44 + c) div 2 ^ 24 mod 2 ^ 20 = 0" unfolding e by simp
  have "(c + t * 2 ^ 44) div 2 ^ 44 = t" using c by (subst div_mult_self1) simp_all
  then show "(t * 2 ^ 44 + c) div 2 ^ 44 mod 2 ^ 20 = t" using t by (simp add: add.commute)
qed

text \<open>Writing the eventfd of engine \<open>i\<close>, in terms of its counter.\<close>

definition efd_count :: "(int \<Rightarrow> 'k \<Rightarrow> nat) \<Rightarrow> nat \<Rightarrow> ('k, 'z) eworld_scheme \<Rightarrow> nat" where
  "efd_count cnt i w = cnt (m_efd (m_upxy (engines w i))) (m_uring (m_upxy (engines w i)))"

definition efd_open :: "nat \<Rightarrow> ('k, 'z) eworld_scheme \<Rightarrow> bool" where
  "efd_open i w \<longleftrightarrow> m_efd (m_upxy (engines w i)) \<ge> 0"

lemma wake_up_adds:
  assumes "eventfd_doc K cnt" and "efd_open i w" and "efd_count cnt i w + unat v \<le> eventfd_max"
  shows "\<exists>w'. wake_up K i v w = Inr w' \<and> efd_count cnt i w' = efd_count cnt i w + unat v \<and> efd_open i w' \<and>
    m_task_queue (engines w' i) = m_task_queue (engines w i) \<and> (\<forall>j. j \<noteq> i \<longrightarrow> engines w' j = engines w j) \<and>
    w_frames w' = w_frames w \<and> linfo_ctx w' = linfo_ctx w \<and> linfo_egn w' = linfo_egn w \<and>
    w_tasks w' = w_tasks w \<and> eworld.more w' = eworld.more w \<and> (\<exists>u. engines w' i = (engines w i)\<lparr>m_upxy := u\<rparr>)"
proof -
  let ?p = "m_upxy (engines w i)"
  from assms obtain k where "k_eventfd_write K (m_efd ?p) v (m_uring ?p) = Some (0, k)"
    and "cnt (m_efd ?p) k = cnt (m_efd ?p) (m_uring ?p) + unat v"
    unfolding eventfd_doc_def efd_count_def efd_open_def by (metis add_leD2)
  then show ?thesis using assms(2)
    by (auto simp: wake_up_def write_eventfd_def efd_count_def efd_open_def)
qed

lemma wake_up_blocks:
  assumes "eventfd_doc K cnt" and "efd_open i w" and "\<not> efd_count cnt i w + unat v \<le> eventfd_max" and "unat v \<le> eventfd_max"
  shows "wake_up K i v w = Inl Blocks"
proof -
  let ?p = "m_upxy (engines w i)"
  from assms have "k_eventfd_write K (m_efd ?p) v (m_uring ?p) = None"
    unfolding eventfd_doc_def efd_count_def efd_open_def by metis
  then show ?thesis by (simp add: wake_up_def write_eventfd_def)
qed

text \<open>Signals between two reads of the eventfd: a worker's \<^verbatim>\<open>wake_up()\<close>, or the kernel adding one
  for a completion entry.\<close>

datatype signal = By_task | By_cqe

definition signal_value :: "signal \<Rightarrow> 64 word" where
  "signal_value s = (case s of By_task \<Rightarrow> task_flag | By_cqe \<Rightarrow> 1)"

definition send_signal :: "'k kernel_ops \<Rightarrow> nat \<Rightarrow> signal \<Rightarrow> ('k, 'z) eworld_scheme \<Rightarrow> ('k, 'z) eworld_scheme result" where
  "send_signal K i s w = wake_up K i (signal_value s) w"

abbreviation signal_sum :: "signal list \<Rightarrow> nat" where
  "signal_sum ss \<equiv> sum_list (map (unat \<circ> signal_value) ss)"

lemma signal_sum_counts: "signal_sum ss = count_list ss By_task * 2 ^ 44 + count_list ss By_cqe"
proof (induction ss)
  case (Cons s ss)
  then show ?case by (cases s) (simp_all add: signal_value_def unat_task_flag)
qed simp

lemma send_signals:
  assumes doc: "eventfd_doc K cnt"
  shows "efd_open i w \<Longrightarrow> efd_count cnt i w + signal_sum ss \<le> eventfd_max \<Longrightarrow>
    \<exists>w'. forE ss (send_signal K i) w = Inr w' \<and> efd_count cnt i w' = efd_count cnt i w + signal_sum ss \<and> efd_open i w'"
proof (induction ss arbitrary: w)
  case (Cons s ss)
  from Cons.prems wake_up_adds [OF doc, of i w "signal_value s"]
  obtain w1 where "send_signal K i s w = Inr w1" and c: "efd_count cnt i w1 = efd_count cnt i w + unat (signal_value s)"
    and "efd_open i w1" by (auto simp: send_signal_def)
  with Cons.IH [of w1] Cons.prems show ?case by (simp add: add.assoc)
qed simp

lemma send_signals_blocks:
  assumes doc: "eventfd_doc K cnt"
  shows "efd_open i w \<Longrightarrow> \<not> efd_count cnt i w + signal_sum ss \<le> eventfd_max \<Longrightarrow>
    efd_count cnt i w \<le> eventfd_max \<Longrightarrow> forE ss (send_signal K i) w = Inl Blocks"
proof (induction ss arbitrary: w)
  case (Cons s ss)
  show ?case
  proof (cases "efd_count cnt i w + unat (signal_value s) \<le> eventfd_max")
    case True
    with Cons.prems wake_up_adds [OF doc, of i w "signal_value s"]
    obtain w1 where "send_signal K i s w = Inr w1" and c: "efd_count cnt i w1 = efd_count cnt i w + unat (signal_value s)"
      and "efd_open i w1" by (auto simp: send_signal_def)
    with Cons.IH [of w1] Cons.prems True show ?thesis by (simp add: add.assoc)
  next
    case False
    have "unat (signal_value s) \<le> eventfd_max" by (cases s) (simp_all add: signal_value_def unat_task_flag eventfd_max_def)
    with False wake_up_blocks [OF doc Cons.prems(1)] show ?thesis by (simp add: send_signal_def)
  qed
qed simp

lemma wait_eventfd_reads:
  assumes "eventfd_doc K cnt" and "efd_open i w" and "efd_count cnt i w > 0"
  shows "\<exists>p. wait_eventfd K (m_upxy (engines w i)) = Inr (of_nat (efd_count cnt i w), p) \<and>
    m_efd p = m_efd (m_upxy (engines w i)) \<and> cnt (m_efd p) (m_uring p) = 0"
proof -
  let ?p = "m_upxy (engines w i)"
  from assms obtain k where "k_eventfd_read K (m_efd ?p) (m_uring ?p) = Some (0, of_nat (efd_count cnt i w), k)"
    and "cnt (m_efd ?p) k = 0"
    unfolding eventfd_doc_def efd_count_def efd_open_def by (metis less_numeral_extra(3))
  then show ?thesis by (simp add: wait_eventfd_def)
qed


text \<open>The task queue of an engine.\<close>

abbreviation queued :: "nat \<Rightarrow> ('k, 'z) eworld_scheme \<Rightarrow> handle list" where
  "queued i w \<equiv> aq_items (m_task_queue (engines w i))"

abbreviation queue_size :: "nat \<Rightarrow> ('k, 'z) eworld_scheme \<Rightarrow> nat" where
  "queue_size i w \<equiv> unat (aq_size (m_task_queue (engines w i)))"

abbreviation queue_inv :: "nat \<Rightarrow> ('k, 'z) eworld_scheme \<Rightarrow> bool" where
  "queue_inv i w \<equiv> aq_inv (m_task_queue (engines w i))"

lemma submit_task_queued:
  assumes doc: "eventfd_doc K cnt" and open_efd: "efd_open i w" and inv: "queue_inv i w"
    and room: "length (queued i w) < queue_size i w" and h: "h \<noteq> nullptr"
    and wakes: "efd_count cnt i w + 2 ^ 44 \<le> eventfd_max"
  shows "\<exists>w'. submit_task K resume i h w = Inr w' \<and> efd_open i w' \<and> queue_inv i w' \<and>
    queued i w' = queued i w @ [h] \<and> queue_size i w' = queue_size i w \<and>
    efd_count cnt i w' = efd_count cnt i w + 2 ^ 44 \<and> w_frames w' = w_frames w \<and> linfo_ctx w' = linfo_ctx w \<and>
    linfo_egn w' = linfo_egn w \<and> (\<forall>j. j \<noteq> i \<longrightarrow> engines w' j = engines w j) \<and> w_tasks w' = w_tasks w \<and>
    eworld.more w' = eworld.more w \<and> (\<exists>q u. engines w' i = (engines w i)\<lparr>m_task_queue := q, m_upxy := u\<rparr>)"
proof -
  obtain q where q: "try_push h (m_task_queue (engines w i)) = Inr (True, q)" "aq_inv q"
    "aq_items q = queued i w @ [h]" "aq_size q = aq_size (m_task_queue (engines w i))"
    using try_push_room [OF inv, of h] room unfolding length_aq_items by blast
  let ?w = "put_engine i ((engines w i)\<lparr>m_task_queue := q\<rparr>) w"
  have "efd_open i ?w" and "efd_count cnt i ?w = efd_count cnt i w"
    using open_efd by (simp_all add: efd_open_def efd_count_def)
  with wake_up_adds [OF doc, of i ?w task_flag] wakes obtain w' where
    "wake_up K i task_flag ?w = Inr w'" "efd_count cnt i w' = efd_count cnt i w + 2 ^ 44" "efd_open i w'"
    "m_task_queue (engines w' i) = q" "\<forall>j. j \<noteq> i \<longrightarrow> engines w' j = engines w j"
    "w_frames w' = w_frames w" "linfo_ctx w' = linfo_ctx w" "linfo_egn w' = linfo_egn w"
    "w_tasks w' = w_tasks w" "eworld.more w' = eworld.more w" "\<exists>q u. engines w' i = (engines w i)\<lparr>m_task_queue := q, m_upxy := u\<rparr>"
    by (auto simp: unat_task_flag)
  with q h show ?thesis by (auto simp: submit_task_def)
qed

lemma submit_tasks_queued:
  assumes doc: "eventfd_doc K cnt"
  shows "efd_open i w \<Longrightarrow> queue_inv i w \<Longrightarrow> length (queued i w) + length hs \<le> queue_size i w \<Longrightarrow>
    nullptr \<notin> set hs \<Longrightarrow> efd_count cnt i w + length hs * 2 ^ 44 \<le> eventfd_max \<Longrightarrow>
    \<exists>w'. forE hs (submit_task K resume i) w = Inr w' \<and> queue_inv i w' \<and> queued i w' = queued i w @ hs \<and>
      efd_open i w' \<and> efd_count cnt i w' = efd_count cnt i w + length hs * 2 ^ 44 \<and>
      m_num_io_wait_submit (engines w' i) = m_num_io_wait_submit (engines w i) \<and> w_frames w' = w_frames w"
proof (induction hs arbitrary: w)
  case (Cons h hs)
  then have "length (queued i w) < queue_size i w" "h \<noteq> nullptr" "efd_count cnt i w + 2 ^ 44 \<le> eventfd_max" by auto
  from submit_task_queued [OF doc Cons.prems(1,2) this] obtain w1 where
    w1: "submit_task K resume i h w = Inr w1" "efd_open i w1" "queue_inv i w1" "queued i w1 = queued i w @ [h]"
    "queue_size i w1 = queue_size i w" "efd_count cnt i w1 = efd_count cnt i w + 2 ^ 44" "w_frames w1 = w_frames w"
    "\<exists>q u. engines w1 i = (engines w i)\<lparr>m_task_queue := q, m_upxy := u\<rparr>" by blast
  have "length (queued i w1) + length hs \<le> queue_size i w1" "nullptr \<notin> set hs"
    "efd_count cnt i w1 + length hs * 2 ^ 44 \<le> eventfd_max"
    using Cons.prems w1 by (simp_all del: length_aq_items)
  from Cons.IH [OF w1(2,3) this] w1(1,4,6,7,8) show ?case by auto
qed simp

text \<open>A poll of an engine that was only told about tasks: it reads the eventfd and touches nothing else; without any wake-up it waits.\<close>

lemma poll_submit_tasks:
  assumes doc: "eventfd_doc K cnt" and efd: "efd_open i w" and io: "m_num_io_wait_submit (engines w i) = 0"
    and t: "efd_count cnt i w = t * 2 ^ 44" "0 < t" "t < 2 ^ 20"
  shows "\<exists>u. poll_submit K cb i w = Inr (put_engine i ((engines w i)\<lparr>m_upxy := u\<rparr>) w) \<and>
    m_efd u = m_efd (m_upxy (engines w i)) \<and> cnt (m_efd u) (m_uring u) = 0"
proof -
  from wait_eventfd_reads [OF doc efd] t obtain u where
    u: "wait_eventfd K (m_upxy (engines w i)) = Inr (of_nat (t * 2 ^ 44), u)"
      "m_efd u = m_efd (m_upxy (engines w i))" "cnt (m_efd u) (m_uring u) = 0" by auto
  have "t * 2 ^ 44 < 2 ^ LENGTH(64)" using t(3) by simp
  then have v: "unat (of_nat (t * 2 ^ 44) :: 64 word) = t * 2 ^ 44" by (rule unat_of_nat_below)
  have "\<not> wake_by_cqe (of_nat (t * 2 ^ 44))" unfolding mask_tests(1) v using wake_fields(1) [of t 0] t(3) by simp
  then have "poll_submit K cb i w = Inr (put_engine i ((engines w i)\<lparr>m_upxy := u\<rparr>) w)"
    using u io by (simp add: poll_submit_def do_io_submit_def Let_def)
  then show ?thesis using u(2,3) by blast
qed

lemma poll_submit_sleeps:
  assumes "eventfd_doc K cnt" and "efd_open i w" and "m_num_io_wait_submit (engines w i) = 0" and "efd_count cnt i w = 0"
  shows "poll_submit K cb i w = Inl Blocks"
  using assms by (simp add: poll_submit_def do_io_submit_def Let_def wait_eventfd_def eventfd_doc_def efd_count_def efd_open_def)

text \<open>Taking \<open>n\<close> handles from the queue, as \<^verbatim>\<open>process_work\<close> does.\<close>

fun schedule_n :: "nat \<Rightarrow> nat \<Rightarrow> ('k, 'z) eworld_scheme \<Rightarrow> (handle list \<times> ('k, 'z) eworld_scheme) result" where
  "schedule_n i 0 w = Inr ([], w)"
| "schedule_n i (Suc n) w =
     bindE (schedule i w) (\<lambda>(h, w1). bindE (schedule_n i n w1) (\<lambda>(hs, w2). Inr (h # hs, w2)))"

lemma schedule_head:
  assumes "queue_inv i w" and "queued i w = h # hs" and "h \<noteq> nullptr"
  shows "\<exists>q. schedule i w = Inr (h, put_engine i ((engines w i)\<lparr>m_task_queue := q\<rparr>) w) \<and> aq_inv q \<and> aq_items q = hs"
proof -
  have "0 < aq_count (m_task_queue (engines w i))" using assms(2) by (metis length_aq_items length_Cons zero_less_Suc)
  from pop_item [OF assms(1) this] obtain x q where "pop (m_task_queue (engines w i)) = Inr (x, q)" "aq_inv q"
    "queued i w = x # aq_items q" by blast
  with assms(2,3) show ?thesis by (auto simp: schedule_def)
qed

lemma schedule_n_all:
  "queue_inv i w \<Longrightarrow> queued i w = hs \<Longrightarrow> nullptr \<notin> set hs \<Longrightarrow>
    \<exists>w'. schedule_n i (length hs) w = Inr (hs, w') \<and> queue_inv i w' \<and> queued i w' = []"
proof (induction hs arbitrary: w)
  case (Cons h hs)
  with schedule_head [of w i h hs] obtain w1 where "schedule i w = Inr (h, w1)" "queue_inv i w1" "queued i w1 = hs"
    by auto
  with Cons.IH [of w1] Cons.prems show ?case by auto
qed simp


section \<open>Properties\<close>

text \<open>tasks and completions share one eventfd value without being mistaken for each other: after
  any mix of fewer than \<open>2 ^ 20\<close> task wake-ups and fewer than \<open>2 ^ 24\<close> completions, the next read
  returns at once, reports "task" exactly when a task was submitted and "completion" exactly when
  one arrived, and leaves the counter at zero.\<close>

theorem wake_up_decoded:
  assumes doc: "eventfd_doc K cnt" and "efd_open i w" and "efd_count cnt i w = 0"
    and t: "count_list ss By_task < 2 ^ 20" and c: "count_list ss By_cqe < 2 ^ 24" and "ss \<noteq> []"
  shows "\<exists>w' val p. forE ss (send_signal K i) w = Inr w' \<and> wait_eventfd K (m_upxy (engines w' i)) = Inr (val, p) \<and>
    wake_by_task val = (By_task \<in> set ss) \<and> wake_by_cqe val = (By_cqe \<in> set ss) \<and> \<not> wake_by_io val \<and>
    cnt (m_efd p) (m_uring p) = 0"
proof -
  let ?t = "count_list ss By_task" and ?c = "count_list ss By_cqe"
  have le: "?t * 2 ^ 44 + ?c \<le> eventfd_max" using t c by (simp add: eventfd_max_def)
  with send_signals [OF doc assms(2), of ss] assms(3)
  obtain w' where w': "forE ss (send_signal K i) w = Inr w'" "efd_count cnt i w' = ?t * 2 ^ 44 + ?c" "efd_open i w'"
    by (auto simp: signal_sum_counts)
  have some: "By_task \<in> set ss \<or> By_cqe \<in> set ss"
    using \<open>ss \<noteq> []\<close> by (metis list.set_sel(1) signal.exhaust)
  then have pos: "?t \<noteq> 0 \<or> ?c \<noteq> 0" by (simp add: count_list_0_iff)
  with w' have "efd_count cnt i w' > 0" by auto
  from wait_eventfd_reads [OF doc w'(3) this] obtain p where
    p: "wait_eventfd K (m_upxy (engines w' i)) = Inr (of_nat (?t * 2 ^ 44 + ?c), p)" "cnt (m_efd p) (m_uring p) = 0"
    unfolding w'(2) by blast
  let ?v = "of_nat (?t * 2 ^ 44 + ?c) :: 64 word"
  have u: "unat ?v = ?t * 2 ^ 44 + ?c"
    using t c by (intro unat_of_nat_below) simp
  note d = wake_fields [OF t c]
  have "wake_by_task ?v = (By_task \<in> set ss)" "wake_by_cqe ?v = (By_cqe \<in> set ss)" "\<not> wake_by_io ?v"
    unfolding mask_tests u d by (simp_all add: count_list_0_iff)
  with w'(1) p show ?thesis by blast
qed

definition sample_engine :: "nat engine" where
  "sample_engine =
     \<lparr>e_id = 0, m_upxy = sample_proxy, m_task_queue = AtomicQueue nullptr, m_urc = [],
      m_num_io_wait_submit = 0, m_num_io_running = 0, m_max_recursive_depth = 0\<rparr>"

definition sample_world :: "nat eworld" where
  "sample_world =
     \<lparr>engines = (\<lambda>_. sample_engine), w_frames = (\<lambda>_. None), w_tasks = (\<lambda>_. nullptr), linfo_ctx = None, linfo_egn = None,
      context_id = 1, engine_id = 1\<rparr>"

lemma sample_efd: "efd_open i sample_world" "efd_count (\<lambda>fd k. k) i sample_world = 0"
  by (simp_all add: efd_open_def efd_count_def sample_world_def sample_engine_def sample_proxy_def)

theorem wake_up_decoded_witness:
  "\<exists>w' val p. forE [By_cqe, By_task, By_cqe] (send_signal sample_kernel 0) sample_world = Inr w' \<and>
    wait_eventfd sample_kernel (m_upxy (engines w' 0)) = Inr (val, p) \<and> wake_by_task val \<and> wake_by_cqe val \<and>
    \<not> wake_by_io val \<and> m_uring p = 0"
  using wake_up_decoded [OF sample_eventfd_doc sample_efd, of "[By_cqe, By_task, By_cqe]"] by simp

text \<open>C25: every submission adds \<open>2 ^ 44\<close> to the eventfd, and only \<^verbatim>\<open>poll_submit\<close> reads it: if the
  worker does not get there, exactly \<open>2 ^ 20 - 1\<close> wake-ups succeed and the next one puts the
  submitting thread to sleep.\<close>

theorem wake_up_capacity:
  assumes doc: "eventfd_doc K cnt" and "efd_open i w" and "efd_count cnt i w = 0"
  shows "if n < 2 ^ 20 then \<exists>w'. forE (replicate n By_task) (send_signal K i) w = Inr w' \<and>
           efd_count cnt i w' = n * 2 ^ 44
         else forE (replicate n By_task) (send_signal K i) w = Inl Blocks"
proof -
  have sum: "signal_sum (replicate n By_task) = n * 2 ^ 44"
    by (simp add: signal_value_def unat_task_flag sum_list_replicate)
  have le: "n * 2 ^ 44 \<le> eventfd_max \<longleftrightarrow> n < 2 ^ 20" by (auto simp: eventfd_max_def)
  from send_signals [OF doc assms(2), of "replicate n By_task"]
  have "n < 2 ^ 20 \<Longrightarrow> \<exists>w'. forE (replicate n By_task) (send_signal K i) w = Inr w' \<and> efd_count cnt i w' = n * 2 ^ 44"
    unfolding sum assms(3) add_0 le by blast
  moreover from send_signals_blocks [OF doc assms(2), of "replicate n By_task"]
  have "\<not> n < 2 ^ 20 \<Longrightarrow> forE (replicate n By_task) (send_signal K i) w = Inl Blocks"
    unfolding sum assms(3) add_0 le by simp
  ultimately show ?thesis by simp
qed

theorem wake_up_capacity_witness:
  "forE (replicate (2 ^ 20) By_task) (send_signal sample_kernel 0) sample_world = Inl Blocks"
  using wake_up_capacity [OF sample_eventfd_doc sample_efd, where n = "2 ^ 20" and i = 0] by simp

text \<open>tasks submitted to an engine whose queue has room are taken out in the order of their
  submission, after those already waiting, and none is left over.\<close>

theorem engine_fifo:
  assumes "eventfd_doc K cnt" and "efd_open i w" and "queue_inv i w"
    and "length (queued i w) + length hs \<le> queue_size i w" and "nullptr \<notin> set (queued i w @ hs)"
    and "efd_count cnt i w + length hs * 2 ^ 44 \<le> eventfd_max"
  shows "\<exists>w1 w2. forE hs (submit_task K resume i) w = Inr w1 \<and>
    num_task_schedule i w1 = length (queued i w) + length hs \<and>
    schedule_n i (num_task_schedule i w1) w1 = Inr (queued i w @ hs, w2) \<and> \<not> ready i w2"
proof -
  from submit_tasks_queued [OF assms(1,2,3,4) _ assms(6)] assms(5) obtain w1 where
    w1: "forE hs (submit_task K resume i) w = Inr w1" "queue_inv i w1" "queued i w1 = queued i w @ hs" by auto
  have n: "num_task_schedule i w1 = length (queued i w @ hs)"
    unfolding num_task_schedule_def was_size_count(2) [OF w1(2)] by (simp only: length_aq_items [symmetric] w1(3))
  from schedule_n_all [OF w1(2,3) assms(5)] obtain w2 where
    "schedule_n i (length (queued i w @ hs)) w1 = Inr (queued i w @ hs, w2)" "queue_inv i w2" "queued i w2 = []" by blast
  moreover from this have "\<not> ready i w2" by (simp add: ready_def was_empty_items)
  ultimately show ?thesis using w1(1) n by (metis length_append)
qed

lemma sample_queue: "queue_inv i sample_world" "queued i sample_world = []" "queue_size i sample_world = 16384"
proof -
  have q: "m_task_queue (engines sample_world i) = AtomicQueueB2 (of_nat 16384) nullptr"
    by (simp add: sample_world_def sample_engine_def AtomicQueue_def kQueCap_def)
  show "queue_inv i sample_world" "queued i sample_world = []" unfolding q by (rule AtomicQueueB2_inv; simp)+
  show "queue_size i sample_world = 16384" unfolding q by code_simp
qed

theorem engine_fifo_witness:
  "\<exists>w1 w2. forE [7, 8, 9] (submit_task sample_kernel (\<lambda>h w. Inr w) 0) sample_world = Inr w1 \<and>
    schedule_n 0 (num_task_schedule 0 w1) w1 = Inr ([7, 8, 9], w2) \<and> \<not> ready 0 w2"
proof -
  have "\<exists>w1 w2. forE [7, 8, 9] (submit_task sample_kernel (\<lambda>h w. Inr w) 0) sample_world = Inr w1 \<and>
    num_task_schedule 0 w1 = length (queued 0 sample_world) + length [7, 8, 9 :: nat] \<and>
    schedule_n 0 (num_task_schedule 0 w1) w1 = Inr (queued 0 sample_world @ [7, 8, 9], w2) \<and> \<not> ready 0 w2"
    by (rule engine_fifo [OF sample_eventfd_doc])
      (simp_all add: sample_efd sample_queue eventfd_max_def del: length_aq_items)
  then show ?thesis unfolding sample_queue by auto
qed

text \<open>a task submitted to a full queue is run at once by a worker below the recursion limit, with
  the recursion counter back at its old value afterwards; from any other thread, or at the limit,
  the submission returns normally although the task is neither queued nor run.\<close>

theorem submit_task_full:
  assumes "queue_inv i w" and "length (queued i w) = queue_size i w" and "h \<noteq> nullptr"
  shows "if is_in_working_state w \<and> m_max_recursive_depth (engines w i) < 4096
    then (\<forall>w1. exec_task resume h (add_depth i 1 w) = Inr w1 \<longrightarrow>
            m_max_recursive_depth (engines w1 i) = m_max_recursive_depth (engines w i) + 1 \<longrightarrow>
            (\<exists>w'. submit_task K resume i h w = Inr w' \<and> w_frames w' = w_frames w1 \<and>
               engines w' = (engines w1)(i := (engines w1 i)
                 \<lparr>m_max_recursive_depth := m_max_recursive_depth (engines w i)\<rparr>)))
    else submit_task K resume i h w = Inr w"
proof -
  have "try_push h (m_task_queue (engines w i)) = Inr (False, m_task_queue (engines w i))"
    using assms(1,2) by (intro try_push_full) simp_all
  then show ?thesis using assms(3)
    by (auto simp: submit_task_def kMaxRecursiveDepth_def add_depth_def not_less)
qed

definition sample_full_queue :: "handle atomic_queue" where
  "sample_full_queue = (AtomicQueue nullptr)\<lparr>aq_head := 16384, aq_states := (\<lambda>_. STORED), aq_elements := (\<lambda>_. 7)\<rparr>"

definition sample_full_world :: "nat eworld" where
  "sample_full_world = put_engine 0 (sample_engine\<lparr>m_task_queue := sample_full_queue\<rparr>) sample_world"

lemma sample_full:
  "queue_inv 0 sample_full_world" "length (queued 0 sample_full_world) = queue_size 0 sample_full_world"
proof -
  have sz: "aq_size (AtomicQueue nullptr :: handle atomic_queue) = 2 ^ 14" by code_simp
  have q: "m_task_queue (engines sample_full_world 0) = sample_full_queue"
    by (simp add: sample_full_world_def)
  have n: "aq_count sample_full_queue = 16384"
    by (simp add: aq_count_def sample_full_queue_def AtomicQueue_def AtomicQueueB2_def)
  have s: "aq_size sample_full_queue = 2 ^ 14" using sz by (simp add: sample_full_queue_def)
  have "\<exists>k. 12 \<le> k \<and> k \<le> 30 \<and> aq_size sample_full_queue = 2 ^ k" using s by (intro exI [of _ 14]) simp
  moreover have "unat (aq_size sample_full_queue) = 16384" unfolding s by simp
  moreover have "aq_states sample_full_queue = (\<lambda>_. STORED)" by (simp add: sample_full_queue_def)
  ultimately show "queue_inv 0 sample_full_world" "length (queued 0 sample_full_world) = queue_size 0 sample_full_world"
    unfolding q using n by (auto simp: aq_inv_def)
qed

theorem submit_task_full_witness:
  "submit_task sample_kernel (\<lambda>h w. Inr w) 0 9 sample_full_world = Inr sample_full_world"
  using submit_task_full [OF sample_full, of 9 "\<lambda>h w. Inr w" sample_kernel]
  by (simp add: is_in_working_state_def sample_full_world_def sample_world_def)

lemma do_io_submit_eq:
  fixes w :: "('k, 'z) eworld_scheme" and i :: nat
  defines "e \<equiv> engines w i"
  shows "do_io_submit K i w = put_engine i (e
    \<lparr>m_upxy := (m_upxy e)\<lparr>m_uring := if m_num_io_wait_submit e = 0 then m_uring (m_upxy e) else snd (k_submit K (m_uring (m_upxy e)))\<rparr>,
     m_num_io_wait_submit := 0, m_num_io_running := of_nat (unat (m_num_io_running e) + unat (m_num_io_wait_submit e))\<rparr>) w"
  by (cases "engines w i"; cases "m_num_io_wait_submit e = 0")
    (simp_all add: e_def do_io_submit_def Let_def submit_def word_gt_0 put_engine_def fun_upd_idem split: prod.split)

lemma unat_ucast_of_nat: "m < 2 ^ 32 \<Longrightarrow> unat (ucast (of_nat m :: 64 word) :: 32 word) = m"
  using unat_of_nat_below [of m, where 'a = 64] by (simp add: unsigned_ucast_eq take_bit_nat_eq_self)

text \<open>C24: I/O accounting of one round of \<^verbatim>\<open>poll_submit\<close> against the documented ring. Requests that wait
  are handed to the kernel by one \<^verbatim>\<open>io_uring_submit\<close>, and then the eventfd is read, which gives \<open>v\<close> and the
  kernel state \<open>k\<close>. If \<open>v\<close> announces completions, \<open>handled\<close> are the first entries of the completion
  queue, as many as requests are in flight, otherwise there are none; their callbacks are called once each
  and in order, the entries are consumed and subtracted from the number in flight without wrap-around,
  later entries stay in the queue, and what callbacks queue meanwhile waits for the next round.\<close>

theorem poll_submit_accounting:
  assumes ring: "cq_doc K cq" and poll: "poll_submit K cb i w = Inr w'"
    and cb: "\<And>d r v v'. cb d r v = Inr v' \<Longrightarrow> m_num_io_running (engines v' i) = m_num_io_running (engines v i) \<and>
      (\<exists>new. cq (m_uring (m_upxy (engines v' i))) = cq (m_uring (m_upxy (engines v i))) @ new)"
    and small: "unat (m_num_io_running (engines w i)) + unat (m_num_io_wait_submit (engines w i)) < 2 ^ 32"
  shows "\<exists>ret v k handled w3 new.
    (let e = engines w i; n = unat (m_num_io_running e) + unat (m_num_io_wait_submit e);
         k0 = (if m_num_io_wait_submit e = 0 then m_uring (m_upxy e) else snd (k_submit K (m_uring (m_upxy e))))
     in k_eventfd_read K (m_efd (m_upxy e)) k0 = Some (ret, v, k) \<and>
        handled = (if wake_by_cqe v then take n (cq k) else []) \<and>
        forE handled (handle_cqe_entry cb)
          (put_engine i (e\<lparr>m_upxy := (m_upxy e)\<lparr>m_uring := k\<rparr>, m_urc := (if handled = [] then m_urc e else handled),
             m_num_io_wait_submit := 0, m_num_io_running := of_nat n\<rparr>) w) = Inr w3 \<and>
        cq (m_uring (m_upxy (engines w' i))) = drop (length handled) (cq k) @ new \<and>
        unat (m_num_io_running (engines w' i)) + length handled = n \<and>
        m_num_io_wait_submit (engines w' i) = m_num_io_wait_submit (engines w3 i) \<and>
        w_frames w' = w_frames w3 \<and> length handled \<le> kQueCap)"
proof -
  let ?e = "engines w i"
  define N where "N = unat (m_num_io_running ?e) + unat (m_num_io_wait_submit ?e)"
  let ?k0 = "if m_num_io_wait_submit ?e = 0 then m_uring (m_upxy ?e) else snd (k_submit K (m_uring (m_upxy ?e)))"
  let ?e1 = "?e\<lparr>m_upxy := (m_upxy ?e)\<lparr>m_uring := ?k0\<rparr>, m_num_io_wait_submit := 0, m_num_io_running := of_nat N\<rparr>"
  have w1: "do_io_submit K i w = put_engine i ?e1 w" unfolding N_def by (rule do_io_submit_eq)
  obtain v p where wait: "wait_eventfd K ((m_upxy ?e)\<lparr>m_uring := ?k0\<rparr>) = Inr (v, p)"
    using poll by (auto simp: poll_submit_def Let_def w1)
  then obtain ret k where read: "k_eventfd_read K (m_efd (m_upxy ?e)) ?k0 = Some (ret, v, k)"
    and p: "p = (m_upxy ?e)\<lparr>m_uring := k\<rparr>" by (auto simp: wait_eventfd_def split: option.splits if_splits prod.splits)
  have n: "unat (of_nat N :: 64 word) = N" "unat (ucast (of_nat N :: 64 word) :: 32 word) = N"
    using small unfolding N_def [symmetric] by (rule unat_of_nat_below [OF less_trans], simp, intro unat_ucast_of_nat)
  let ?handled = "if wake_by_cqe v then take N (cq k) else []"
  let ?w2 = "put_engine i (?e1\<lparr>m_upxy := p, m_urc := (if ?handled = [] then m_urc ?e else ?handled)\<rparr>) w"
  have peek: "peek_batch_cqe K N p = take N (cq k)" using ring by (simp add: cq_doc_def peek_batch_cqe_def p)
  have w3: "\<exists>w3. forE ?handled (handle_cqe_entry cb) ?w2 = Inr w3 \<and> length ?handled \<le> kQueCap \<and>
      w' = (if ?handled = [] then w3 else put_engine i ((engines w3 i)\<lparr>m_upxy := cq_advance K (length ?handled) (m_upxy (engines w3 i)),
              m_num_io_running := m_num_io_running (engines w3 i) - of_nat (length ?handled)\<rparr>) w3)"
    using poll unfolding poll_submit_def Let_def w1 by (auto simp: wait peek n min_def split: if_split_asm)
  then obtain w3 where run: "forE ?handled (handle_cqe_entry cb) ?w2 = Inr w3" and cap: "length ?handled \<le> kQueCap"
    and w': "w' = (if ?handled = [] then w3 else put_engine i ((engines w3 i)\<lparr>m_upxy := cq_advance K (length ?handled) (m_upxy (engines w3 i)),
              m_num_io_running := m_num_io_running (engines w3 i) - of_nat (length ?handled)\<rparr>) w3)" by blast
  have running: "m_num_io_running (engines w3 i) = of_nat N"
    using forE_invariant [OF run, of "\<lambda>v. m_num_io_running (engines v i) = of_nat N"] cb by (auto simp: handle_cqe_entry_def)
  obtain new where new: "cq (m_uring (m_upxy (engines w3 i))) = cq k @ new"
    using forE_appends [OF run, of "\<lambda>v. cq (m_uring (m_upxy (engines v i)))"] cb by (auto simp: handle_cqe_entry_def p)
  have le: "length ?handled \<le> N" "length ?handled \<le> length (cq k)" by simp_all
  have "unat (m_num_io_running (engines w' i)) + length ?handled = N"
  proof -
    have "unat (of_nat N - of_nat m :: 64 word) + m = N" if "m \<le> N" for m
    proof -
      have "N - m < 2 ^ LENGTH(64)" using small by (simp add: N_def)
      then have "unat (of_nat (N - m) :: 64 word) = N - m" by (rule unat_of_nat_below)
      then show ?thesis using that by (simp add: of_nat_diff)
    qed
    from this [OF le(1)] show ?thesis using n(1) by (auto simp: w' running)
  qed
  moreover have "cq (m_uring (m_upxy (engines w' i))) = drop (length ?handled) (cq k) @ new"
    using ring le(2) by (auto simp: w' cq_doc_def cq_advance_def new)
  moreover have "?w2 = put_engine i (?e\<lparr>m_upxy := (m_upxy ?e)\<lparr>m_uring := k\<rparr>, m_urc := (if ?handled = [] then m_urc ?e else ?handled),
      m_num_io_wait_submit := 0, m_num_io_running := of_nat N\<rparr>) w" by (cases "engines w i") (simp add: p)
  note run [unfolded this]
  moreover have "m_num_io_wait_submit (engines w' i) = m_num_io_wait_submit (engines w3 i)" "w_frames w' = w_frames w3"
    by (simp_all add: w')
  ultimately show ?thesis using read cap unfolding Let_def N_def [symmetric]
    by (intro exI [of _ ret] exI [of _ v] exI [of _ k] exI [of _ ?handled] exI [of _ w3] exI [of _ new] conjI refl)
qed

text \<open>A kernel that completes every submitted request at once; its state is the number of completions.\<close>

definition sample_cq :: "nat \<Rightarrow> cqe list" where
  "sample_cq k = map (\<lambda>j. \<lparr>user_data = 9 + j, res = 4\<rparr>) (rev [0..<k])"

definition sample_poll_kernel :: "nat kernel_ops" where
  "sample_poll_kernel = sample_kernel
     \<lparr>k_eventfd_read := (\<lambda>fd k. Some (0, of_nat k, k)), k_peek_batch_cqe := (\<lambda>n k. take n (sample_cq k)),
      k_cq_advance := (\<lambda>n k. k - n), k_submit := (\<lambda>k. (2, k + 2))\<rparr>"

definition sample_poll_world :: "nat eworld" where
  "sample_poll_world = put_engine 0 (sample_engine\<lparr>m_num_io_wait_submit := 2\<rparr>) sample_world"

lemma sample_cq_doc: "cq_doc sample_poll_kernel sample_cq"
  by (simp add: cq_doc_def sample_poll_kernel_def sample_cq_def drop_map drop_rev)

theorem poll_submit_accounting_witness:
  "\<exists>w'. poll_submit sample_poll_kernel (\<lambda>d r v. Inr v) 0 sample_poll_world = Inr w' \<and>
    unat (m_num_io_running (engines w' 0)) = 0"
proof -
  have wake: "wake_by_cqe 2" by code_simp
  have init: "m_num_io_running (engines sample_poll_world 0) = 0" "m_num_io_wait_submit (engines sample_poll_world 0) = 2"
    "m_uring (m_upxy (engines sample_poll_world 0)) = 0"
    by (simp_all add: sample_poll_world_def sample_engine_def sample_proxy_def)
  from wake obtain w' where w': "poll_submit sample_poll_kernel (\<lambda>d r v. Inr v) 0 sample_poll_world = Inr w'"
    by (simp add: Let_def poll_submit_def do_io_submit_def submit_def wait_eventfd_def sample_poll_kernel_def sample_kernel_def
        sample_poll_world_def sample_engine_def sample_proxy_def peek_batch_cqe_def handle_cqe_entry_def kQueCap_def sample_cq_def)
  have "unat (m_num_io_running (engines sample_poll_world 0)) + unat (m_num_io_wait_submit (engines sample_poll_world 0)) < 2 ^ 32"
    by (simp add: init)
  from poll_submit_accounting [OF sample_cq_doc w' _ this] obtain ret v k handled where
    h: "k_eventfd_read sample_poll_kernel (m_efd (m_upxy (engines sample_poll_world 0)))
        (if (2 :: 64 word) = 0 then 0 else snd (k_submit sample_poll_kernel 0)) = Some (ret, v, k)"
      "handled = (if wake_by_cqe v then take (unat (0 :: 64 word) + unat (2 :: 64 word)) (sample_cq k) else [])"
      "unat (m_num_io_running (engines w' 0)) + length handled = unat (0 :: 64 word) + unat (2 :: 64 word)"
    unfolding Let_def init by auto
  from h(1) have "v = 2" "k = 2" by (simp_all add: sample_poll_kernel_def)
  with h(2,3) wake have "unat (m_num_io_running (engines w' 0)) = 0" by (simp add: sample_cq_def)
  with w' show ?thesis by blast
qed

text \<open>What \<^verbatim>\<open>exec_task\<close> does with the frame it resumed: it is destroyed exactly when the coroutine
  finished and is detached, and left to its owner otherwise; no other frame is touched. It looks at
  the frame after the resumption, so a frame that was destroyed meanwhile is a use after free.\<close>

theorem exec_task_frame:
  assumes "resume h w = Inr w1" and "h \<noteq> nullptr"
  shows "exec_task resume h w =
    (case w_frames w1 h of
       None \<Rightarrow> Inl Use_after_free
     | Some f \<Rightarrow> Inr (w1\<lparr>w_frames := (w_frames w1)(h := if f_done f \<and> is_detach f then None else Some f)\<rparr>))"
  using assms by (auto simp: exec_task_def is_done_def clean_eq fun_upd_idem split: option.split)

theorem exec_task_frame_witness:
  "exec_task (\<lambda>h w. Inr (w\<lparr>w_frames := [5 \<mapsto> new_frame\<lparr>f_done := True, f_state := cs_detach\<rparr>]\<rparr>)) 5 sample_world =
   Inr (sample_world\<lparr>w_frames := (\<lambda>_. None)\<rparr>)"
  by (subst exec_task_frame) (auto simp: is_detach_def)

text \<open>Resumption by the language, on the frames of the world together with the promises' results
  and the task objects.\<close>

record ('k, 'v) coro_world = "'k eworld" +
  w_results :: "handle \<Rightarrow> ('v, string) storage"

definition resume_coro :: "('v coros \<Rightarrow> handle \<Rightarrow> 'v coro_action) \<Rightarrow> handle \<Rightarrow> ('k, 'v) coro_world \<Rightarrow> ('k, 'v) coro_world result" where
  "resume_coro prog h w =
     (case run_coro prog h \<lparr>c_frames = w_frames w, c_results = w_results w, c_tasks = w_tasks w\<rparr> of
        None \<Rightarrow> Inl Blocks
      | Some r \<Rightarrow> bindE r (\<lambda>s. Inr (w\<lparr>w_frames := c_frames s, w_results := c_results s, w_tasks := c_tasks s\<rparr>)))"

text \<open>A detached coroutine 1 has awaited the coroutine 2, held in a temporary task object 5, and 2 is
  waiting in the engine's queue. When 2 returns, 1 goes on, ends the lifetime of the
  temporary and returns.\<close>

definition awaited_child_prog :: "nat coros \<Rightarrow> handle \<Rightarrow> nat coro_action" where
  "awaited_child_prog s h =
     (if h = 2 then Co_return 7
      else if map_option f_pc (c_frames s h) = Some 1 then End_task 5 else Co_return 0)"

definition awaited_child_world :: "'k eworld \<Rightarrow> ('k, nat) coro_world" where
  "awaited_child_world w =
     eworld.extend (w\<lparr>w_frames := [1 \<mapsto> new_frame\<lparr>f_state := cs_detach, f_pc := 1\<rparr>, 2 \<mapsto> new_frame\<lparr>f_continuation := 1\<rparr>],
                      w_tasks := (\<lambda>_. nullptr)(5 := 2)\<rparr>)
       \<lparr>w_results = (\<lambda>_. Unset)\<rparr>"

text \<open>C40: a coroutine that is awaited as a temporary, suspends and is later resumed by the engine makes
  \<^verbatim>\<open>exec_task\<close> touch a destroyed frame: its completion runs the awaiting coroutine, which destroys
  it, before \<^verbatim>\<open>handle.done()\<close> is asked.\<close>

theorem exec_awaited_child_use_after_free:
  "exec_task (resume_coro awaited_child_prog) 2 (awaited_child_world w) = Inl Use_after_free"
proof -
  let ?w = "awaited_child_world w"
  let ?s = "\<lparr>c_frames = w_frames ?w, c_results = w_results ?w, c_tasks = w_tasks ?w\<rparr>"
  note defs = awaited_child_world_def eworld.defs awaited_child_prog_def coro_step_def final_next_def
    final_await_suspend_def new_frame_def finish_def advance_def task_dtor_def destroy_frame_def
  obtain s' where "run_coro awaited_child_prog 2 ?s = Some (Inr s')" and "c_frames s' 2 = None"
    by (simp add: run_coro.simps [of _ 2] run_coro.simps [of _ "Suc 0"] defs)
  then show ?thesis
    by (simp add: exec_task_def resume_coro_def is_done_def)
qed

end
