(* ===== verification/Task_Sink.thy ===== *)
theory Task_Sink
  imports Prelude
begin

text \<open>
  What the synchronisation components rely on when they hand a coroutine back to a context:
  as long as there is room, the handle is appended to that context's pending tasks and
  nothing else the component can see changes. \<open>room c w\<close> is how many more handles context
  \<open>c\<close> takes, \<open>rest\<close> everything a submission leaves alone. \<open>Context\<close> interprets the contract on
  its own submission.
\<close>

text \<open>Submitting a list of (context, handle) pairs in order.\<close>

definition submit_all :: "(nat \<Rightarrow> addr \<Rightarrow> 'w \<Rightarrow> 'w result) \<Rightarrow> (nat \<times> addr) list \<Rightarrow> 'w \<Rightarrow> 'w result" where
  "submit_all submit js = forE js (\<lambda>(c, h). submit c h)"

definition for_context :: "nat \<Rightarrow> (nat \<times> addr) list \<Rightarrow> addr list" where
  "for_context c js = map snd (filter (\<lambda>j. fst j = c) js)"

lemma for_context_simps [simp]:
  "for_context c [] = []"
  "for_context c ((d, h) # js) = (if d = c then h # for_context c js else for_context c js)"
  "for_context c (js @ ks) = for_context c js @ for_context c ks"
  by (simp_all add: for_context_def)

locale task_sink =
  fixes submit :: "nat \<Rightarrow> addr \<Rightarrow> 'w \<Rightarrow> 'w result"
    and pending :: "nat \<Rightarrow> 'w \<Rightarrow> addr list"
    and room :: "nat \<Rightarrow> 'w \<Rightarrow> nat"
    and ok :: "'w \<Rightarrow> bool"
    and rest :: "'w \<Rightarrow> 'r"
  assumes submit_ok: "ok w \<Longrightarrow> 0 < room c w \<Longrightarrow> h \<noteq> nullptr \<Longrightarrow>
      \<exists>w'. submit c h w = Inr w' \<and> ok w' \<and> pending c w' = pending c w @ [h] \<and> room c w' = room c w - 1 \<and>
        (\<forall>d. d \<noteq> c \<longrightarrow> pending d w' = pending d w \<and> room d w' = room d w) \<and> rest w' = rest w"
begin

text \<open>Every handle reaches its own context, in the order of the list.\<close>

lemma submit_all_ok:
  "ok w \<Longrightarrow> (\<forall>c. length (for_context c js) \<le> room c w) \<Longrightarrow> (\<forall>(c, h) \<in> set js. h \<noteq> nullptr) \<Longrightarrow>
    \<exists>w'. submit_all submit js w = Inr w' \<and> ok w' \<and> rest w' = rest w \<and>
      (\<forall>c. pending c w' = pending c w @ for_context c js \<and> room c w' = room c w - length (for_context c js))"
proof (induction js arbitrary: w)
  case Nil
  then show ?case by (auto simp: submit_all_def)
next
  case (Cons j js)
  obtain c h where j: "j = (c, h)" by (rule prod.exhaust)
  have "length (for_context c (j # js)) \<le> room c w" using Cons.prems(2) by blast
  then have "0 < room c w" by (simp add: j)
  moreover have "h \<noteq> nullptr" using Cons.prems(3) by (simp add: j)
  ultimately obtain w1 where w1: "submit c h w = Inr w1" "ok w1" "pending c w1 = pending c w @ [h]"
    "room c w1 = room c w - 1" "\<forall>d. d \<noteq> c \<longrightarrow> pending d w1 = pending d w \<and> room d w1 = room d w" "rest w1 = rest w"
    using submit_ok [OF Cons.prems(1)] by blast
  have p: "pending d w1 = pending d w @ (if d = c then [h] else [])" and r: "room d w1 = room d w - (if d = c then 1 else 0)" for d
    using w1 by auto
  have "length (for_context d js) \<le> room d w1" for d
    using spec [OF Cons.prems(2), of d] by (auto simp: j r split: if_splits)
  with Cons.IH [OF w1(2)] Cons.prems(3) obtain w2 where
    "submit_all submit js w1 = Inr w2" "ok w2" "rest w2 = rest w1"
    "\<forall>d. pending d w2 = pending d w1 @ for_context d js \<and> room d w2 = room d w1 - length (for_context d js)"
    by auto
  then show ?case using w1 by (auto simp: submit_all_def j p r)
qed

end


text \<open>
  An executor takes tasks and gives a context its turn, in which it runs exactly the tasks that were pending, in order;
  \<open>run_of c h\<close> runs the task \<open>h\<close>, the next of context \<open>c\<close>.
\<close>

locale executor = task_sink submit pending room ok rest
  for submit :: "nat \<Rightarrow> addr \<Rightarrow> 'w \<Rightarrow> 'w result" and pending :: "nat \<Rightarrow> 'w \<Rightarrow> addr list" and room :: "nat \<Rightarrow> 'w \<Rightarrow> nat"
    and ok :: "'w \<Rightarrow> bool" and rest :: "'w \<Rightarrow> 'r" +
  fixes turn :: "nat \<Rightarrow> 'w \<Rightarrow> 'w result"
    and run_of :: "nat \<Rightarrow> addr \<Rightarrow> 'w \<Rightarrow> 'w result"
  assumes turn_runs: "ok w \<Longrightarrow> turn c w = forE (pending c w) (run_of c) w"
begin

text \<open>What is submitted is run, by the context it was submitted to and after what was there.\<close>

lemma submitted_run:
  assumes "ok w" and "\<forall>c. length (for_context c js) \<le> room c w" and "\<forall>(c, h) \<in> set js. h \<noteq> nullptr"
  shows "\<exists>w'. submit_all submit js w = Inr w' \<and> rest w' = rest w \<and>
    (\<forall>c. turn c w' = forE (pending c w @ for_context c js) (run_of c) w')"
  using submit_all_ok [OF assms] turn_runs by metis

end

end
