(* ===== verification/Context.thy ===== *)
theory Context
  imports Engine Task_Sink
begin

text \<open>
  Execution contexts: \<^verbatim>\<open>include/coro/context.hpp\<close> and \<^verbatim>\<open>src/context.cpp\<close>. Context \<open>i\<close> owns engine
  \<open>i\<close>. Its worker thread is \<open>m_job\<close>, of which the code uses the stop request and the joining.
  \<open>sched\<close>, an argument of the loop, is the stop callback a scheduler installs
  (\<open>Scheduler\<close> defines it); the callback a context without a scheduler installs itself
  is \<open>Cb_default\<close>. The loop returns \<open>None\<close> when it goes on forever.
\<close>

section \<open>State\<close>

record job =
  j_stop :: bool
  j_finished :: bool

datatype stop_cb = Cb_default nat | Cb_scheduler nat

record context_obj =
  m_job :: "job option"
  m_id :: "32 word"
  m_num_wait_task :: "64 word"
  m_stop_cb :: "stop_cb option"

record 'k cworld = "'k eworld" +
  contexts :: "nat \<Rightarrow> context_obj"

definition put_context :: "nat \<Rightarrow> context_obj \<Rightarrow> ('k, 'z) cworld_scheme \<Rightarrow> ('k, 'z) cworld_scheme" where
  "put_context i c w = w\<lparr>contexts := (contexts w)(i := c)\<rparr>"

section \<open>Operations\<close>

text \<open>The constructor; the engine and its proxy are members and are constructed first.\<close>

definition new_context :: "'k kernel_ops \<Rightarrow> 'k \<Rightarrow> int list \<Rightarrow> nat \<Rightarrow> ('k, 'z) cworld_scheme \<Rightarrow> ('k, 'z) cworld_scheme result" where
  "new_context K k fds i w =
     bindE (new_uring_proxy K k fds) (\<lambda>p.
     case new_engine p w of (e, w1) \<Rightarrow>
       Inr (put_context i \<lparr>m_job = None, m_id = context_id w1, m_num_wait_task = 0, m_stop_cb = None\<rparr>
              ((put_engine i e w1)\<lparr>context_id := context_id w1 + 1\<rparr>)))"

definition request_stop :: "nat \<Rightarrow> ('k, 'z) cworld_scheme \<Rightarrow> ('k, 'z) cworld_scheme result" where
  "request_stop i w =
     (case m_job (contexts w i) of
        None \<Rightarrow> Inl Null_deref
      | Some j \<Rightarrow> Inr (put_context i ((contexts w i)\<lparr>m_job := Some (j\<lparr>j_stop := True\<rparr>)\<rparr>) w))"

definition stop_requested :: "nat \<Rightarrow> ('k, 'z) cworld_scheme \<Rightarrow> bool" where
  "stop_requested i w \<longleftrightarrow> (case m_job (contexts w i) of None \<Rightarrow> False | Some j \<Rightarrow> j_stop j)"

definition notify_stop :: "'k kernel_ops \<Rightarrow> nat \<Rightarrow> ('k, 'z) cworld_scheme \<Rightarrow> ('k, 'z) cworld_scheme result" where
  "notify_stop K i w = bindE (request_stop i w) (wake_up K i task_flag)"

definition join :: "nat \<Rightarrow> ('k, 'z) cworld_scheme \<Rightarrow> ('k, 'z) cworld_scheme result" where
  "join i w =
     (case m_job (contexts w i) of
        None \<Rightarrow> Inl Null_deref
      | Some j \<Rightarrow> if j_finished j then Inr w else Inl Blocks)"

definition set_stop_cb :: "stop_cb \<Rightarrow> nat \<Rightarrow> ('k, 'z) cworld_scheme \<Rightarrow> ('k, 'z) cworld_scheme" where
  "set_stop_cb cb i w = put_context i ((contexts w i)\<lparr>m_stop_cb := Some cb\<rparr>) w"

definition context_submit :: "'k kernel_ops \<Rightarrow> (handle \<Rightarrow> ('k, 'z) cworld_scheme \<Rightarrow> ('k, 'z) cworld_scheme result) \<Rightarrow> nat
    \<Rightarrow> handle \<Rightarrow> ('k, 'z) cworld_scheme \<Rightarrow> ('k, 'z) cworld_scheme result" where
  "context_submit K resume i h w = submit_task K resume i h w"

text \<open>\<^verbatim>\<open>task<void>&&\<close>: the handle is read, the task is detached, the handle is submitted.\<close>

definition context_submit_rvalue :: "'k kernel_ops \<Rightarrow> (handle \<Rightarrow> ('k, 'z) cworld_scheme \<Rightarrow> ('k, 'z) cworld_scheme result) \<Rightarrow> nat
    \<Rightarrow> addr \<Rightarrow> ('k, 'z) cworld_scheme \<Rightarrow> ('k, 'z) cworld_scheme result" where
  "context_submit_rvalue K resume i t w =
     (let h = w_tasks w t in
      if h = nullptr then Inl Assert_failed
      else case w_frames w h of
        None \<Rightarrow> Inl Use_after_free
      | Some f \<Rightarrow> context_submit K resume i h
          (w\<lparr>w_frames := (w_frames w)(h \<mapsto> set_state cs_detach f), w_tasks := (w_tasks w)(t := nullptr)\<rparr>))"

definition context_submit_lvalue :: "'k kernel_ops \<Rightarrow> (handle \<Rightarrow> ('k, 'z) cworld_scheme \<Rightarrow> ('k, 'z) cworld_scheme result) \<Rightarrow> nat
    \<Rightarrow> addr \<Rightarrow> ('k, 'z) cworld_scheme \<Rightarrow> ('k, 'z) cworld_scheme result" where
  "context_submit_lvalue K resume i t w = context_submit K resume i (w_tasks w t) w"

definition get_ctx_id :: "nat \<Rightarrow> ('k, 'z) cworld_scheme \<Rightarrow> 32 word" where
  "get_ctx_id i w = m_id (contexts w i)"

definition register_wait :: "int \<Rightarrow> nat \<Rightarrow> ('k, 'z) cworld_scheme \<Rightarrow> ('k, 'z) cworld_scheme" where
  "register_wait register_cnt i w =
     put_context i ((contexts w i)\<lparr>m_num_wait_task := m_num_wait_task (contexts w i) + of_int register_cnt\<rparr>) w"

definition unregister_wait :: "int \<Rightarrow> nat \<Rightarrow> ('k, 'z) cworld_scheme \<Rightarrow> ('k, 'z) cworld_scheme" where
  "unregister_wait register_cnt i w =
     put_context i ((contexts w i)\<lparr>m_num_wait_task := m_num_wait_task (contexts w i) - of_int register_cnt\<rparr>) w"

definition context_init :: "'k kernel_ops \<Rightarrow> nat \<Rightarrow> ('k, 'z) cworld_scheme \<Rightarrow> ('k, 'z) cworld_scheme result" where
  "context_init K i w = engine_init K i (w\<lparr>linfo_ctx := Some i\<rparr>)"

definition context_deinit :: "'k kernel_ops \<Rightarrow> nat \<Rightarrow> ('k, 'z) cworld_scheme \<Rightarrow> ('k, 'z) cworld_scheme" where
  "context_deinit K i w = engine_deinit K i (w\<lparr>linfo_ctx := None\<rparr>)"

definition empty_wait_task :: "nat \<Rightarrow> ('k, 'z) cworld_scheme \<Rightarrow> bool" where
  "empty_wait_task i w \<longleftrightarrow> m_num_wait_task (contexts w i) = 0 \<and> empty_io i w"

definition process_work :: "(handle \<Rightarrow> ('k, 'z) cworld_scheme \<Rightarrow> ('k, 'z) cworld_scheme result) \<Rightarrow> nat
    \<Rightarrow> ('k, 'z) cworld_scheme \<Rightarrow> ('k, 'z) cworld_scheme result" where
  "process_work resume i w = forE [0..<num_task_schedule i w] (\<lambda>_. exec_one_task resume i) w"

definition poll_work :: "'k kernel_ops \<Rightarrow> (addr \<Rightarrow> int \<Rightarrow> ('k, 'z) cworld_scheme \<Rightarrow> ('k, 'z) cworld_scheme result) \<Rightarrow> nat
    \<Rightarrow> ('k, 'z) cworld_scheme \<Rightarrow> ('k, 'z) cworld_scheme result" where
  "poll_work K cb i w = poll_submit K cb i w"

text \<open>Calling \<^verbatim>\<open>m_stop_cb\<close>; calling an empty \<^verbatim>\<open>std::function\<close> throws out of a \<^verbatim>\<open>noexcept\<close> function.\<close>

definition call_stop_cb :: "(nat \<Rightarrow> ('k, 'z) cworld_scheme \<Rightarrow> ('k, 'z) cworld_scheme result) \<Rightarrow> nat
    \<Rightarrow> ('k, 'z) cworld_scheme \<Rightarrow> ('k, 'z) cworld_scheme result" where
  "call_stop_cb sched i w =
     (case m_stop_cb (contexts w i) of
        None \<Rightarrow> Inl Std_terminate
      | Some (Cb_default j) \<Rightarrow> request_stop j w
      | Some (Cb_scheduler j) \<Rightarrow> sched j w)"

text \<open>One turn of the loop of \<^verbatim>\<open>run\<close>, then the loop.\<close>

definition run_once where
  "run_once K resume cb sched i w =
     bindE (process_work resume i w) (\<lambda>w1.
     if empty_wait_task i w1 then
       (if \<not> ready i w1 then bindE (call_stop_cb sched i w1) (poll_work K cb i) else Inr w1)
     else poll_work K cb i w1)"

partial_function (option) run where
  "run K resume cb sched i w =
     (if stop_requested i w then Some (Inr w)
      else case run_once K resume cb sched i w of
        Inl e \<Rightarrow> Some (Inl e)
      | Inr w' \<Rightarrow> run K resume cb sched i w')"

text \<open>\<^verbatim>\<open>start\<close> creates the thread; \<open>job_body\<close> is what the thread does.\<close>

definition start :: "nat \<Rightarrow> ('k, 'z) cworld_scheme \<Rightarrow> ('k, 'z) cworld_scheme" where
  "start i w = put_context i ((contexts w i)\<lparr>m_job := Some \<lparr>j_stop = False, j_finished = False\<rparr>\<rparr>) w"

definition set_default_cb :: "nat \<Rightarrow> ('k, 'z) cworld_scheme \<Rightarrow> ('k, 'z) cworld_scheme" where
  "set_default_cb i w = (if m_stop_cb (contexts w i) = None then set_stop_cb (Cb_default i) i w else w)"

definition finish_job :: "nat \<Rightarrow> ('k, 'z) cworld_scheme \<Rightarrow> ('k, 'z) cworld_scheme" where
  "finish_job i w =
     put_context i ((contexts w i)\<lparr>m_job := map_option (\<lambda>j. j\<lparr>j_finished := True\<rparr>) (m_job (contexts w i))\<rparr>) w"

definition job_body where
  "job_body K resume cb sched i w =
     (case context_init K i w of
        Inl e \<Rightarrow> Some (Inl e)
      | Inr w1 \<Rightarrow>
          (case run K resume cb sched i (set_default_cb i w1) of
             None \<Rightarrow> None
           | Some (Inl e) \<Rightarrow> Some (Inl e)
           | Some (Inr w2) \<Rightarrow> Some (Inr (finish_job i (context_deinit K i w2)))))"

text \<open>The running thread's context.\<close>

definition local_context :: "('k, 'z) cworld_scheme \<Rightarrow> nat result" where
  "local_context w = (case linfo_ctx w of None \<Rightarrow> Inl Null_deref | Some i \<Rightarrow> Inr i)"

definition submit_to_context :: "'k kernel_ops \<Rightarrow> (handle \<Rightarrow> ('k, 'z) cworld_scheme \<Rightarrow> ('k, 'z) cworld_scheme result)
    \<Rightarrow> handle \<Rightarrow> ('k, 'z) cworld_scheme \<Rightarrow> ('k, 'z) cworld_scheme result" where
  "submit_to_context K resume h w = bindE (local_context w) (\<lambda>i. context_submit K resume i h w)"

definition submit_to_context_rvalue :: "'k kernel_ops \<Rightarrow> (handle \<Rightarrow> ('k, 'z) cworld_scheme \<Rightarrow> ('k, 'z) cworld_scheme result)
    \<Rightarrow> addr \<Rightarrow> ('k, 'z) cworld_scheme \<Rightarrow> ('k, 'z) cworld_scheme result" where
  "submit_to_context_rvalue K resume t w = bindE (local_context w) (\<lambda>i. context_submit_rvalue K resume i t w)"

definition submit_to_context_lvalue :: "'k kernel_ops \<Rightarrow> (handle \<Rightarrow> ('k, 'z) cworld_scheme \<Rightarrow> ('k, 'z) cworld_scheme result)
    \<Rightarrow> addr \<Rightarrow> ('k, 'z) cworld_scheme \<Rightarrow> ('k, 'z) cworld_scheme result" where
  "submit_to_context_lvalue K resume t w = bindE (local_context w) (\<lambda>i. context_submit_lvalue K resume i t w)"


section \<open>A context takes tasks\<close>

lemma put_context_simps [simp]:
  "contexts (put_context i c w) = (contexts w)(i := c)"
  "engines (put_context i c w) = engines w"
  "w_frames (put_context i c w) = w_frames w"
  "w_tasks (put_context i c w) = w_tasks w"
  "linfo_ctx (put_context i c w) = linfo_ctx w"
  "linfo_egn (put_context i c w) = linfo_egn w"
  "put_context i c (put_context i c' w) = put_context i c w"
  "cworld.more (put_context i c w) = cworld.more w"
  by (simp_all add: put_context_def)

lemma put_engine_contexts [simp]:
  "contexts (put_engine i e w) = contexts w" "cworld.more (put_engine i e w) = cworld.more w"
  by (simp_all add: put_engine_def)

lemma same_more:
  fixes w w' :: "('k, 'z) cworld_scheme"
  assumes "eworld.more w' = eworld.more w"
  shows "contexts w' = contexts w" and "cworld.more w' = cworld.more w"
  using assms by (cases w; cases w'; simp)+

text \<open>How many more handles context \<open>c\<close> takes: the free entries of its queue, and the wake-ups that
  fit in its eventfd.\<close>

definition context_room :: "(int \<Rightarrow> 'k \<Rightarrow> nat) \<Rightarrow> nat \<Rightarrow> ('k, 'z) cworld_scheme \<Rightarrow> nat" where
  "context_room cnt c w = min (queue_size c w - length (queued c w)) ((eventfd_max - efd_count cnt c w) div 2 ^ 44)"

definition contexts_ok :: "'k kernel_ops \<Rightarrow> (int \<Rightarrow> 'k \<Rightarrow> nat) \<Rightarrow> ('k, 'z) cworld_scheme \<Rightarrow> bool" where
  "contexts_ok K cnt w \<longleftrightarrow> eventfd_doc K cnt \<and> (\<forall>c. efd_open c w \<and> queue_inv c w)"

definition context_rest where
  "context_rest w = (w_frames w, w_tasks w, linfo_ctx w, linfo_egn w, eworld.more w)"

lemma context_room_cong:
  "engines w' c = engines w c \<Longrightarrow> context_room cnt c w' = context_room cnt c w"
  by (simp add: context_room_def efd_count_def)

lemma context_submit_ok:
  assumes ok: "contexts_ok K cnt w" and room: "0 < context_room cnt c w" and h: "h \<noteq> nullptr"
  shows "\<exists>w'. context_submit K resume c h w = Inr w' \<and> contexts_ok K cnt w' \<and> queued c w' = queued c w @ [h] \<and>
    context_room cnt c w' = context_room cnt c w - 1 \<and>
    (\<forall>d. d \<noteq> c \<longrightarrow> queued d w' = queued d w \<and> context_room cnt d w' = context_room cnt d w) \<and>
    context_rest w' = context_rest w"
proof -
  have doc: "eventfd_doc K cnt" and c: "efd_open c w" "queue_inv c w" using ok by (simp_all add: contexts_ok_def)
  have q: "length (queued c w) < queue_size c w" using room by (simp add: context_room_def)
  have "0 < (eventfd_max - efd_count cnt c w) div 2 ^ 44" using room by (simp add: context_room_def)
  then have e: "efd_count cnt c w + 2 ^ 44 \<le> eventfd_max" by (simp add: div_greater_zero_iff)
  from submit_task_queued [OF doc c q h e] obtain w' where
    w': "submit_task K resume c h w = Inr w'" "efd_open c w'" "queue_inv c w'" "queued c w' = queued c w @ [h]"
      "queue_size c w' = queue_size c w" "efd_count cnt c w' = efd_count cnt c w + 2 ^ 44"
      "\<forall>d. d \<noteq> c \<longrightarrow> engines w' d = engines w d" "context_rest w' = context_rest w"
    unfolding context_rest_def by blast
  have "(eventfd_max - efd_count cnt c w - 2 ^ 44) div 2 ^ 44 = (eventfd_max - efd_count cnt c w) div 2 ^ 44 - 1"
    using e by (subst (2) le_div_geq) auto
  then have "context_room cnt c w' = context_room cnt c w - 1"
    unfolding context_room_def w'(4,5,6) by (simp add: min_def) linarith
  moreover have "contexts_ok K cnt w'"
    unfolding contexts_ok_def
  proof (intro conjI allI doc)
    fix d show "efd_open d w'" "queue_inv d w'"
      using w' ok by (cases "d = c"; simp add: contexts_ok_def efd_open_def)+
  qed
  moreover have "\<forall>d. d \<noteq> c \<longrightarrow> queued d w' = queued d w \<and> context_room cnt d w' = context_room cnt d w"
    using w'(7) by (auto intro!: context_room_cong)
  ultimately show ?thesis using w'(1,4,8) unfolding context_submit_def by blast
qed

lemma contexts_cong:
  assumes "engines w' = engines w"
  shows "contexts_ok K cnt w' = contexts_ok K cnt w" and "context_room cnt c w' = context_room cnt c w"
  by (simp_all add: assms contexts_ok_def efd_open_def context_room_def efd_count_def)

interpretation ctx: task_sink "context_submit K resume" queued "context_room cnt" "contexts_ok K cnt" context_rest
  by unfold_locales (rule context_submit_ok)

lemma wait_roundtrip: "unregister_wait n i (register_wait n i w) = w"
  by (simp add: register_wait_def unregister_wait_def put_context_def)


text \<open>Running exactly the task \<open>h\<close>, which must be the next in the queue.\<close>

definition run_task_of where
  "run_task_of resume i h v =
     bindE (schedule i v) (\<lambda>(h', v1). if h' = h then exec_task resume h v1 else Inl Assert_failed)"

definition only_appends where
  "only_appends resume i \<longleftrightarrow>
     (\<forall>h v v'. queue_inv i v \<longrightarrow> resume h v = Inr v' \<longrightarrow> queue_inv i v' \<and> (\<exists>ks. queued i v' = queued i v @ ks))"

lemma exec_task_appends:
  assumes "only_appends resume i" and "queue_inv i v" and "exec_task resume h v = Inr v'"
  shows "queue_inv i v' \<and> (\<exists>ks. queued i v' = queued i v @ ks)"
proof -
  from assms(3) obtain v1 where "resume h v = Inr v1" and "engines v' = engines v1"
    by (auto simp: exec_task_def split: if_splits)
  with assms(1,2) show ?thesis unfolding only_appends_def by auto
qed

lemma exec_tasks_in_order:
  assumes app: "only_appends resume i"
  shows "queue_inv i w \<Longrightarrow> queued i w = hs @ ks \<Longrightarrow> nullptr \<notin> set hs \<Longrightarrow>
    forE hs (\<lambda>_. exec_one_task resume i) w = forE hs (run_task_of resume i) w"
proof (induction hs arbitrary: w ks)
  case (Cons h hs)
  have q: "queued i w = h # (hs @ ks)" and h: "h \<noteq> nullptr" using Cons.prems by simp_all
  from schedule_head [OF Cons.prems(1) q h] obtain q where
    sch: "schedule i w = Inr (h, put_engine i ((engines w i)\<lparr>m_task_queue := q\<rparr>) w)" "aq_inv q" "aq_items q = hs @ ks"
    by blast
  let ?w1 = "put_engine i ((engines w i)\<lparr>m_task_queue := q\<rparr>) w"
  have one: "exec_one_task resume i w = exec_task resume h ?w1" "run_task_of resume i h w = exec_task resume h ?w1"
    by (simp_all add: exec_one_task_def run_task_of_def sch)
  show ?case
  proof (cases "exec_task resume h ?w1")
    case (Inl e)
    then show ?thesis by (simp add: one)
  next
    case (Inr w2)
    with exec_task_appends [OF app, of ?w1 h w2] sch obtain ks' where "queue_inv i w2" "queued i w2 = hs @ ks @ ks'"
      by auto
    with Cons.IH Cons.prems(3) Inr show ?thesis by (simp add: one)
  qed
qed simp


text \<open>One turn of a context.\<close>

lemma process_work_tasks:
  assumes "only_appends resume i" and "queue_inv i w" and "nullptr \<notin> set (queued i w)"
  shows "process_work resume i w = forE (queued i w) (run_task_of resume i) w"
proof -
  have "num_task_schedule i w = length (queued i w)"
    using was_size_count(2) [OF assms(2)] by (simp add: num_task_schedule_def)
  then have "process_work resume i w = forE (queued i w) (\<lambda>_. exec_one_task resume i) w"
    unfolding process_work_def by (intro forE_const) simp
  also have "\<dots> = forE (queued i w) (run_task_of resume i) w"
    by (rule exec_tasks_in_order [OF assms(1,2), where ks = "[]"]) (use assms(3) in simp_all)
  finally show ?thesis .
qed

text \<open>A context that runs tasks which only append to its queue is an executor.\<close>

definition executor_ok where
  "executor_ok K cnt resume w \<longleftrightarrow> contexts_ok K cnt w \<and> (\<forall>c. only_appends resume c \<and> nullptr \<notin> set (queued c w))"

interpretation ex: executor "context_submit K resume" queued "context_room cnt" "executor_ok K cnt resume" context_rest
    "process_work resume" "run_task_of resume"
proof unfold_locales
  fix w :: "('a, 'b) cworld_scheme" and c h
  assume ok: "executor_ok K cnt resume w" and room: "0 < context_room cnt c w" and h: "h \<noteq> nullptr"
  then have "contexts_ok K cnt w" by (simp add: executor_ok_def)
  from context_submit_ok [OF this room h, of resume] obtain w' where
    w': "context_submit K resume c h w = Inr w'" "contexts_ok K cnt w'" "queued c w' = queued c w @ [h]"
      "context_room cnt c w' = context_room cnt c w - 1"
      "\<forall>d. d \<noteq> c \<longrightarrow> queued d w' = queued d w \<and> context_room cnt d w' = context_room cnt d w" "context_rest w' = context_rest w" by blast
  have "nullptr \<notin> set (queued d w')" for d
    using ok h w'(3,5) by (cases "d = c") (auto simp: executor_ok_def)
  then have "executor_ok K cnt resume w'" using ok w'(2) by (simp add: executor_ok_def)
  with w' show "\<exists>w'. context_submit K resume c h w = Inr w' \<and> executor_ok K cnt resume w' \<and> queued c w' = queued c w @ [h] \<and>
      context_room cnt c w' = context_room cnt c w - 1 \<and>
      (\<forall>d. d \<noteq> c \<longrightarrow> queued d w' = queued d w \<and> context_room cnt d w' = context_room cnt d w) \<and> context_rest w' = context_rest w"
    by blast
next
  fix w :: "('a, 'b) cworld_scheme" and c
  assume "executor_ok K cnt resume w"
  then show "process_work resume c w = forE (queued c w) (run_task_of resume c) w"
    by (intro process_work_tasks) (simp_all add: executor_ok_def contexts_ok_def)
qed


section \<open>Properties\<close>

text \<open>C15: one call of \<^verbatim>\<open>process_work\<close> runs exactly the tasks that were waiting when it began, each once
  and in queue order; tasks that are submitted meanwhile wait for the next turn.\<close>

theorem process_work_order:
  assumes "only_appends resume i" and "queue_inv i w" and "nullptr \<notin> set (queued i w)"
  shows "process_work resume i w = forE (queued i w) (run_task_of resume i) w"
  using assms by (rule process_work_tasks)

text \<open>A coroutine that runs to its end when it is resumed.\<close>

definition finishing :: "handle \<Rightarrow> ('k, 'z) cworld_scheme \<Rightarrow> ('k, 'z) cworld_scheme result" where
  "finishing h w = Inr (w\<lparr>w_frames := (w_frames w)(h := map_option (f_done_update (\<lambda>_. True)) (w_frames w h))\<rparr>)"

lemma finishing_appends: "only_appends finishing i"
  by (simp add: only_appends_def finishing_def)

definition sample_context :: context_obj where
  "sample_context =
     \<lparr>m_job = Some \<lparr>j_stop = False, j_finished = False\<rparr>, m_id = 0, m_num_wait_task = 0, m_stop_cb = Some (Cb_default 0)\<rparr>"

lemma sample_room:
  "engines w = engines sample_world \<Longrightarrow> contexts_ok sample_kernel (\<lambda>fd k. k) w"
  "engines w = engines sample_world \<Longrightarrow> context_room (\<lambda>fd k. k) c w = 16384"
proof -
  assume e: "engines w = engines sample_world"
  show "contexts_ok sample_kernel (\<lambda>fd k. k) w"
    using sample_queue(1) sample_efd(1) by (simp add: contexts_ok_def sample_eventfd_doc efd_open_def e)
  have "efd_count (\<lambda>fd k. k) c w = 0" using sample_efd(2) [of c] by (simp add: efd_count_def e)
  moreover have "queue_size c w - length (queued c w) = 16384"
    unfolding e using sample_queue(2,3) by simp
  ultimately show "context_room (\<lambda>fd k. k) c w = 16384"
    unfolding context_room_def by (simp add: eventfd_max_def)
qed

definition sample_busy_world :: "nat \<Rightarrow> nat cworld" where
  "sample_busy_world n =
     eworld.extend
       (put_engine 0 (sample_engine\<lparr>m_task_queue := aq_put 7 (AtomicQueue nullptr), m_upxy := sample_proxy\<lparr>m_uring := n\<rparr>\<rparr>)
         (sample_world\<lparr>w_frames := [7 \<mapsto> new_frame\<lparr>f_state := cs_detach\<rparr>], linfo_ctx := Some 0, linfo_egn := Some 0\<rparr>))
       \<lparr>contexts = (\<lambda>_. sample_context)\<rparr>"

lemma sample_busy:
  "queue_inv 0 (sample_busy_world n)" "queued 0 (sample_busy_world n) = [7]"
  "m_upxy (engines (sample_busy_world n) 0) = sample_proxy\<lparr>m_uring := n\<rparr>"
  "m_num_io_wait_submit (engines (sample_busy_world n) 0) = 0" "m_num_io_running (engines (sample_busy_world n) 0) = 0"
  "contexts (sample_busy_world n) = (\<lambda>_. sample_context)"
  "w_frames (sample_busy_world n) = [7 \<mapsto> new_frame\<lparr>f_state := cs_detach\<rparr>]"
proof -
  let ?q = "AtomicQueueB2 (of_nat 16384) (0 :: nat)"
  have q: "m_task_queue (engines (sample_busy_world n) 0) = aq_put 7 ?q"
    by (simp add: sample_busy_world_def eworld.defs AtomicQueue_def kQueCap_def)
  have inv: "aq_inv ?q" and it: "aq_items ?q = []" by (rule AtomicQueueB2_inv; simp)+
  have sz: "unat (aq_size ?q) = 16384" by code_simp
  have "length (aq_items ?q) \<noteq> unat (aq_size ?q)" unfolding it sz by simp
  then have "\<not> was_full ?q" using aq.full_iff [OF inv] by blast
  from aq.inv_put [OF inv this] aq.items_put [OF inv this] it
  show "queue_inv 0 (sample_busy_world n)" "queued 0 (sample_busy_world n) = [7]" unfolding q by simp_all
qed (simp_all add: sample_busy_world_def eworld.defs sample_engine_def)

theorem process_work_order_witness:
  "process_work finishing 0 (sample_busy_world 0) = forE [7] (run_task_of finishing 0) (sample_busy_world 0)"
  using process_work_order [OF finishing_appends sample_busy(1)] by (simp add: sample_busy)

text \<open>User code that, resumed at \<open>h\<close>, leaves the engines alone, gives up \<open>n\<close> registered waits of context \<open>i\<close> (its
  \<^verbatim>\<open>await_resume\<close>) and runs to its end; what else it does to frames, tasks and shared data is open.\<close>

definition finishes where
  "finishes resume i h n \<longleftrightarrow>
     (\<forall>v f. w_frames v h = Some f \<longrightarrow>
        (\<exists>v' f'. resume h v = Inr v' \<and> engines v' = engines v \<and> contexts v' = contexts (unregister_wait n i v) \<and>
           w_frames v' h = Some f' \<and> f_done f' \<and> is_detach f' = is_detach f))"

text \<open>The last turn of a worker with the default callback: the task runs, its frame is freed, the stop is
  requested, and the worker polls.\<close>

lemma last_turn:
  fixes w :: "('k, 'z) cworld_scheme"
  assumes inv: "queue_inv i w" and q: "queued i w = [h]"
    and h: "h \<noteq> nullptr" "w_frames w h = Some f" "is_detach f" and fin: "finishes resume i h n"
    and ctx: "contexts w i = \<lparr>m_job = Some \<lparr>j_stop = False, j_finished = x\<rparr>, m_id = d, m_num_wait_task = of_int n, m_stop_cb = Some (Cb_default i)\<rparr>"
    and io: "m_num_io_wait_submit (engines w i) = 0" "m_num_io_running (engines w i) = 0"
  shows "\<exists>w2. run_once K resume cb sched i w = poll_work K cb i w2 \<and> stop_requested i w2 \<and> w_frames w2 h = None \<and> queued i w2 = [] \<and>
    m_upxy (engines w2 i) = m_upxy (engines w i) \<and> m_num_io_wait_submit (engines w2 i) = 0 \<and> m_num_io_running (engines w2 i) = 0"
proof -
  from schedule_head [OF inv q h(1)] obtain q' where
    sch: "schedule i w = Inr (h, put_engine i ((engines w i)\<lparr>m_task_queue := q'\<rparr>) w)" "aq_inv q'" "aq_items q' = []" by blast
  let ?v = "put_engine i ((engines w i)\<lparr>m_task_queue := q'\<rparr>) w"
  from fin h(2) obtain v f' where v: "resume h ?v = Inr v" "engines v = engines ?v" "contexts v = contexts (unregister_wait n i ?v)"
    "w_frames v h = Some f'" "f_done f'" "is_detach f'"
    using h(3) unfolding finishes_def by (metis put_engine_simps(2))
  let ?w1 = "v\<lparr>w_frames := (w_frames v)(h := None)\<rparr>"
  have "num_task_schedule i w = 1"
    using was_size_count(2) [OF inv] q by (metis length_aq_items num_task_schedule_def length_Cons list.size(3) One_nat_def)
  then have work: "process_work resume i w = Inr ?w1"
    using h v by (simp add: process_work_def exec_one_task_def sch exec_task_def is_done_def clean_eq is_detach_def)
  have idle: "empty_wait_task i ?w1" "\<not> ready i ?w1"
    using ctx io sch v by (simp_all add: empty_wait_task_def empty_io_def ready_def was_empty_items unregister_wait_def)
  let ?w2 = "put_context i (contexts v i\<lparr>m_job := Some \<lparr>j_stop = True, j_finished = x\<rparr>\<rparr>) ?w1"
  have "call_stop_cb sched i ?w1 = Inr ?w2"
    using ctx v by (simp add: call_stop_cb_def request_stop_def unregister_wait_def)
  then have "run_once K resume cb sched i w = poll_work K cb i ?w2" by (simp add: run_once_def work idle)
  then show ?thesis using v sch io by (intro exI [of _ ?w2]) (simp add: stop_requested_def)
qed

text \<open>C33: a context without a scheduler, idle but for one coroutine \<open>h\<close> that waits for something with \<open>n\<close>
  registered waits (\<open>n = 0\<close>: that has not started yet), is given \<open>h\<close> by another thread; \<open>h\<close> then runs to
  its end, whatever it does. If the worker begins its turn before it has read the wake-up, the loop
  frees the frame, requests its own stop and returns. If the worker was asleep in its poll, that poll
  returns, the turn runs \<open>h\<close>, frees the frame and requests the stop, and then the worker
  polls again, for an event nobody will send: the thread never ends, with its stop requested.\<close>

theorem run_single_task:
  fixes w :: "('k, 'z) cworld_scheme"
  assumes doc: "eventfd_doc K cnt" and efd: "efd_open i w" "efd_count cnt i w = 0" and inv: "queue_inv i w" and q: "queued i w = []"
    and h: "h \<noteq> nullptr" "w_frames w h = Some f" "is_detach f" and fin: "finishes resume i h n"
    and ctx: "contexts w i = \<lparr>m_job = Some \<lparr>j_stop = False, j_finished = x\<rparr>, m_id = d, m_num_wait_task = of_int n, m_stop_cb = Some (Cb_default i)\<rparr>"
    and io: "m_num_io_wait_submit (engines w i) = 0" "m_num_io_running (engines w i) = 0"
  shows "poll_work K cb i w = Inl Blocks \<and> (\<exists>w1. context_submit K resume i h w = Inr w1 \<and>
    (\<exists>w'. run K resume cb sched i w1 = Some (Inr w') \<and> w_frames w' h = None \<and> stop_requested i w') \<and>
    (\<exists>w2 w3. poll_work K cb i w1 = Inr w2 \<and> run_once K resume cb sched i w2 = poll_work K cb i w3 \<and>
       stop_requested i w3 \<and> w_frames w3 h = None \<and> queued i w3 = [] \<and>
       poll_work K cb i w3 = Inl Blocks \<and> run K resume cb sched i w2 = Some (Inl Blocks)))"
proof -
  have sleeps: "poll_work K cb i w = Inl Blocks"
    unfolding poll_work_def by (rule poll_submit_sleeps [OF doc efd(1) io(1) efd(2)])
  have "length (queued i w) < queue_size i w" "efd_count cnt i w + 2 ^ 44 \<le> eventfd_max"
    using aq_sizes(2) [OF inv] q efd(2) by (simp_all add: eventfd_max_def del: length_aq_items)
  from submit_task_queued [OF doc efd(1) inv this(1) h(1) this(2), of resume] obtain w1 q1 u1 where
    w1: "context_submit K resume i h w = Inr w1" "efd_open i w1" "queue_inv i w1" "queued i w1 = [h]" "efd_count cnt i w1 = 2 ^ 44"
      "w_frames w1 = w_frames w" "contexts w1 = contexts w" and e1: "engines w1 i = (engines w i)\<lparr>m_task_queue := q1, m_upxy := u1\<rparr>"
    unfolding context_submit_def using q efd(2) by (auto dest!: same_more(1))
  have io1: "m_num_io_wait_submit (engines w1 i) = 0" "m_num_io_running (engines w1 i) = 0" using io e1 by simp_all
  have h1: "w_frames w1 h = Some f" and ctx1: "contexts w1 i = \<lparr>m_job = Some \<lparr>j_stop = False, j_finished = x\<rparr>, m_id = d,
      m_num_wait_task = of_int n, m_stop_cb = Some (Cb_default i)\<rparr>" using w1 h ctx by simp_all
  have ns: "\<not> stop_requested i w1" using ctx1 by (simp add: stop_requested_def)
  from last_turn [OF w1(3,4) h(1) h1 h(3) fin ctx1 io1, of K cb sched] obtain v where
    v: "run_once K resume cb sched i w1 = poll_work K cb i v" "stop_requested i v" "w_frames v h = None"
      "m_upxy (engines v i) = m_upxy (engines w1 i)" "m_num_io_wait_submit (engines v i) = 0" by blast
  have "efd_open i v" "efd_count cnt i v = 1 * 2 ^ 44" using w1(2,5) v(4) by (simp_all add: efd_open_def efd_count_def)
  from poll_submit_tasks [OF doc this(1) v(5) this(2), of cb] obtain u where
    u: "poll_work K cb i v = Inr (put_engine i ((engines v i)\<lparr>m_upxy := u\<rparr>) v)" by (auto simp: poll_work_def)
  let ?v = "put_engine i ((engines v i)\<lparr>m_upxy := u\<rparr>) v"
  have stop: "stop_requested i ?v" using v(2) by (simp add: stop_requested_def)
  have "run K resume cb sched i w1 = Some (Inr ?v)"
    using ns stop by (subst run.simps) (simp add: v(1) u run.simps [of _ _ _ _ _ ?v])
  then have returns: "\<exists>w'. run K resume cb sched i w1 = Some (Inr w') \<and> w_frames w' h = None \<and> stop_requested i w'"
    using v(3) stop by auto
  have "efd_count cnt i w1 = 1 * 2 ^ 44" using w1(5) by simp
  from poll_submit_tasks [OF doc w1(2) io1(1) this, of cb] obtain u2 where
    u2: "poll_work K cb i w1 = Inr (put_engine i ((engines w1 i)\<lparr>m_upxy := u2\<rparr>) w1)" "m_efd u2 = m_efd (m_upxy (engines w1 i))"
      "cnt (m_efd u2) (m_uring u2) = 0" by (auto simp: poll_work_def)
  let ?w2 = "put_engine i ((engines w1 i)\<lparr>m_upxy := u2\<rparr>) w1"
  have w2: "queue_inv i ?w2" "queued i ?w2 = [h]" "w_frames ?w2 h = Some f" "contexts ?w2 = contexts w1"
    "m_num_io_wait_submit (engines ?w2 i) = 0" "m_num_io_running (engines ?w2 i) = 0" using w1 h1 io1 by simp_all
  from last_turn [OF w2(1,2) h(1) w2(3) h(3) fin ctx1 [folded w2(4)] w2(5,6), of K cb sched] obtain w3 where
    w3: "run_once K resume cb sched i ?w2 = poll_work K cb i w3" "stop_requested i w3" "w_frames w3 h = None" "queued i w3 = []"
      "m_upxy (engines w3 i) = u2" "m_num_io_wait_submit (engines w3 i) = 0" by auto
  have "efd_open i w3" "efd_count cnt i w3 = 0" using w1(2) u2(2,3) w3(5) by (simp_all add: efd_open_def efd_count_def)
  from poll_submit_sleeps [OF doc this(1) w3(6) this(2)] have b: "poll_work K cb i w3 = Inl Blocks" unfolding poll_work_def .
  have "\<not> stop_requested i ?w2" using ns by (simp add: stop_requested_def)
  then have "run K resume cb sched i ?w2 = Some (Inl Blocks)" by (subst run.simps) (simp add: w3(1) b)
  then show ?thesis using sleeps w1(1) returns u2(1) w3(1-4) b by blast
qed

text \<open>A coroutine that leaves one registered wait and runs to its end.\<close>

definition leaving :: "handle \<Rightarrow> ('k, 'z) cworld_scheme \<Rightarrow> ('k, 'z) cworld_scheme result" where
  "leaving h w = finishing h (unregister_wait 1 0 w)"

lemma leaving_finishes: "finishes leaving 0 h 1"
  by (simp add: finishes_def leaving_def finishing_def is_detach_def unregister_wait_def)

definition sample_waiting_world :: "nat cworld" where
  "sample_waiting_world =
     eworld.extend (sample_world\<lparr>w_frames := [7 \<mapsto> new_frame\<lparr>f_state := cs_detach\<rparr>]\<rparr>)
       \<lparr>contexts = (\<lambda>_. sample_context\<lparr>m_num_wait_task := 1\<rparr>)\<rparr>"

theorem run_single_task_witness:
  "\<exists>w1 w2 w3. context_submit sample_kernel leaving 0 7 sample_waiting_world = Inr w1 \<and>
    poll_work sample_kernel (\<lambda>d r v. Inr v) 0 w1 = Inr w2 \<and>
    run_once sample_kernel leaving (\<lambda>d r v. Inr v) (\<lambda>i v. Inr v) 0 w2 = poll_work sample_kernel (\<lambda>d r v. Inr v) 0 w3 \<and>
    stop_requested 0 w3 \<and> run sample_kernel leaving (\<lambda>d r v. Inr v) (\<lambda>i v. Inr v) 0 w2 = Some (Inl Blocks)"
proof -
  let ?w = sample_waiting_world
  have e: "engines ?w = engines sample_world" by (simp add: sample_waiting_world_def eworld.defs)
  have c: "contexts ?w 0 = \<lparr>m_job = Some \<lparr>j_stop = False, j_finished = False\<rparr>, m_id = 0, m_num_wait_task = of_int 1, m_stop_cb = Some (Cb_default 0)\<rparr>"
    by (simp add: sample_waiting_world_def eworld.defs sample_context_def)
  have efd: "efd_open 0 ?w" "efd_count (\<lambda>fd k. k) 0 ?w = 0"
    using sample_efd [of 0] by (simp_all add: efd_open_def efd_count_def e)
  have f: "w_frames ?w 7 = Some (new_frame\<lparr>f_state := cs_detach\<rparr>)" "is_detach (new_frame\<lparr>f_state := cs_detach\<rparr>)" "(7 :: nat) \<noteq> 0"
    by (simp_all add: sample_waiting_world_def eworld.defs is_detach_def)
  have io: "m_num_io_wait_submit (engines ?w 0) = 0" "m_num_io_running (engines ?w 0) = 0"
    by (simp_all add: e sample_world_def sample_engine_def)
  have qs: "queue_inv 0 ?w" "queued 0 ?w = []" unfolding e by (rule sample_queue)+
  from run_single_task [OF sample_eventfd_doc efd qs f(3,1,2) leaving_finishes c io,
      of "\<lambda>d r v. Inr v" "\<lambda>i v. Inr v"] show ?thesis by blast
qed

end
