(* ===== verification/Worker_Loop.thy ===== *)
theory Worker_Loop
  imports Context
begin

text \<open>
  The worker loop of \<^verbatim>\<open>src/context.cpp\<close> never fails on its own and never sleeps on work. \<open>worker_ok\<close> says that the
  worker's queue, eventfd, thread and callback are well formed; \<open>code_safe\<close>, that the code the loop calls (coroutines, completion
  callbacks, the scheduler's stop callback) keeps it so, fails only in the ways \<open>E\<close>, and raises the eventfd when it queues a task.
  Whatever the loop does then, it stays well formed and adds no failures but \<open>own_errors\<close>: a resumed frame that was destroyed,
  more completions than the array takes, and waiting for an eventfd at zero with an empty queue.
\<close>

definition worker_ok :: "'k kernel_ops \<Rightarrow> (int \<Rightarrow> 'k \<Rightarrow> nat) \<Rightarrow> nat \<Rightarrow> ('k, 'z) cworld_scheme \<Rightarrow> bool" where
  "worker_ok K cnt i w \<longleftrightarrow> eventfd_doc K cnt \<and> efd_open i w \<and> queue_inv i w \<and> nullptr \<notin> set (queued i w) \<and>
     m_job (contexts w i) \<noteq> None \<and> (m_stop_cb (contexts w i) = Some (Cb_default i) \<or> m_stop_cb (contexts w i) = Some (Cb_scheduler i))"

definition own_errors :: "error set" where
  "own_errors = {Use_after_free, Blocks, Out_of_bounds}"

text \<open>Code that runs on the worker never takes from its eventfd (only the poll does), and wakes it
  when it queues something.\<close>

definition wakes :: "(int \<Rightarrow> 'k \<Rightarrow> nat) \<Rightarrow> nat \<Rightarrow> ('k, 'z) cworld_scheme \<Rightarrow> ('k, 'z) cworld_scheme \<Rightarrow> bool" where
  "wakes cnt i v v' \<longleftrightarrow> efd_count cnt i v \<le> efd_count cnt i v' \<and> (queued i v' \<noteq> queued i v \<longrightarrow> 0 < efd_count cnt i v')"

lemma worker_ok_engine:
  "worker_ok K cnt i w \<Longrightarrow> m_efd (m_upxy e) = m_efd (m_upxy (engines w i)) \<Longrightarrow> aq_inv (m_task_queue e) \<Longrightarrow>
    nullptr \<notin> set (aq_items (m_task_queue e)) \<Longrightarrow> worker_ok K cnt i (put_engine i e w)"
  by (simp add: worker_ok_def efd_open_def)

lemma worker_ok_frames: "worker_ok K cnt i (w\<lparr>w_frames := fs\<rparr>) = worker_ok K cnt i w"
  by (simp add: worker_ok_def efd_open_def)

lemma exec_task_safe:
  assumes "safe (worker_ok K cnt i) E (resume h w)" and "h \<noteq> nullptr"
  shows "safe (worker_ok K cnt i) (E \<union> {Use_after_free}) (exec_task resume h w)"
proof -
  have "safe (worker_ok K cnt i) (E \<union> {Use_after_free}) (resume h w)" using assms(1) by (rule safe_mono) auto
  then show ?thesis unfolding exec_task_def
  proof (rule safe_bind)
    fix w1 assume "worker_ok K cnt i w1"
    with assms(2) show "safe (worker_ok K cnt i) (E \<union> {Use_after_free}) (bindE (is_done h (w_frames w1))
        (\<lambda>d. if d then bindE (clean h (w_frames w1)) (\<lambda>fs. Inr (w1\<lparr>w_frames := fs\<rparr>)) else Inr w1))"
      by (cases "w_frames w1 h") (auto simp: is_done_def clean_eq worker_ok_frames)
  qed
qed

lemma exec_task_wakes:
  assumes "\<And>v'. resume h w = Inr v' \<Longrightarrow> wakes cnt i w v'" and "exec_task resume h w = Inr w'"
  shows "wakes cnt i w w'"
proof -
  from assms(2) obtain v where "resume h w = Inr v" and "engines w' = engines v" by (auto simp: exec_task_def split: if_splits)
  with assms(1) [of v] show ?thesis by (simp add: wakes_def efd_count_def)
qed

text \<open>What one pass over the tasks \<open>hs\<close> at the front of the queue leaves: the tasks \<open>ks\<close> behind them and
  those queued meanwhile, and in that case a wake-up to read.\<close>

lemma process_tasks:
  assumes app: "only_appends resume i" and user: "\<And>h v. h \<noteq> nullptr \<Longrightarrow> worker_ok K cnt i v \<Longrightarrow>
      safe (\<lambda>v'. worker_ok K cnt i v' \<and> wakes cnt i v v') E (resume h v)"
  shows "queued i w = hs @ ks \<Longrightarrow> worker_ok K cnt i w \<Longrightarrow>
      safe (\<lambda>w'. worker_ok K cnt i w' \<and> efd_count cnt i w \<le> efd_count cnt i w' \<and> (queued i w' = ks \<or> 0 < efd_count cnt i w'))
        (E \<union> {Use_after_free}) (forE hs (\<lambda>_. exec_one_task resume i) w)"
proof (induction hs arbitrary: w ks)
  case (Cons h hs)
  have q: "queued i w = h # (hs @ ks)" and inv: "queue_inv i w" and h: "h \<noteq> nullptr"
    using Cons.prems by (auto simp: worker_ok_def)
  from schedule_head [OF inv q h] obtain q' where
    sch: "schedule i w = Inr (h, put_engine i ((engines w i)\<lparr>m_task_queue := q'\<rparr>) w)" "aq_inv q'" "aq_items q' = hs @ ks" by blast
  let ?w1 = "put_engine i ((engines w i)\<lparr>m_task_queue := q'\<rparr>) w"
  have ok1: "worker_ok K cnt i ?w1" using Cons.prems sch(2,3) q by (intro worker_ok_engine) (auto simp: worker_ok_def)
  have one: "exec_one_task resume i w = exec_task resume h ?w1" by (simp add: exec_one_task_def sch)
  have safe1: "safe (worker_ok K cnt i) (E \<union> {Use_after_free}) (exec_task resume h ?w1)"
    by (rule exec_task_safe) (use safe_mono [OF user [OF h ok1], of "worker_ok K cnt i" E] h in simp_all)
  show ?case
  proof (cases "exec_task resume h ?w1")
    case (Inr w2)
    have wk: "wakes cnt i ?w1 w2" using exec_task_wakes [OF _ Inr] user [OF h ok1] by (metis (mono_tags, lifting) safe_simps(1))
    from exec_task_appends [OF app, of ?w1 h w2] sch Inr obtain ks' where q2: "queued i w2 = hs @ ks @ ks'" by auto
    then have "safe (\<lambda>w'. worker_ok K cnt i w' \<and> efd_count cnt i w2 \<le> efd_count cnt i w' \<and>
        (queued i w' = ks @ ks' \<or> 0 < efd_count cnt i w')) (E \<union> {Use_after_free}) (forE hs (\<lambda>_. exec_one_task resume i) w2)"
      using Cons.IH [of w2 "ks @ ks'"] Inr safe1 by simp
    moreover have "efd_count cnt i w \<le> efd_count cnt i w2" "ks' \<noteq> [] \<longrightarrow> 0 < efd_count cnt i w2"
      using wk q2 sch(3) by (auto simp: wakes_def efd_count_def)
    ultimately have "safe (\<lambda>w'. worker_ok K cnt i w' \<and> efd_count cnt i w \<le> efd_count cnt i w' \<and>
        (queued i w' = ks \<or> 0 < efd_count cnt i w')) (E \<union> {Use_after_free}) (forE hs (\<lambda>_. exec_one_task resume i) w2)"
      by (elim safe_mono) auto
    then show ?thesis by (simp add: one Inr)
  qed (use safe1 one in simp)
qed simp

lemma process_work_safe:
  assumes app: "only_appends resume i" and user: "\<And>h v. h \<noteq> nullptr \<Longrightarrow> worker_ok K cnt i v \<Longrightarrow>
      safe (\<lambda>v'. worker_ok K cnt i v' \<and> wakes cnt i v v') E (resume h v)" and ok: "worker_ok K cnt i w"
  shows "safe (\<lambda>w'. worker_ok K cnt i w' \<and> (queued i w' = [] \<or> 0 < efd_count cnt i w')) (E \<union> {Use_after_free}) (process_work resume i w)"
proof -
  have "num_task_schedule i w = length (queued i w)" using ok was_size_count(2) by (auto simp: num_task_schedule_def worker_ok_def)
  then have "process_work resume i w = forE (queued i w) (\<lambda>_. exec_one_task resume i) w"
    unfolding process_work_def by (intro forE_const) simp
  moreover have "safe (\<lambda>w'. worker_ok K cnt i w' \<and> efd_count cnt i w \<le> efd_count cnt i w' \<and> (queued i w' = [] \<or> 0 < efd_count cnt i w'))
      (E \<union> {Use_after_free}) (forE (queued i w) (\<lambda>_. exec_one_task resume i) w)"
    by (rule process_tasks [OF app user _ ok]) simp_all
  ultimately show ?thesis by (auto elim: safe_mono)
qed

text \<open>The poll fails only as the callbacks do, when there are more completions than its array takes, or by
  waiting for an eventfd at zero.\<close>

definition poll_errors :: "(int \<Rightarrow> 'k \<Rightarrow> nat) \<Rightarrow> nat \<Rightarrow> ('k, 'z) cworld_scheme \<Rightarrow> error set" where
  "poll_errors cnt i w = {Out_of_bounds} \<union> (if efd_count cnt i w = 0 then {Blocks} else {})"

lemma poll_work_safe:
  assumes ok: "worker_ok K cnt i w" and sub: "submit_doc K cnt" and cb: "\<And>d r v. worker_ok K cnt i v \<Longrightarrow> safe (worker_ok K cnt i) E (cb d r v)"
  shows "safe (worker_ok K cnt i) (E \<union> poll_errors cnt i w) (poll_work K cb i w)"
proof -
  let ?w1 = "do_io_submit K i w"
  have w1: "m_task_queue (engines ?w1 i) = m_task_queue (engines w i)" "m_efd (m_upxy (engines ?w1 i)) = m_efd (m_upxy (engines w i))"
    "contexts ?w1 = contexts w" by (auto simp: do_io_submit_def Let_def submit_def split: prod.split)
  then have ok1: "worker_ok K cnt i ?w1" using ok by (simp add: worker_ok_def efd_open_def)
  have le: "efd_count cnt i w \<le> efd_count cnt i ?w1"
    using sub by (auto simp: submit_doc_def efd_count_def do_io_submit_eq)
  show ?thesis
  proof (cases "wait_eventfd K (m_upxy (engines ?w1 i))")
    case (Inl e)
    then have "e = Blocks \<and> efd_count cnt i ?w1 = 0" using ok1 wait_eventfd_reads [of K cnt i ?w1]
      by (cases "efd_count cnt i ?w1 = 0") (auto simp: worker_ok_def wait_eventfd_def eventfd_doc_def efd_count_def efd_open_def)
    with Inl le show ?thesis by (simp add: poll_work_def poll_submit_def Let_def poll_errors_def)
  next
    case (Inr vp)
    obtain v p where vp: "vp = (v, p)" by (rule prod.exhaust)
    have "m_efd p = m_efd (m_upxy (engines ?w1 i))" using Inr vp by (auto simp: wait_eventfd_def split: option.splits if_splits)
    then have ok2: "worker_ok K cnt i (put_engine i ((engines ?w1 i)\<lparr>m_upxy := p, m_urc := cs\<rparr>) ?w1)"
      "worker_ok K cnt i (put_engine i ((engines ?w1 i)\<lparr>m_upxy := p\<rparr>) ?w1)" for cs
      using ok1 by (auto simp: worker_ok_def efd_open_def)
    have end_ok: "worker_ok K cnt i (put_engine i ((engines w3 i)\<lparr>m_upxy := cq_advance K n (m_upxy (engines w3 i)), m_num_io_running := m\<rparr>) w3)"
      if "worker_ok K cnt i w3" for w3 n m
      using that by (intro worker_ok_engine) (auto simp: worker_ok_def cq_advance_def)
    have "safe (worker_ok K cnt i) (E \<union> poll_errors cnt i w) (forE cqes (handle_cqe_entry cb) v)" if "worker_ok K cnt i v" for cqes v
      using that by (intro safe_forE) (auto simp: handle_cqe_entry_def intro: safe_mono [OF cb])
    moreover have "Out_of_bounds \<in> poll_errors cnt i w" by (simp add: poll_errors_def)
    ultimately show ?thesis using Inr vp ok2 end_ok
      by (auto simp: poll_work_def poll_submit_def Let_def intro!: safe_bind)
  qed
qed

lemma call_stop_cb_safe:
  assumes ok: "worker_ok K cnt i w"
    and sched: "\<And>v. worker_ok K cnt i v \<Longrightarrow> safe (\<lambda>v'. worker_ok K cnt i v' \<and> wakes cnt i v v') E (sched i v)"
  shows "safe (\<lambda>w'. worker_ok K cnt i w' \<and> efd_count cnt i w \<le> efd_count cnt i w') E (call_stop_cb sched i w)"
  using ok safe_mono [OF sched [OF ok], of "\<lambda>w'. worker_ok K cnt i w' \<and> efd_count cnt i w \<le> efd_count cnt i w'" E]
  by (auto simp: call_stop_cb_def request_stop_def worker_ok_def efd_open_def efd_count_def wakes_def)

definition code_safe where
  "code_safe K cnt i E resume cb sched \<longleftrightarrow> only_appends resume i \<and>
     (\<forall>h v. h \<noteq> nullptr \<longrightarrow> worker_ok K cnt i v \<longrightarrow> safe (\<lambda>v'. worker_ok K cnt i v' \<and> wakes cnt i v v') E (resume h v)) \<and>
     (\<forall>d r v. worker_ok K cnt i v \<longrightarrow> safe (worker_ok K cnt i) E (cb d r v)) \<and>
     (\<forall>v. worker_ok K cnt i v \<longrightarrow> safe (\<lambda>v'. worker_ok K cnt i v' \<and> wakes cnt i v v') E (sched i v))"

text \<open>The turn after the tasks have run: which of its three ways the loop takes, and how it may fail.\<close>

lemma run_once_after:
  assumes "process_work resume i w = Inr w1" and "queue_inv i w1"
  shows "run_once K resume cb sched i w =
    (if m_num_wait_task (contexts w1 i) = 0 \<and> m_num_io_wait_submit (engines w1 i) = 0 \<and> m_num_io_running (engines w1 i) = 0
     then if queued i w1 = [] then bindE (call_stop_cb sched i w1) (poll_work K cb i) else Inr w1
     else poll_work K cb i w1)"
  using assms by (simp add: run_once_def empty_wait_task_def empty_io_def ready_def was_empty_items)

lemma run_once_safe:
  assumes ok: "worker_ok K cnt i w" and code: "code_safe K cnt i E resume cb sched" and sub: "submit_doc K cnt"
    and w1: "process_work resume i w = Inr w1"
  shows "worker_ok K cnt i w1 \<and> safe (worker_ok K cnt i)
    (E \<union> {Out_of_bounds} \<union> (if queued i w1 = [] \<and> efd_count cnt i w1 = 0 then {Blocks} else {})) (run_once K resume cb sched i w)"
    (is "_ \<and> safe _ ?F _")
proof
  have "safe (\<lambda>w'. worker_ok K cnt i w' \<and> (queued i w' = [] \<or> 0 < efd_count cnt i w')) (E \<union> {Use_after_free}) (process_work resume i w)"
    by (rule process_work_safe) (use ok code in \<open>auto simp: code_safe_def\<close>)
  then have ok1: "worker_ok K cnt i w1" and empty: "efd_count cnt i w1 = 0 \<longrightarrow> queued i w1 = []" using w1 by auto
  show "worker_ok K cnt i w1" by (rule ok1)
  have poll: "safe (worker_ok K cnt i) ?F (poll_work K cb i v)" if "worker_ok K cnt i v" "efd_count cnt i w1 \<le> efd_count cnt i v" for v
    by (rule safe_mono [OF poll_work_safe [OF that(1) sub, of E]]) (use code that(2) empty in \<open>auto simp: code_safe_def poll_errors_def\<close>)
  have "safe (\<lambda>w'. worker_ok K cnt i w' \<and> efd_count cnt i w1 \<le> efd_count cnt i w') ?F (call_stop_cb sched i w1)"
    by (rule safe_mono [OF call_stop_cb_safe [OF ok1, where sched = sched and E = E]]) (use code in \<open>auto simp: code_safe_def\<close>)
  then have "safe (worker_ok K cnt i) ?F (bindE (call_stop_cb sched i w1) (poll_work K cb i))"
    by (rule safe_bind) (use poll in blast)
  moreover have "queue_inv i w1" using ok1 by (simp add: worker_ok_def)
  ultimately show "safe (worker_ok K cnt i) ?F (run_once K resume cb sched i w)"
    using poll [OF ok1 order_refl] ok1 by (subst run_once_after [OF w1]) (assumption, simp only: if_splits safe_simps simp_thms split: if_split)
qed

lemma run_once_ends:
  assumes ok: "worker_ok K cnt i w" and code: "code_safe K cnt i E resume cb sched" and sub: "submit_doc K cnt"
  shows "safe (worker_ok K cnt i) (E \<union> own_errors) (run_once K resume cb sched i w)"
proof (cases "process_work resume i w")
  case (Inl e)
  moreover have "safe (\<lambda>w'. worker_ok K cnt i w' \<and> (queued i w' = [] \<or> 0 < efd_count cnt i w')) (E \<union> {Use_after_free}) (process_work resume i w)"
    by (rule process_work_safe) (use ok code in \<open>auto simp: code_safe_def\<close>)
  ultimately show ?thesis by (auto simp: run_once_def own_errors_def)
next
  case (Inr w1)
  show ?thesis by (rule safe_mono [OF conjunct2 [OF run_once_safe [OF assms Inr]]]) (auto simp: own_errors_def)
qed

lemma run_safe:
  assumes "run K resume cb sched i w = Some r"
  shows "worker_ok K cnt i w \<and> code_safe K cnt i E resume cb sched \<and> submit_doc K cnt \<longrightarrow>
    safe (\<lambda>w'. worker_ok K cnt i w' \<and> stop_requested i w') (E \<union> own_errors) r"
proof (rule run.raw_induct [OF _ assms], intro impI, goal_cases)
  case (1 f K resume cb sched i w r)
  then have once: "safe (worker_ok K cnt i) (E \<union> own_errors) (run_once K resume cb sched i w)" by (blast intro: run_once_ends)
  show ?case
  proof (cases "run_once K resume cb sched i w")
    case (Inl e)
    with 1(2) have "r = (if stop_requested i w then Inr w else Inl e)" by (simp split: if_splits)
    with 1(3) once Inl show ?thesis by simp
  next
    case (Inr w')
    with 1 once show ?thesis by (auto split: if_splits)
  qed
qed

text \<open>C16: the worker loop neither fails on its own nor sleeps on work. From a well-formed state, with user
  code that keeps states well formed, fails only in the ways \<open>E\<close> and wakes the worker when it queues
  something: running the queued tasks adds no failure but the use of a destroyed frame, so the
  queue is never popped empty; if this leaves \<open>w1\<close>, the turn goes straight on when only tasks are
  left, polls when coroutines wait or I/O is open, and calls the stop callback before it polls
  exactly when nothing at all is left (a worker with the default callback has then requested its stop);
  the rest of the turn fails only as user code does or with more completions than the poll's
  array takes, and it sleeps only with an empty queue and an eventfd at zero. The loop ends only with the stop requested.\<close>

theorem worker_loop_safe:
  assumes "worker_ok K cnt i w" and "code_safe K cnt i E resume cb sched" and "submit_doc K cnt"
  shows "safe (worker_ok K cnt i) (E \<union> {Use_after_free}) (process_work resume i w) \<and>
    (\<forall>w1. process_work resume i w = Inr w1 \<longrightarrow>
       run_once K resume cb sched i w =
         (if m_num_wait_task (contexts w1 i) = 0 \<and> m_num_io_wait_submit (engines w1 i) = 0 \<and> m_num_io_running (engines w1 i) = 0
          then if queued i w1 = [] then bindE (call_stop_cb sched i w1) (poll_work K cb i) else Inr w1
          else poll_work K cb i w1) \<and>
       (m_stop_cb (contexts w1 i) = Some (Cb_default i) \<longrightarrow> (\<exists>w2. call_stop_cb sched i w1 = Inr w2 \<and> stop_requested i w2)) \<and>
       safe (worker_ok K cnt i) (E \<union> {Out_of_bounds} \<union> (if queued i w1 = [] \<and> efd_count cnt i w1 = 0 then {Blocks} else {}))
         (run_once K resume cb sched i w)) \<and>
    (\<forall>r. run K resume cb sched i w = Some r \<longrightarrow>
      safe (\<lambda>w'. worker_ok K cnt i w' \<and> stop_requested i w') (E \<union> own_errors) r)"
proof (intro conjI allI impI)
  have "safe (\<lambda>w'. worker_ok K cnt i w' \<and> (queued i w' = [] \<or> 0 < efd_count cnt i w')) (E \<union> {Use_after_free}) (process_work resume i w)"
    by (rule process_work_safe) (use assms(1,2) in \<open>auto simp: code_safe_def\<close>)
  then show "safe (worker_ok K cnt i) (E \<union> {Use_after_free}) (process_work resume i w)" by (rule safe_mono) auto
next
  fix w1 assume w1: "process_work resume i w = Inr w1"
  note after = run_once_safe [OF assms w1]
  then have ok: "worker_ok K cnt i w1" by simp
  then show "run_once K resume cb sched i w =
      (if m_num_wait_task (contexts w1 i) = 0 \<and> m_num_io_wait_submit (engines w1 i) = 0 \<and> m_num_io_running (engines w1 i) = 0
       then if queued i w1 = [] then bindE (call_stop_cb sched i w1) (poll_work K cb i) else Inr w1
       else poll_work K cb i w1)" by (intro run_once_after [OF w1]) (simp add: worker_ok_def)
  show "safe (worker_ok K cnt i) (E \<union> {Out_of_bounds} \<union> (if queued i w1 = [] \<and> efd_count cnt i w1 = 0 then {Blocks} else {}))
      (run_once K resume cb sched i w)" using after by simp
  show "m_stop_cb (contexts w1 i) = Some (Cb_default i) \<Longrightarrow> \<exists>w2. call_stop_cb sched i w1 = Inr w2 \<and> stop_requested i w2"
    using ok by (auto simp: call_stop_cb_def request_stop_def worker_ok_def stop_requested_def)
next
  show "run K resume cb sched i w = Some r \<Longrightarrow> safe (\<lambda>w'. worker_ok K cnt i w' \<and> stop_requested i w') (E \<union> own_errors) r" for r
    using run_safe [of K resume cb sched i w r cnt E] assms by blast
qed

lemma finishing_code_safe: "code_safe K cnt i {} finishing (\<lambda>d r v. Inr v) (\<lambda>j v. Inr v)"
  by (simp add: code_safe_def finishing_appends) (simp add: finishing_def worker_ok_frames wakes_def efd_count_def)

lemma sample_busy_worker_ok: "worker_ok sample_kernel (\<lambda>fd k. k) 0 (sample_busy_world n)"
  using sample_busy [of n] by (simp add: worker_ok_def sample_eventfd_doc efd_open_def sample_proxy_def sample_context_def)

theorem worker_loop_safe_witness:
  "safe (worker_ok sample_kernel (\<lambda>fd k. k) 0) {Use_after_free} (process_work finishing 0 (sample_busy_world 5))"
  using worker_loop_safe [OF sample_busy_worker_ok finishing_code_safe sample_submit_doc, of 5] by simp

end
