(* ===== verification/Scheduler.thy ===== *)
theory Scheduler
  imports Context
begin

text \<open>
  Dispatcher and scheduler: \<^verbatim>\<open>include/coro/dispatcher.hpp\<close>, \<^verbatim>\<open>include/coro/scheduler.hpp\<close>,
  \<^verbatim>\<open>src/scheduler.cpp\<close>. The first part is the code operation by operation; the second,
  \<open>stop_step\<close>, is the stop protocol at the granularity of its atomic accesses, with any number of
  submissions and worker callbacks under way at the same time.
\<close>

section \<open>Dispatcher\<close>

record dispatcher =
  d_ctx_cnt :: "64 word"
  m_cur :: "64 word"

definition dispatcher_init :: "64 word \<Rightarrow> dispatcher \<Rightarrow> dispatcher" where
  "dispatcher_init ctx_cnt d = d\<lparr>d_ctx_cnt := ctx_cnt, m_cur := 0\<rparr>"

text \<open>The round-robin specialisation; the remainder by zero is undefined.\<close>

definition dispatch :: "dispatcher \<Rightarrow> (64 word \<times> dispatcher) result" where
  "dispatch d =
     (if d_ctx_cnt d = 0 then Inl Out_of_bounds
      else Inr (m_cur d mod d_ctx_cnt d, d\<lparr>m_cur := m_cur d + 1\<rparr>))"

text \<open>The primary template always answers context 0.\<close>

definition dispatch_default :: "'d \<Rightarrow> 64 word \<times> 'd" where
  "dispatch_default d = (0, d)"


section \<open>Scheduler\<close>

record scheduler =
  m_ctx_cnt :: "64 word"
  m_dispatcher :: dispatcher
  m_ctx_stop_flag :: "32 word list"
  m_stop_token :: "32 word"

record 'k sworld = "'k cworld" +
  sched :: scheduler

text \<open>\<open>fresh i\<close> stands for the kernel objects and the uninitialised array of the \<open>i\<close>-th new context.\<close>

definition init_impl :: "'k kernel_ops \<Rightarrow> (nat \<Rightarrow> 'k \<times> int list) \<Rightarrow> 64 word \<Rightarrow> ('k, 'z) sworld_scheme \<Rightarrow> ('k, 'z) sworld_scheme result" where
  "init_impl K fresh ctx_cnt w =
     (let w1 = init_meta_info w; w2 = w1\<lparr>sched := (sched w1)\<lparr>m_ctx_cnt := ctx_cnt\<rparr>\<rparr> in
      bindE (forE [0..<unat ctx_cnt] (\<lambda>i. case fresh i of (k, fds) \<Rightarrow> new_context K k fds i) w2) (\<lambda>w3.
      Inr (w3\<lparr>sched := (sched w3)\<lparr>m_dispatcher := dispatcher_init ctx_cnt (m_dispatcher (sched w3)),
                                 m_ctx_stop_flag := replicate (unat ctx_cnt) 1,
                                 m_stop_token := ucast ctx_cnt\<rparr>\<rparr>)))"

definition scheduler_init :: "'k kernel_ops \<Rightarrow> (nat \<Rightarrow> 'k \<times> int list) \<Rightarrow> 64 word \<Rightarrow> 64 word \<Rightarrow> ('k, 'z) sworld_scheme
    \<Rightarrow> ('k, 'z) sworld_scheme result" where
  "scheduler_init K fresh hardware_concurrency ctx_cnt w =
     init_impl K fresh (if ctx_cnt = 0 then hardware_concurrency else ctx_cnt) w"

definition stop_impl :: "'k kernel_ops \<Rightarrow> ('k, 'z) sworld_scheme \<Rightarrow> ('k, 'z) sworld_scheme result" where
  "stop_impl K w = forE [0..<unat (m_ctx_cnt (sched w))] (notify_stop K) w"

text \<open>The callback \<^verbatim>\<open>start_impl\<close> installs in context \<open>i\<close>.\<close>

definition sched_stop_cb :: "'k kernel_ops \<Rightarrow> nat \<Rightarrow> ('k, 'z) sworld_scheme \<Rightarrow> ('k, 'z) sworld_scheme result" where
  "sched_stop_cb K i w =
     (let s = sched w in
      if i \<ge> length (m_ctx_stop_flag s) then Inl Out_of_bounds
      else
        let cnt = m_ctx_stop_flag s ! i;
            w1 = w\<lparr>sched := s\<lparr>m_ctx_stop_flag := (m_ctx_stop_flag s)[i := cnt AND 0],
                             m_stop_token := m_stop_token s - cnt\<rparr>\<rparr>
        in if m_stop_token s = cnt then stop_impl K w1 else Inr w1)"

definition start_impl :: "('k, 'z) sworld_scheme \<Rightarrow> ('k, 'z) sworld_scheme" where
  "start_impl w = fold (\<lambda>i w. start i (set_stop_cb (Cb_scheduler i) i w)) [0..<unat (m_ctx_cnt (sched w))] w"

text \<open>\<^verbatim>\<open>loop_impl\<close> starts the workers and waits for them; \<open>workers\<close> stands for what they do meanwhile.\<close>

definition loop_impl :: "(('k, 'z) sworld_scheme \<Rightarrow> ('k, 'z) sworld_scheme) \<Rightarrow> ('k, 'z) sworld_scheme \<Rightarrow> ('k, 'z) sworld_scheme result" where
  "loop_impl workers w =
     (let w1 = workers (start_impl w) in forE [0..<unat (m_ctx_cnt (sched w1))] join w1)"

definition submit_task_impl :: "'k kernel_ops \<Rightarrow> (handle \<Rightarrow> ('k, 'z) sworld_scheme \<Rightarrow> ('k, 'z) sworld_scheme result) \<Rightarrow> handle
    \<Rightarrow> ('k, 'z) sworld_scheme \<Rightarrow> ('k, 'z) sworld_scheme result" where
  "submit_task_impl K resume h w =
     (let s = sched w in
      if m_stop_token s = 0 then Inl Assert_failed
      else bindE (dispatch (m_dispatcher s)) (\<lambda>(id, d).
        let ctx_id = unat id in
        if ctx_id \<ge> length (m_ctx_stop_flag s) then Inl Out_of_bounds
        else
          let old = m_ctx_stop_flag s ! ctx_id
          in context_submit K resume ctx_id h
               (w\<lparr>sched := s\<lparr>m_dispatcher := d, m_ctx_stop_flag := (m_ctx_stop_flag s)[ctx_id := old OR 1],
                             m_stop_token := m_stop_token s + (1 - old)\<rparr>\<rparr>)))"

definition scheduler_submit_rvalue :: "'k kernel_ops \<Rightarrow> (handle \<Rightarrow> ('k, 'z) sworld_scheme \<Rightarrow> ('k, 'z) sworld_scheme result) \<Rightarrow> addr
    \<Rightarrow> ('k, 'z) sworld_scheme \<Rightarrow> ('k, 'z) sworld_scheme result" where
  "scheduler_submit_rvalue K resume t w =
     (let h = w_tasks w t in
      if h = nullptr then Inl Assert_failed
      else case w_frames w h of
        None \<Rightarrow> Inl Use_after_free
      | Some f \<Rightarrow> submit_task_impl K resume h
          (w\<lparr>w_frames := (w_frames w)(h \<mapsto> set_state cs_detach f), w_tasks := (w_tasks w)(t := nullptr)\<rparr>))"

definition scheduler_submit_lvalue :: "'k kernel_ops \<Rightarrow> (handle \<Rightarrow> ('k, 'z) sworld_scheme \<Rightarrow> ('k, 'z) sworld_scheme result) \<Rightarrow> addr
    \<Rightarrow> ('k, 'z) sworld_scheme \<Rightarrow> ('k, 'z) sworld_scheme result" where
  "scheduler_submit_lvalue K resume t w = submit_task_impl K resume (w_tasks w t) w"

text \<open>The static functions call the one instance.\<close>

definition scheduler_loop :: "(('k, 'z) sworld_scheme \<Rightarrow> ('k, 'z) sworld_scheme) \<Rightarrow> ('k, 'z) sworld_scheme \<Rightarrow> ('k, 'z) sworld_scheme result" where
  "scheduler_loop workers w = loop_impl workers w"

definition scheduler_submit :: "'k kernel_ops \<Rightarrow> (handle \<Rightarrow> ('k, 'z) sworld_scheme \<Rightarrow> ('k, 'z) sworld_scheme result) \<Rightarrow> handle
    \<Rightarrow> ('k, 'z) sworld_scheme \<Rightarrow> ('k, 'z) sworld_scheme result" where
  "scheduler_submit K resume h w = submit_task_impl K resume h w"

definition submit_to_scheduler :: "'k kernel_ops \<Rightarrow> (handle \<Rightarrow> ('k, 'z) sworld_scheme \<Rightarrow> ('k, 'z) sworld_scheme result) \<Rightarrow> handle
    \<Rightarrow> ('k, 'z) sworld_scheme \<Rightarrow> ('k, 'z) sworld_scheme result" where
  "submit_to_scheduler K resume h w = scheduler_submit K resume h w"

definition submit_to_scheduler_rvalue :: "'k kernel_ops \<Rightarrow> (handle \<Rightarrow> ('k, 'z) sworld_scheme \<Rightarrow> ('k, 'z) sworld_scheme result) \<Rightarrow> addr
    \<Rightarrow> ('k, 'z) sworld_scheme \<Rightarrow> ('k, 'z) sworld_scheme result" where
  "submit_to_scheduler_rvalue K resume t w = scheduler_submit_rvalue K resume t w"

definition submit_to_scheduler_lvalue :: "'k kernel_ops \<Rightarrow> (handle \<Rightarrow> ('k, 'z) sworld_scheme \<Rightarrow> ('k, 'z) sworld_scheme result) \<Rightarrow> addr
    \<Rightarrow> ('k, 'z) sworld_scheme \<Rightarrow> ('k, 'z) sworld_scheme result" where
  "submit_to_scheduler_lvalue K resume t w = scheduler_submit K resume (w_tasks w t) w"


section \<open>The stop protocol, one atomic access at a time\<close>

text \<open>
  Every worker is at one place: \<open>Working\<close> runs a task or is about to look for one, \<open>Adding c v\<close>
  is a task's submission to context \<open>c\<close> between \<^verbatim>\<open>fetch_or\<close> and \<^verbatim>\<open>fetch_add\<close>, \<open>Enqueuing c\<close>
  the same submission before the queue, \<open>Subtracting v\<close> the stop callback between
  \<^verbatim>\<open>fetch_and\<close> and \<^verbatim>\<open>fetch_sub\<close>, \<open>Polling\<close> waits for its eventfd. \<open>s_tasks c\<close> counts the tasks
  context \<open>c\<close> has not finished, \<open>s_wakes c\<close> its unread wake-ups. The tasks there at the start are those
  the main thread submitted before the loop.
\<close>

datatype worker = Working | Adding nat int | Enqueuing nat | Subtracting int | Polling

record stop_state =
  s_flags :: "nat \<Rightarrow> int"
  s_token :: int
  s_worker :: "nat \<Rightarrow> worker"
  s_tasks :: "nat \<Rightarrow> nat"
  s_wakes :: "nat \<Rightarrow> nat"
  s_stopped :: bool

definition stop_start :: "nat \<Rightarrow> stop_state \<Rightarrow> bool" where
  "stop_start n s \<longleftrightarrow>
     s_flags s = (\<lambda>c. 1) \<and> s_token s = int n \<and> s_worker s = (\<lambda>c. Working) \<and> s_wakes s = s_tasks s \<and> \<not> s_stopped s"

inductive stop_step :: "nat \<Rightarrow> stop_state \<Rightarrow> stop_state \<Rightarrow> bool" for n :: nat where
  mark_busy: "d < n \<Longrightarrow> c < n \<Longrightarrow> s_worker s d = Working \<Longrightarrow> 0 < s_tasks s d \<Longrightarrow> s_token s \<noteq> 0 \<Longrightarrow>
    stop_step n s (s\<lparr>s_flags := (s_flags s)(c := 1), s_worker := (s_worker s)(d := Adding c (1 - s_flags s c))\<rparr>)"
| add_token: "d < n \<Longrightarrow> s_worker s d = Adding c v \<Longrightarrow>
    stop_step n s (s\<lparr>s_token := s_token s + v, s_worker := (s_worker s)(d := Enqueuing c)\<rparr>)"
| enqueue: "d < n \<Longrightarrow> s_worker s d = Enqueuing c \<Longrightarrow>
    stop_step n s (s\<lparr>s_tasks := (s_tasks s)(c := Suc (s_tasks s c)), s_wakes := (s_wakes s)(c := Suc (s_wakes s c)),
                     s_worker := (s_worker s)(d := Working)\<rparr>)"
| finish_task: "d < n \<Longrightarrow> s_worker s d = Working \<Longrightarrow> 0 < s_tasks s d \<Longrightarrow>
    stop_step n s (s\<lparr>s_tasks := (s_tasks s)(d := s_tasks s d - 1)\<rparr>)"
| mark_idle: "d < n \<Longrightarrow> s_worker s d = Working \<Longrightarrow> s_tasks s d = 0 \<Longrightarrow>
    stop_step n s (s\<lparr>s_flags := (s_flags s)(d := 0), s_worker := (s_worker s)(d := Subtracting (s_flags s d))\<rparr>)"
| sub_token: "d < n \<Longrightarrow> s_worker s d = Subtracting v \<Longrightarrow>
    stop_step n s (s\<lparr>s_token := s_token s - v, s_worker := (s_worker s)(d := Polling),
                     s_stopped := (s_stopped s \<or> s_token s = v)\<rparr>)"
| poll: "d < n \<Longrightarrow> s_worker s d = Polling \<Longrightarrow> 0 < s_wakes s d \<Longrightarrow>
    stop_step n s (s\<lparr>s_wakes := (s_wakes s)(d := 0), s_worker := (s_worker s)(d := Working)\<rparr>)"

inductive_simps stop_step_iff: "stop_step n s t"

text \<open>What an operation under way will still do to the token.\<close>

definition outstanding :: "worker \<Rightarrow> int" where
  "outstanding p = (case p of Adding c v \<Rightarrow> v | Subtracting v \<Rightarrow> - v | _ \<Rightarrow> 0)"

definition sum_below :: "nat \<Rightarrow> (nat \<Rightarrow> int) \<Rightarrow> int" where
  "sum_below n f = (\<Sum>d<n. f d)"

definition stop_inv :: "nat \<Rightarrow> stop_state \<Rightarrow> bool" where
  "stop_inv n s \<longleftrightarrow>
     s_token s + sum_below n (outstanding \<circ> s_worker s) = sum_below n (s_flags s) \<and> (\<forall>c<n. s_flags s c \<in> {0, 1})"

lemma sum_below_upd: "d < n \<Longrightarrow> sum_below n (f(d := x)) = sum_below n f - f d + x"
proof -
  assume d: "d < n"
  have "sum_below n (f(d := x)) = x + (\<Sum>i\<in>{..<n} - {d}. (f(d := x)) i)"
    unfolding sum_below_def using d by (subst sum.remove [of _ d]) auto
  also have "(\<Sum>i\<in>{..<n} - {d}. (f(d := x)) i) = (\<Sum>i\<in>{..<n} - {d}. f i)"
    by (rule sum.cong) auto
  also have "\<dots> = sum_below n f - f d"
    unfolding sum_below_def using d by (subst (2) sum.remove [of _ d]) auto
  finally show ?thesis by (simp only: algebra_simps)
qed

lemma outstanding_upd: "outstanding \<circ> (g(d := p)) = (outstanding \<circ> g)(d := outstanding p)"
  by auto

lemma outstanding_simps [simp]:
  "outstanding Working = 0" "outstanding (Adding c v) = v" "outstanding (Enqueuing c) = 0"
  "outstanding (Subtracting v) = - v" "outstanding Polling = 0"
  by (simp_all add: outstanding_def)

lemma stop_inv_step: "stop_step n s t \<Longrightarrow> stop_inv n s \<Longrightarrow> stop_inv n t"
  by (induction rule: stop_step.induct) (auto simp: stop_inv_def outstanding_upd sum_below_upd)

interpretation stop: step_system "stop_start n" "stop_step n" "stop_inv n"
proof unfold_locales
  show "stop_start n s \<Longrightarrow> stop_inv n s" for s by (simp add: stop_inv_def stop_start_def sum_below_def)
qed (rule stop_inv_step)


section \<open>Lemmas\<close>

text \<open>The dispatcher's answers to \<open>n\<close> calls in a row.\<close>

fun dispatch_n :: "nat \<Rightarrow> dispatcher \<Rightarrow> (nat list \<times> dispatcher) result" where
  "dispatch_n 0 d = Inr ([], d)"
| "dispatch_n (Suc k) d =
     bindE (dispatch d) (\<lambda>(id, d1). bindE (dispatch_n k d1) (\<lambda>(ids, d2). Inr (unat id # ids, d2)))"

lemma dispatch_n_values:
  "d_ctx_cnt d \<noteq> 0 \<Longrightarrow> unat (m_cur d) + k \<le> 2 ^ 64 \<Longrightarrow>
    dispatch_n k d = Inr (map (\<lambda>i. i mod unat (d_ctx_cnt d)) [unat (m_cur d)..<unat (m_cur d) + k],
                          d\<lparr>m_cur := m_cur d + of_nat k\<rparr>)"
proof (induction k arbitrary: d)
  case (Suc k)
  let ?d = "d\<lparr>m_cur := m_cur d + 1\<rparr>"
  have head: "[unat (m_cur d)..<unat (m_cur d) + Suc k] = unat (m_cur d) # [Suc (unat (m_cur d))..<Suc (unat (m_cur d)) + k]"
    by (simp add: upt_rec)
  show ?case
  proof (cases k)
    case 0
    with Suc.prems show ?thesis by (simp add: dispatch_def unat_mod_distrib)
  next
    case (Suc k')
    then have "unat (m_cur d) + 1 < 2 ^ 64" using Suc.prems(2) by simp
    then have u: "unat (m_cur d + 1) = Suc (unat (m_cur d))" by (subst unat_add_below) simp_all
    have "dispatch_n k ?d = Inr (map (\<lambda>i. i mod unat (d_ctx_cnt d)) [Suc (unat (m_cur d))..<Suc (unat (m_cur d)) + k],
        ?d\<lparr>m_cur := m_cur d + 1 + of_nat k\<rparr>)"
      using Suc.IH [of ?d] Suc.prems by (simp add: u)
    then show ?thesis using Suc.prems unfolding head by (simp add: dispatch_def unat_mod_distrib add.assoc)
  qed
qed simp

text \<open>The scheduler's books: one flag per context, the token counts those that are set.\<close>

definition sched_inv :: "scheduler \<Rightarrow> bool" where
  "sched_inv s \<longleftrightarrow>
     length (m_ctx_stop_flag s) = unat (m_ctx_cnt s) \<and> length (m_ctx_stop_flag s) < 2 ^ 31 \<and>
     set (m_ctx_stop_flag s) \<subseteq> {0, 1} \<and> m_stop_token s = of_nat (count_list (m_ctx_stop_flag s) 1)"

lemma count_list_update:
  "i < length xs \<Longrightarrow> int (count_list (xs[i := x]) y) =
     int (count_list xs y) - (if xs ! i = y then 1 else 0) + (if x = y then 1 else 0)"
proof (induction xs arbitrary: i)
  case (Cons a xs)
  show ?case
  proof (cases i)
    case 0
    then show ?thesis by simp
  next
    case (Suc k)
    with Cons.IH [of k] Cons.prems show ?thesis by (cases "a = y"; cases "xs ! k = y"; cases "x = y"; simp)
  qed
qed simp

lemma token_update:
  assumes inv: "sched_inv s" and i: "i < length (m_ctx_stop_flag s)" and x: "x \<in> {0, 1}"
  shows "sched_inv (s\<lparr>m_ctx_stop_flag := (m_ctx_stop_flag s)[i := x], m_stop_token := m_stop_token s + x - m_ctx_stop_flag s ! i\<rparr>)"
proof -
  let ?f = "m_ctx_stop_flag s"
  have old: "?f ! i \<in> {0, 1}" using inv i by (auto simp: sched_inv_def subset_iff)
  have bit: "v \<in> {0, 1} \<Longrightarrow> of_int (if v = (1 :: 32 word) then 1 else 0) = v" for v :: "32 word" by auto
  have "of_nat (count_list (?f[i := x]) 1) = (of_int (int (count_list (?f[i := x]) 1)) :: 32 word)" by simp
  also have "\<dots> = of_nat (count_list ?f 1) - ?f ! i + x"
    unfolding count_list_update [OF i] of_int_add of_int_diff bit [OF old] bit [OF x] by simp
  finally have "m_stop_token s + x - ?f ! i = of_nat (count_list (?f[i := x]) 1)"
    using inv by (simp add: sched_inv_def)
  moreover have "set (?f[i := x]) \<subseteq> {0, 1}"
    using set_update_subset_insert [of ?f i x] inv x by (auto simp: sched_inv_def)
  ultimately show ?thesis using inv by (simp add: sched_inv_def)
qed

lemma token_count:
  assumes "sched_inv s"
  shows "unat (m_stop_token s) = count_list (m_ctx_stop_flag s) 1"
proof -
  have "count_list (m_ctx_stop_flag s) 1 < 2 ^ 32"
    using assms count_le_length [of "m_ctx_stop_flag s" 1] by (simp add: sched_inv_def)
  with assms show ?thesis by (simp add: sched_inv_def unat_of_nat_below)
qed

lemma token_zero: "sched_inv s \<Longrightarrow> m_stop_token s = 0 \<longleftrightarrow> 1 \<notin> set (m_ctx_stop_flag s)"
  using token_count [of s] by (metis count_list_0_iff unat_eq_zero)

lemma last_busy:
  assumes inv: "sched_inv s" and i: "i < length (m_ctx_stop_flag s)"
  shows "m_stop_token s = m_ctx_stop_flag s ! i \<longleftrightarrow> (\<forall>j < length (m_ctx_stop_flag s). j \<noteq> i \<longrightarrow> m_ctx_stop_flag s ! j = 0)"
proof -
  let ?f = "m_ctx_stop_flag s"
  let ?g = "?f[i := 0]"
  have old: "?f ! i = 0 \<or> ?f ! i = 1" using inv i by (auto simp: sched_inv_def subset_iff)
  have c: "int (count_list ?f 1) = int (count_list ?g 1) + (if ?f ! i = 1 then 1 else 0)"
    using count_list_update [OF i, of 0 1] by simp
  have "m_stop_token s = ?f ! i \<longleftrightarrow> unat (m_stop_token s) = unat (?f ! i)" by (rule word_unat_eq_iff)
  also have "unat (m_stop_token s) = count_list ?f 1" using inv by (rule token_count)
  also have "count_list ?f 1 = unat (?f ! i) \<longleftrightarrow> count_list ?g 1 = 0"
    using c old by auto
  also have "\<dots> \<longleftrightarrow> (\<forall>j < length ?f. j \<noteq> i \<longrightarrow> ?f ! j \<noteq> 1)"
    using i by (auto simp: count_list_0_iff in_set_conv_nth nth_list_update split: if_splits)
  also have "\<dots> \<longleftrightarrow> (\<forall>j < length ?f. j \<noteq> i \<longrightarrow> ?f ! j = 0)"
  proof -
    have "?f ! j = 0 \<or> ?f ! j = 1" if "j < length ?f" for j
      using inv nth_mem [OF that] unfolding sched_inv_def by blast
    then show ?thesis by auto
  qed
  finally show ?thesis .
qed

text \<open>Requesting the stop of all contexts.\<close>

definition workers_ok :: "'k kernel_ops \<Rightarrow> (int \<Rightarrow> 'k \<Rightarrow> nat) \<Rightarrow> nat \<Rightarrow> ('k, 'z) sworld_scheme \<Rightarrow> bool" where
  "workers_ok K cnt j w \<longleftrightarrow>
     m_job (contexts w j) \<noteq> None \<and> efd_open j w \<and> efd_count cnt j w + 2 ^ 44 \<le> eventfd_max"

lemma notify_stop_ok:
  assumes doc: "eventfd_doc K cnt" and ok: "workers_ok K cnt j w"
  shows "\<exists>w'. notify_stop K j w = Inr w' \<and> stop_requested j w' \<and> efd_count cnt j w' = efd_count cnt j w + 2 ^ 44 \<and>
    (\<forall>i. i \<noteq> j \<longrightarrow> contexts w' i = contexts w i \<and> engines w' i = engines w i) \<and> cworld.more w' = cworld.more w"
proof -
  from ok obtain b where job: "m_job (contexts w j) = Some b" unfolding workers_ok_def by blast
  let ?w = "put_context j ((contexts w j)\<lparr>m_job := Some (b\<lparr>j_stop := True\<rparr>)\<rparr>) w"
  have "efd_open j ?w" "efd_count cnt j ?w = efd_count cnt j w" using ok by (simp_all add: workers_ok_def efd_open_def efd_count_def)
  with wake_up_adds [OF doc, of j ?w task_flag] ok obtain w' where w': "wake_up K j task_flag ?w = Inr w'"
    "efd_count cnt j w' = efd_count cnt j w + 2 ^ 44" "\<forall>i. i \<noteq> j \<longrightarrow> engines w' i = engines ?w i"
    "eworld.more w' = eworld.more ?w"
    unfolding workers_ok_def unat_task_flag by metis
  from same_more [OF w'(4)] w' show ?thesis
    by (auto simp: notify_stop_def request_stop_def job stop_requested_def)
qed

lemma notify_all_stop:
  assumes doc: "eventfd_doc K cnt"
  shows "distinct js \<Longrightarrow> (\<forall>j \<in> set js. workers_ok K cnt j w) \<Longrightarrow>
    \<exists>w'. forE js (notify_stop K) w = Inr w' \<and> (\<forall>j \<in> set js. stop_requested j w' \<and> 0 < efd_count cnt j w') \<and>
      (\<forall>i. i \<notin> set js \<longrightarrow> contexts w' i = contexts w i \<and> engines w' i = engines w i) \<and> cworld.more w' = cworld.more w"
proof (induction js arbitrary: w)
  case (Cons j js)
  with notify_stop_ok [OF doc, of j w] obtain w1 where
    w1: "notify_stop K j w = Inr w1" "stop_requested j w1" "efd_count cnt j w1 = efd_count cnt j w + 2 ^ 44"
    "\<forall>i. i \<noteq> j \<longrightarrow> contexts w1 i = contexts w i \<and> engines w1 i = engines w i" "cworld.more w1 = cworld.more w" by auto
  have "\<forall>i \<in> set js. workers_ok K cnt i w1"
    using Cons.prems w1(4) by (auto simp: workers_ok_def efd_open_def efd_count_def)
  with Cons.IH [of w1] Cons.prems(1) obtain w2 where
    w2: "forE js (notify_stop K) w1 = Inr w2" "\<forall>j \<in> set js. stop_requested j w2 \<and> 0 < efd_count cnt j w2"
    "\<forall>i. i \<notin> set js \<longrightarrow> contexts w2 i = contexts w1 i \<and> engines w2 i = engines w1 i" "cworld.more w2 = cworld.more w1" by auto
  have "stop_requested j w2" "0 < efd_count cnt j w2"
    using w1 w2(3) Cons.prems(1) by (simp_all add: stop_requested_def efd_count_def)
  then show ?case using w1 w2 by auto
qed simp


section \<open>Properties\<close>

text \<open>round robin is fair: as long as the 64-bit counter does not wrap, any \<open>n\<close> consecutive
  dispatches on \<open>n\<close> contexts choose every context exactly once.\<close>

theorem round_robin_fair:
  assumes "d_ctx_cnt d \<noteq> 0" and "unat (m_cur d) + unat (d_ctx_cnt d) \<le> 2 ^ 64"
  shows "\<exists>ids d'. dispatch_n (unat (d_ctx_cnt d)) d = Inr (ids, d') \<and> distinct ids \<and> set ids = {..<unat (d_ctx_cnt d)}"
proof -
  let ?n = "unat (d_ctx_cnt d)" and ?c = "unat (m_cur d)"
  let ?ids = "map (\<lambda>i. i mod ?n) [?c..<?c + ?n]"
  have n: "0 < ?n" using assms(1) by (simp add: unat_gt_0)
  have "inj_on (\<lambda>i. i mod ?n) {?c..<?c + ?n}"
  proof (rule inj_onI)
    fix x y assume *: "x \<in> {?c..<?c + ?n}" "y \<in> {?c..<?c + ?n}" "x mod ?n = y mod ?n"
    have "x - ?c = y - ?c"
      by (rule mod_shift_inj [of ?c _ ?n]) (use * in auto)
    moreover have "?c \<le> x" "?c \<le> y" using * by simp_all
    ultimately show "x = y" by (metis le_add_diff_inverse)
  qed
  then have d: "distinct ?ids" by (simp add: distinct_map)
  have "set ?ids \<subseteq> {..<?n}" using n by auto
  moreover have "card (set ?ids) = card {..<?n}" using distinct_card [OF d] by simp
  ultimately have "set ?ids = {..<?n}" by (intro card_subset_eq) auto
  with d dispatch_n_values [OF assms] show ?thesis by blast
qed

theorem round_robin_fair_witness:
  "\<exists>ids d'. dispatch_n 3 \<lparr>d_ctx_cnt = 3, m_cur = 4\<rparr> = Inr (ids, d') \<and> distinct ids \<and> set ids = {..<3}"
  using round_robin_fair [of "\<lparr>d_ctx_cnt = 3, m_cur = 4\<rparr>"] by simp

text \<open>an idle context takes its flag off the token. Exactly when no other context is flagged busy does
  this stop the scheduler: every worker is then asked to stop and its wait is ended; otherwise
  no worker is disturbed. The books stay balanced.\<close>

theorem stop_when_last_idle:
  assumes doc: "eventfd_doc K cnt" and inv: "sched_inv (sched w)" and i: "i < length (m_ctx_stop_flag (sched w))"
    and ok: "\<forall>j < length (m_ctx_stop_flag (sched w)). workers_ok K cnt j w"
  shows "\<exists>w'. sched_stop_cb K i w = Inr w' \<and> sched_inv (sched w') \<and> m_ctx_stop_flag (sched w') ! i = 0 \<and>
    (if \<exists>j < length (m_ctx_stop_flag (sched w)). j \<noteq> i \<and> m_ctx_stop_flag (sched w) ! j \<noteq> 0
     then contexts w' = contexts w \<and> engines w' = engines w
     else \<forall>j < length (m_ctx_stop_flag (sched w)). stop_requested j w' \<and> 0 < efd_count cnt j w')"
proof -
  let ?s = "sched w"
  let ?f = "m_ctx_stop_flag ?s"
  let ?s1 = "?s\<lparr>m_ctx_stop_flag := ?f[i := 0], m_stop_token := m_stop_token ?s + 0 - ?f ! i\<rparr>"
  let ?w1 = "w\<lparr>sched := ?s1\<rparr>"
  have inv1: "sched_inv ?s1" using token_update [OF inv i, of 0] by simp
  have cb: "sched_stop_cb K i w = (if m_stop_token ?s = ?f ! i then stop_impl K ?w1 else Inr ?w1)"
    using i by (simp add: sched_stop_cb_def Let_def)
  have len: "unat (m_ctx_cnt ?s1) = length ?f" using inv by (simp add: sched_inv_def)
  show ?thesis
  proof (cases "m_stop_token ?s = ?f ! i")
    case False
    then have "\<exists>j < length ?f. j \<noteq> i \<and> ?f ! j \<noteq> 0" using last_busy [OF inv i] by blast
    then show ?thesis using cb False inv1 i by simp
  next
    case True
    then have none: "\<not> (\<exists>j < length ?f. j \<noteq> i \<and> ?f ! j \<noteq> 0)" using last_busy [OF inv i] by blast
    have "\<forall>j \<in> set [0..<length ?f]. workers_ok K cnt j ?w1"
      using ok by (simp add: workers_ok_def efd_open_def efd_count_def)
    from notify_all_stop [OF doc _ this] obtain w' where
      w': "forE [0..<length ?f] (notify_stop K) ?w1 = Inr w'" "\<forall>j < length ?f. stop_requested j w' \<and> 0 < efd_count cnt j w'"
      "cworld.more w' = cworld.more ?w1" by auto
    have "sched w' = ?s1" using w'(3) by (cases w, cases w') simp
    moreover have "sched_stop_cb K i w = Inr w'"
      unfolding cb using True w'(1) len by (simp add: stop_impl_def)
    moreover have "m_ctx_stop_flag ?s1 ! i = 0" using i by simp
    ultimately show ?thesis using none w'(2) inv1 by (intro exI [of _ w']) (simp, blast)
  qed
qed

definition sample_scheduler :: scheduler where
  "sample_scheduler =
     \<lparr>m_ctx_cnt = 2, m_dispatcher = \<lparr>d_ctx_cnt = 2, m_cur = 3\<rparr>, m_ctx_stop_flag = [1, 0], m_stop_token = 1\<rparr>"

definition sample_sworld :: "nat sworld" where
  "sample_sworld =
     cworld.extend (eworld.extend sample_world \<lparr>contexts = (\<lambda>_. sample_context)\<rparr>) \<lparr>sched = sample_scheduler\<rparr>"

lemma sample_sworld_simps [simp]:
  "sched sample_sworld = sample_scheduler" "contexts sample_sworld = (\<lambda>_. sample_context)"
  "engines sample_sworld = (\<lambda>_. sample_engine)"
  by (simp_all add: sample_sworld_def cworld.defs eworld.defs sample_world_def)

lemma sample_sched_inv: "sched_inv sample_scheduler"
  by (simp add: sched_inv_def sample_scheduler_def)

lemma sample_workers_ok: "workers_ok sample_kernel (\<lambda>fd k. k) j sample_sworld"
  by (simp add: workers_ok_def efd_open_def efd_count_def sample_context_def sample_engine_def sample_proxy_def eventfd_max_def)

theorem stop_when_last_idle_witness:
  "\<exists>w'. sched_stop_cb sample_kernel 0 sample_sworld = Inr w' \<and> sched_inv (sched w') \<and>
     stop_requested 0 w' \<and> stop_requested 1 w'"
proof -
  have l: "length (m_ctx_stop_flag (sched sample_sworld)) = 2" "m_ctx_stop_flag (sched sample_sworld) ! 1 = 0"
    by (simp_all add: sample_scheduler_def)
  then have none: "\<not> (\<exists>j < 2. j \<noteq> 0 \<and> m_ctx_stop_flag (sched sample_sworld) ! j \<noteq> 0)"
    by (auto simp: less_2_cases_iff)
  have "\<exists>w'. sched_stop_cb sample_kernel 0 sample_sworld = Inr w' \<and> sched_inv (sched w') \<and>
      m_ctx_stop_flag (sched w') ! 0 = 0 \<and>
      (if \<exists>j < length (m_ctx_stop_flag (sched sample_sworld)). j \<noteq> 0 \<and> m_ctx_stop_flag (sched sample_sworld) ! j \<noteq> 0
       then contexts w' = contexts sample_sworld \<and> engines w' = engines sample_sworld
       else \<forall>j < length (m_ctx_stop_flag (sched sample_sworld)). stop_requested j w' \<and> 0 < efd_count (\<lambda>fd k. k) j w')"
  proof (rule stop_when_last_idle [OF sample_eventfd_doc])
    show "sched_inv (sched sample_sworld)" by (simp add: sample_sched_inv)
    show "0 < length (m_ctx_stop_flag (sched sample_sworld))" unfolding l(1) by simp
  qed (simp add: sample_workers_ok)
  then show ?thesis unfolding l(1) if_not_P [OF none] by auto
qed

text \<open>The scheduler takes submissions: it has contexts, they are in order, and one is busy at least.\<close>

definition taking where
  "taking K cnt w \<longleftrightarrow> contexts_ok K cnt w \<and> sched_inv (sched w) \<and> m_stop_token (sched w) \<noteq> 0 \<and>
     d_ctx_cnt (m_dispatcher (sched w)) = m_ctx_cnt (sched w)"

text \<open>The context whose turn it is.\<close>

definition turn_of :: "('k, 'z) sworld_scheme \<Rightarrow> nat" where
  "turn_of w = unat (m_cur (m_dispatcher (sched w))) mod unat (m_ctx_cnt (sched w))"

lemma submit_task_impl_ok:
  assumes "taking K cnt w" and "h \<noteq> nullptr" and c: "c = turn_of w" and room: "0 < context_room cnt c w"
  shows "\<exists>w' w0. submit_task_impl K resume h w = Inr w' \<and> taking K cnt w' \<and> queued c w' = queued c w @ [h] \<and>
    context_room cnt c w' = context_room cnt c w - 1 \<and>
    (\<forall>e. e \<noteq> c \<longrightarrow> queued e w' = queued e w \<and> context_room cnt e w' = context_room cnt e w) \<and> m_ctx_stop_flag (sched w') ! c = 1 \<and>
    m_cur (m_dispatcher (sched w')) = m_cur (m_dispatcher (sched w)) + 1 \<and> m_ctx_cnt (sched w') = m_ctx_cnt (sched w) \<and>
    w_frames w' = w_frames w \<and> w_tasks w' = w_tasks w \<and> linfo_egn w' = linfo_egn w \<and> sworld.more w' = sworld.more w \<and>
    context_submit K resume c h w0 = Inr w' \<and> engines w0 = engines w"
proof -
  let ?s = "sched w"
  let ?f = "m_ctx_stop_flag ?s"
  have ok: "contexts_ok K cnt w" and inv: "sched_inv ?s" and run: "m_stop_token ?s \<noteq> 0" and d: "d_ctx_cnt (m_dispatcher ?s) = m_ctx_cnt ?s"
    using assms(1) by (simp_all add: taking_def)
  have n: "m_ctx_cnt ?s \<noteq> 0" using inv run by (auto simp: sched_inv_def)
  then have cl: "c < length ?f" using inv c by (simp add: sched_inv_def unat_gt_0 turn_of_def)
  let ?d = "(m_dispatcher ?s)\<lparr>m_cur := m_cur (m_dispatcher ?s) + 1\<rparr>"
  let ?s2 = "?s\<lparr>m_dispatcher := ?d, m_ctx_stop_flag := ?f[c := 1], m_stop_token := m_stop_token ?s + (1 - ?f ! c)\<rparr>"
  let ?w = "w\<lparr>sched := ?s2\<rparr>"
  have inv1: "sched_inv ?s2" using token_update [OF inv cl, of 1] by (simp add: sched_inv_def algebra_simps)
  have old: "?f ! c = 0 \<or> ?f ! c = 1" using inv cl nth_mem [OF cl] unfolding sched_inv_def by blast
  have disp: "dispatch (m_dispatcher ?s) = Inr (m_cur (m_dispatcher ?s) mod m_ctx_cnt ?s, ?d)"
    using n d by (simp add: dispatch_def)
  have cid: "unat (m_cur (m_dispatcher ?s) mod m_ctx_cnt ?s) = c" by (simp only: c turn_of_def unat_mod_distrib)
  have "?f ! c OR 1 = 1" using old by auto
  then have sub: "submit_task_impl K resume h w = context_submit K resume c h ?w"
    using run cl disp cid by (simp add: submit_task_impl_def Let_def)
  have room_eq: "context_room cnt e ?w = context_room cnt e w" for e by (simp add: context_room_def efd_count_def)
  have "contexts_ok K cnt ?w" using ok by (simp add: contexts_ok_def efd_open_def)
  with context_submit_ok [of K cnt ?w c h resume] room assms(2) obtain w' where
    w': "context_submit K resume c h ?w = Inr w'" "queued c w' = queued c ?w @ [h]" "contexts_ok K cnt w'"
      "context_room cnt c w' = context_room cnt c ?w - 1"
      "\<forall>e. e \<noteq> c \<longrightarrow> queued e w' = queued e ?w \<and> context_room cnt e w' = context_room cnt e ?w"
      "context_rest w' = context_rest ?w" by (auto simp: room_eq)
  have rest: "w_frames w' = w_frames w" "w_tasks w' = w_tasks w" "linfo_egn w' = linfo_egn w"
    using w'(6) by (simp_all add: context_rest_def)
  from w'(6) have "cworld.more w' = cworld.more ?w" by (auto simp: context_rest_def intro: same_more)
  then have s': "sched w' = ?s2" "sworld.more w' = sworld.more w" by (cases w, cases w', simp)+
  have "1 \<in> set (m_ctx_stop_flag ?s2)" using cl by (simp add: set_update_memI)
  with token_zero [OF inv1] have "m_stop_token ?s2 \<noteq> 0" by blast
  then have "taking K cnt w'" using w'(3) s' inv1 d by (simp add: taking_def)
  then show ?thesis using sub w' s' cl rest by (intro exI [of _ w'] exI [of _ ?w]) (simp add: room_eq)
qed

text \<open>a task submitted while the scheduler is running goes to the end of the queue of the context
  whose turn it is; that context is flagged busy and the books stay balanced.\<close>

theorem scheduler_submit_balanced:
  assumes ok: "contexts_ok K cnt w" and inv: "sched_inv (sched w)" and run: "m_stop_token (sched w) \<noteq> 0"
    and d: "d_ctx_cnt (m_dispatcher (sched w)) = m_ctx_cnt (sched w)" and h: "h \<noteq> nullptr"
    and c: "c = unat (m_cur (m_dispatcher (sched w))) mod unat (m_ctx_cnt (sched w))"
    and room: "0 < context_room cnt c w"
  shows "\<exists>w'. submit_task_impl K resume h w = Inr w' \<and> queued c w' = queued c w @ [h] \<and>
    (\<forall>e. e \<noteq> c \<longrightarrow> queued e w' = queued e w) \<and> sched_inv (sched w') \<and> m_ctx_stop_flag (sched w') ! c = 1 \<and>
    m_stop_token (sched w') \<noteq> 0 \<and> m_cur (m_dispatcher (sched w')) = m_cur (m_dispatcher (sched w)) + 1"
proof -
  have "taking K cnt w" using ok inv run d by (simp add: taking_def)
  from submit_task_impl_ok [OF this h, of c resume] c room show ?thesis unfolding turn_of_def taking_def by blast
qed

text \<open>\<^verbatim>\<open>eventfd(0, 0)\<close> gives a descriptor whose counter is zero.\<close>

definition eventfd_new_doc :: "'k kernel_ops \<Rightarrow> (int \<Rightarrow> 'k \<Rightarrow> nat) \<Rightarrow> bool" where
  "eventfd_new_doc K cnt \<longleftrightarrow> (\<forall>k. fst (k_eventfd K k) \<ge> 0 \<and> cnt (fst (k_eventfd K k)) (snd (k_eventfd K k)) = 0)"

text \<open>A context as constructed: numbered, with nothing to do and no thread.\<close>

definition fresh_context :: "(int \<Rightarrow> 'k \<Rightarrow> nat) \<Rightarrow> nat \<Rightarrow> ('k, 'z) cworld_scheme \<Rightarrow> bool" where
  "fresh_context cnt c w \<longleftrightarrow> efd_open c w \<and> efd_count cnt c w = 0 \<and> queue_inv c w \<and> queued c w = [] \<and> queue_size c w = 16384 \<and>
     m_id (contexts w c) = of_nat c \<and> e_id (engines w c) = of_nat c \<and> m_job (contexts w c) = None"

lemma new_context_ok:
  assumes "eventfd_new_doc K cnt"
  shows "\<exists>w'. new_context K k fds i w = Inr w' \<and> efd_open i w' \<and> efd_count cnt i w' = 0 \<and> queue_inv i w' \<and> queued i w' = [] \<and>
    queue_size i w' = 16384 \<and> m_id (contexts w' i) = context_id w \<and> e_id (engines w' i) = engine_id w \<and> m_job (contexts w' i) = None \<and>
    (\<forall>c. c \<noteq> i \<longrightarrow> engines w' c = engines w c \<and> contexts w' c = contexts w c) \<and>
    context_id w' = context_id w + 1 \<and> engine_id w' = engine_id w + 1 \<and> w_frames w' = w_frames w \<and> cworld.more w' = cworld.more w"
proof -
  obtain efd k' where k: "k_eventfd K k = (efd, k')" by (rule prod.exhaust)
  have efd: "efd \<ge> 0" "cnt efd k' = 0" using assms k unfolding eventfd_new_doc_def by (metis fst_conv, metis fst_conv snd_conv)
  have q: "aq_inv (AtomicQueue nullptr)" "aq_items (AtomicQueue nullptr) = []" "unat (aq_size (AtomicQueue (nullptr :: handle))) = 16384"
    using sample_queue [of 0] by (simp_all add: sample_world_def sample_engine_def)
  show ?thesis using k efd q
    by (simp add: new_context_def new_uring_proxy_def new_engine_def put_context_def put_engine_def efd_open_def efd_count_def)
qed

lemma new_contexts_ok:
  assumes doc: "eventfd_new_doc K cnt" and ids: "context_id w = 0" "engine_id w = 0"
  shows "\<exists>w'. forE [0..<n] (\<lambda>i. case fresh i of (k, fds) \<Rightarrow> new_context K k fds i) w = Inr w' \<and> (\<forall>c < n. fresh_context cnt c w') \<and>
    (\<forall>c \<ge> n. engines w' c = engines w c) \<and> context_id w' = of_nat n \<and> engine_id w' = of_nat n \<and>
    w_frames w' = w_frames w \<and> cworld.more w' = cworld.more w"
proof (induction n)
  case 0
  then show ?case using ids by simp
next
  case (Suc n)
  then obtain w1 where w1: "forE [0..<n] (\<lambda>i. case fresh i of (k, fds) \<Rightarrow> new_context K k fds i) w = Inr w1" "\<forall>c < n. fresh_context cnt c w1"
    "\<forall>c \<ge> n. engines w1 c = engines w c" "context_id w1 = of_nat n" "engine_id w1 = of_nat n"
    "w_frames w1 = w_frames w" "cworld.more w1 = cworld.more w" by blast
  obtain k fds where f: "fresh n = (k, fds)" by (rule prod.exhaust)
  from new_context_ok [OF doc, of k fds n w1] obtain w2 where
    w2: "new_context K k fds n w1 = Inr w2" "efd_open n w2" "efd_count cnt n w2 = 0" "queue_inv n w2" "queued n w2 = []" "queue_size n w2 = 16384"
      "m_id (contexts w2 n) = of_nat n" "e_id (engines w2 n) = of_nat n" "m_job (contexts w2 n) = None"
      "\<forall>c. c \<noteq> n \<longrightarrow> engines w2 c = engines w1 c \<and> contexts w2 c = contexts w1 c"
      "context_id w2 = of_nat (Suc n)" "engine_id w2 = of_nat (Suc n)" "w_frames w2 = w_frames w1"
      "cworld.more w2 = cworld.more w1" using w1(4,5) by auto
  have "fresh_context cnt c w2" if "c < Suc n" for c
    using w1(2) w2(2-10) that by (cases "c = n") (auto simp: fresh_context_def efd_open_def efd_count_def less_Suc_eq)
  moreover have "engines w2 c = engines w c" if "c \<ge> Suc n" for c using that w1(3) w2(10) by simp
  ultimately show ?case using w1(1,6,7) w2(1,11-14) f by (simp add: forE_append)
qed

lemma scheduler_init_ok:
  fixes w :: "('k, 'z) sworld_scheme"
  assumes doc: "eventfd_new_doc K cnt" "eventfd_doc K cnt" and n: "n = (if ctx_cnt = 0 then hardware_concurrency else ctx_cnt)" "n \<noteq> 0" "unat n < 2 ^ 31"
  shows "\<exists>w'. scheduler_init K fresh hardware_concurrency ctx_cnt w = Inr w' \<and> (\<forall>c < unat n. fresh_context cnt c w') \<and>
    sched_inv (sched w') \<and> m_ctx_stop_flag (sched w') = replicate (unat n) 1 \<and> m_stop_token (sched w') \<noteq> 0 \<and> turn_of w' = 0 \<and>
    ((\<forall>c \<ge> unat n. efd_open c w \<and> queue_inv c w) \<longrightarrow> taking K cnt w') \<and>
    m_ctx_cnt (sched w') = n \<and> m_cur (m_dispatcher (sched w')) = 0 \<and> w_frames w' = w_frames w"
proof -
  let ?w = "(init_meta_info w)\<lparr>sched := (sched w)\<lparr>m_ctx_cnt := n\<rparr>\<rparr>"
  have "context_id ?w = 0" "engine_id ?w = 0" by (simp_all add: init_meta_info_def)
  from new_contexts_ok [OF doc(1) this, of "unat n" fresh] obtain w1 where
    w1: "forE [0..<unat n] (\<lambda>i. case fresh i of (k, fds) \<Rightarrow> new_context K k fds i) ?w = Inr w1" "\<forall>c < unat n. fresh_context cnt c w1"
      "\<forall>c \<ge> unat n. engines w1 c = engines ?w c" "w_frames w1 = w_frames ?w" "cworld.more w1 = cworld.more ?w" by blast
  have s1: "sched w1 = (sched w)\<lparr>m_ctx_cnt := n\<rparr>" using w1(5) by (cases w1, cases w) (simp add: init_meta_info_def)
  let ?s = "(sched w1)\<lparr>m_dispatcher := dispatcher_init n (m_dispatcher (sched w1)), m_ctx_stop_flag := replicate (unat n) 1, m_stop_token := ucast n\<rparr>"
  let ?w' = "w1\<lparr>sched := ?s\<rparr>"
  have init: "scheduler_init K fresh hardware_concurrency ctx_cnt w = Inr ?w'"
    using w1(1) n(1) by (simp add: scheduler_init_def init_impl_def Let_def init_meta_info_def)
  have fresh: "\<forall>c < unat n. fresh_context cnt c ?w'" using w1(2) by (simp add: fresh_context_def efd_open_def efd_count_def)
  have token: "(ucast n :: 32 word) = of_nat (unat n)" by simp
  have "count_list (replicate m (1 :: 32 word)) 1 = m" for m by (induction m) simp_all
  then have inv: "sched_inv ?s" using n(3) s1 token by (auto simp: sched_inv_def)
  moreover have tok: "m_stop_token ?s \<noteq> 0" using token_zero [OF inv] n(2) by (simp add: unat_gt_0)
  moreover have "taking K cnt ?w'" if "\<forall>c \<ge> unat n. efd_open c w \<and> queue_inv c w"
  proof -
    have "efd_open c ?w' \<and> queue_inv c ?w'" for c
      using fresh w1(3) that by (cases "c < unat n") (auto simp: fresh_context_def efd_open_def init_meta_info_def)
    then show ?thesis using doc(2) inv tok s1 by (simp add: taking_def contexts_ok_def dispatcher_init_def)
  qed
  moreover have "w_frames ?w' = w_frames w" using w1(4) by (simp add: init_meta_info_def)
  ultimately show ?thesis using init fresh s1 by (intro exI [of _ ?w']) (auto simp: turn_of_def dispatcher_init_def)
qed

text \<open>C26: initialising the scheduler gives as many contexts as asked for, or as the machine has processors: numbered from
  zero, each with its own eventfd at zero and an empty queue of 16384 places; all are flagged busy, the token counts them, and the
  first submission goes to context 0. From then on the scheduler takes submissions.\<close>

theorem scheduler_init_ready:
  fixes w :: "('k, 'z) sworld_scheme"
  assumes doc: "eventfd_new_doc K cnt" "eventfd_doc K cnt" and n: "n = (if ctx_cnt = 0 then hardware_concurrency else ctx_cnt)" "n \<noteq> 0" "unat n < 2 ^ 31"
  shows "\<exists>w'. scheduler_init K fresh hardware_concurrency ctx_cnt w = Inr w' \<and> (\<forall>c < unat n. fresh_context cnt c w') \<and>
    sched_inv (sched w') \<and> m_ctx_stop_flag (sched w') = replicate (unat n) 1 \<and> m_stop_token (sched w') \<noteq> 0 \<and> turn_of w' = 0 \<and>
    ((\<forall>c \<ge> unat n. efd_open c w \<and> queue_inv c w) \<longrightarrow> taking K cnt w')"
  using scheduler_init_ok [OF assms, of fresh w] by blast

theorem scheduler_init_ready_witness:
  "\<exists>w'. scheduler_init sample_kernel (\<lambda>i. (0, replicate 8 0)) 4 0 sample_sworld = Inr w' \<and> (\<forall>c < 4. fresh_context (\<lambda>fd k. k) c w') \<and>
     m_ctx_stop_flag (sched w') = [1, 1, 1, 1] \<and> turn_of w' = 0 \<and> taking sample_kernel (\<lambda>fd k. k) w'"
proof -
  have "eventfd_new_doc sample_kernel (\<lambda>fd k. k)" by (simp add: eventfd_new_doc_def sample_kernel_def)
  from scheduler_init_ready [OF this sample_eventfd_doc, of 4 0 4 "\<lambda>i. (0, replicate 8 0)" sample_sworld] obtain w' where
    w': "scheduler_init sample_kernel (\<lambda>i. (0, replicate 8 0)) 4 0 sample_sworld = Inr w'" "\<forall>c < 4. fresh_context (\<lambda>fd k. k) c w'"
      "m_ctx_stop_flag (sched w') = replicate 4 1" "turn_of w' = 0"
      "(\<forall>c \<ge> 4. efd_open c sample_sworld \<and> queue_inv c sample_sworld) \<longrightarrow> taking sample_kernel (\<lambda>fd k. k) w'" by auto
  have "efd_open c sample_sworld \<and> queue_inv c sample_sworld" for c
    using sample_efd(1) sample_queue(1) [of c] by (simp add: efd_open_def sample_world_def)
  with w' show ?thesis by (simp add: numeral_eq_Suc)
qed

lemma sample_contexts_ok: "contexts_ok sample_kernel (\<lambda>fd k. k) sample_sworld"
  using sample_queue(1) sample_efd(1) unfolding contexts_ok_def
  by (simp add: sample_eventfd_doc efd_open_def sample_world_def)

theorem scheduler_submit_balanced_witness:
  "\<exists>w'. submit_task_impl sample_kernel finishing 9 sample_sworld = Inr w' \<and> queued 1 w' = [9] \<and>
     m_ctx_stop_flag (sched w') ! 1 = 1 \<and> sched_inv (sched w')"
proof -
  have q: "m_task_queue sample_engine = m_task_queue (engines sample_world 1)" by (simp add: sample_world_def)
  have e: "queued 1 sample_sworld = []" "queue_size 1 sample_sworld = 16384"
    using sample_queue(2,3) [of 1] by (simp_all add: q del: length_aq_items)
  have "efd_count (\<lambda>fd k. k) 1 sample_sworld = 0" by (simp add: efd_count_def sample_engine_def sample_proxy_def)
  then have room: "0 < context_room (\<lambda>fd k. k) 1 sample_sworld"
    unfolding context_room_def e by (simp add: eventfd_max_def)
  have "\<exists>w'. submit_task_impl sample_kernel finishing 9 sample_sworld = Inr w' \<and> queued 1 w' = queued 1 sample_sworld @ [9] \<and>
    (\<forall>e. e \<noteq> 1 \<longrightarrow> queued e w' = queued e sample_sworld) \<and> sched_inv (sched w') \<and> m_ctx_stop_flag (sched w') ! 1 = 1 \<and>
    m_stop_token (sched w') \<noteq> 0 \<and> m_cur (m_dispatcher (sched w')) = m_cur (m_dispatcher (sched sample_sworld)) + 1"
    by (rule scheduler_submit_balanced [OF sample_contexts_ok _ _ _ _ _ room])
      (simp_all add: sample_sched_inv, simp_all add: sample_scheduler_def)
  then show ?thesis unfolding e by auto
qed

text \<open>C27: under every interleaving of submissions and stop callbacks the token, corrected by the operations
  under way, is the number of busy flags; in particular, whenever no operation is under way, the
  token is exactly that number.\<close>

theorem stop_token_conserved:
  assumes "reachable (stop_start n) (stop_step n) s"
    and "\<forall>d < n. s_worker s d = Working \<or> s_worker s d = Polling"
  shows "s_token s = (\<Sum>c<n. s_flags s c) \<and> 0 \<le> s_token s \<and> s_token s \<le> int n"
proof -
  have inv: "stop_inv n s" using stop.reachable_inv [OF assms(1)] .
  have "sum_below n (outstanding \<circ> s_worker s) = 0"
    unfolding sum_below_def using assms(2) by (intro sum.neutral) auto
  then have eq: "s_token s = (\<Sum>c<n. s_flags s c)" using inv by (simp add: stop_inv_def sum_below_def)
  have "0 \<le> s_flags s c \<and> s_flags s c \<le> 1" if "c < n" for c using inv that by (auto simp: stop_inv_def)
  then have "(\<Sum>c<n. s_flags s c) \<le> (\<Sum>c<n. 1)" "0 \<le> (\<Sum>c<n. s_flags s c)"
    by (intro sum_mono sum_nonneg; simp)+
  with eq show ?thesis by simp
qed

definition two_workers :: stop_state where
  "two_workers = \<lparr>s_flags = (\<lambda>c. 1), s_token = 2, s_worker = (\<lambda>c. Working), s_tasks = (\<lambda>c. 1), s_wakes = (\<lambda>c. 1), s_stopped = False\<rparr>"

lemma two_workers_start: "stop_start 2 two_workers"
  by (simp add: stop_start_def two_workers_def)

theorem stop_token_conserved_witness:
  "s_token two_workers = (\<Sum>c<2. s_flags two_workers c) \<and> 0 \<le> s_token two_workers \<and> s_token two_workers \<le> int 2"
  by (rule stop_token_conserved) (auto intro: reach_start two_workers_start, simp add: two_workers_def)

text \<open>C32: the scheduler can stop while work is pending: with two workers, an idle worker whose flag a
  submission has just set, and whose loop turns once more before the submission adds to the token,
  takes the token to zero; both contexts then have unfinished tasks although the stop was
  broadcast.\<close>

theorem premature_stop_reachable:
  "\<exists>s. reachable (stop_start 2) (stop_step 2) s \<and> s_stopped s \<and> 0 < s_tasks s 0 \<and> 0 < s_tasks s 1"
proof -
  let ?R = "reachable (stop_start 2) (stop_step 2)"
  note step = reach_step [where start = "stop_start 2" and step = "stop_step 2"]
  have "?R two_workers" by (rule reach_start) (rule two_workers_start)
  from step [OF this finish_task [of 0]]
  have "?R (two_workers\<lparr>s_tasks := (s_tasks two_workers)(0 := 0)\<rparr>)" by (simp add: two_workers_def)
  from step [OF this mark_idle [of 0]] have "?R (two_workers\<lparr>s_tasks := (s_tasks two_workers)(0 := 0),
      s_flags := (\<lambda>c. 1)(0 := 0), s_worker := (\<lambda>c. Working)(0 := Subtracting 1)\<rparr>)" by (simp add: two_workers_def)
  from step [OF this sub_token [of 0]] have "?R (two_workers\<lparr>s_tasks := (s_tasks two_workers)(0 := 0),
      s_flags := (\<lambda>c. 1)(0 := 0), s_worker := (\<lambda>c. Working)(0 := Polling), s_token := 1\<rparr>)" by (simp add: two_workers_def)
  from step [OF this poll [of 0]] have "?R (two_workers\<lparr>s_tasks := (s_tasks two_workers)(0 := 0), s_wakes := (\<lambda>c. 1)(0 := 0),
      s_flags := (\<lambda>c. 1)(0 := 0), s_worker := (\<lambda>c. Working)(0 := Working), s_token := 1\<rparr>)" by (simp add: two_workers_def)
  from step [OF this mark_busy [of 1 2 0]] have "?R (two_workers\<lparr>s_tasks := (s_tasks two_workers)(0 := 0), s_wakes := (\<lambda>c. 1)(0 := 0),
      s_flags := (\<lambda>c. 1)(0 := 1), s_worker := (\<lambda>c. Working)(0 := Working, 1 := Adding 0 1), s_token := 1\<rparr>)"
    by (simp add: two_workers_def fun_upd_twist)
  from step [OF this mark_idle [of 0]] have "?R (two_workers\<lparr>s_tasks := (s_tasks two_workers)(0 := 0), s_wakes := (\<lambda>c. 1)(0 := 0),
      s_flags := (\<lambda>c. 1)(0 := 0), s_worker := (\<lambda>c. Working)(0 := Subtracting 1, 1 := Adding 0 1), s_token := 1\<rparr>)"
    by (simp add: two_workers_def fun_upd_twist)
  from step [OF this sub_token [of 0]] have "?R (two_workers\<lparr>s_tasks := (s_tasks two_workers)(0 := 0), s_wakes := (\<lambda>c. 1)(0 := 0),
      s_flags := (\<lambda>c. 1)(0 := 0), s_worker := (\<lambda>c. Working)(0 := Polling, 1 := Adding 0 1), s_token := 0, s_stopped := True\<rparr>)"
    by (simp add: two_workers_def fun_upd_twist)
  from step [OF this add_token [of 1]] have "?R (two_workers\<lparr>s_tasks := (s_tasks two_workers)(0 := 0), s_wakes := (\<lambda>c. 1)(0 := 0),
      s_flags := (\<lambda>c. 1)(0 := 0), s_worker := (\<lambda>c. Working)(0 := Polling, 1 := Enqueuing 0), s_token := 1, s_stopped := True\<rparr>)"
    by (simp add: two_workers_def fun_upd_twist)
  from step [OF this enqueue [of 1]] obtain s where "?R s" "s_stopped s" "s_tasks s 0 = 1" "s_tasks s 1 = 1"
    by (simp add: two_workers_def)
  then show ?thesis by (intro exI [of _ s]) simp
qed

end
