(* ===== verification/Awaiter.thy ===== *)
theory Awaiter
  imports Scheduler
begin

text \<open>
  The awaiter objects of events, wait groups, mutexes and condition variables. They live in
  the frames of suspended coroutines, are linked through \<^verbatim>\<open>m_next\<close>, and die when their
  coroutine goes on: \<open>awaiters w a\<close> is \<open>None\<close> where no awaiter lives, and touching one there is
  \<open>Use_after_free\<close>. An awaiter keeps the context of its coroutine (\<^verbatim>\<open>m_ctx\<close>), the object it
  waits for (\<^verbatim>\<open>m_ev\<close>, \<^verbatim>\<open>m_wg\<close>, \<^verbatim>\<open>m_mtx\<close>) and the coroutine (\<^verbatim>\<open>m_await_coro\<close>).
\<close>

record awaiter =
  a_ctx :: nat
  a_obj :: addr
  a_next :: addr
  a_coro :: handle

record 'k aworld = "'k sworld" +
  awaiters :: "addr \<Rightarrow> awaiter option"

definition new_awaiter :: "nat \<Rightarrow> addr \<Rightarrow> awaiter" where
  "new_awaiter c obj = \<lparr>a_ctx = c, a_obj = obj, a_next = nullptr, a_coro = nullptr\<rparr>"

definition get_awaiter :: "addr \<Rightarrow> ('k, 'z) aworld_scheme \<Rightarrow> awaiter result" where
  "get_awaiter a w =
     (if a = nullptr then Inl Null_deref
      else case awaiters w a of None \<Rightarrow> Inl Use_after_free | Some x \<Rightarrow> Inr x)"

definition put_awaiter :: "addr \<Rightarrow> awaiter \<Rightarrow> ('k, 'z) aworld_scheme \<Rightarrow> ('k, 'z) aworld_scheme" where
  "put_awaiter a x w = w\<lparr>awaiters := (awaiters w)(a \<mapsto> x)\<rparr>"

text \<open>Submitting the coroutine of an awaiter to its context: \<^verbatim>\<open>m_ctx.submit_task(m_await_coro)\<close>.\<close>

definition submit_awaiter where
  "submit_awaiter K resume a w = bindE (get_awaiter a w) (\<lambda>x. context_submit K resume (a_ctx x) (a_coro x) w)"

text \<open>The loop that events and wait groups have in common: hand the coroutine over, then read \<^verbatim>\<open>m_next\<close>.\<close>

partial_function (option) resume_linked where
  "resume_linked K resume p w =
     (if p = nullptr then Some (Inr w)
      else case submit_awaiter K resume p w of
        Inl err \<Rightarrow> Some (Inl err)
      | Inr w1 \<Rightarrow>
          (case get_awaiter p w1 of
             Inl err \<Rightarrow> Some (Inl err)
           | Inr x \<Rightarrow> resume_linked K resume (a_next x) w1))"

lemma get_awaiter_Some [simp]: "a \<noteq> nullptr \<Longrightarrow> awaiters w a = Some x \<Longrightarrow> get_awaiter a w = Inr x"
  by (simp add: get_awaiter_def)

lemma put_awaiter_simps [simp]:
  "awaiters (put_awaiter a x w) = (awaiters w)(a \<mapsto> x)"
  "contexts (put_awaiter a x w) = contexts w" "engines (put_awaiter a x w) = engines w"
  "w_frames (put_awaiter a x w) = w_frames w" "linfo_ctx (put_awaiter a x w) = linfo_ctx w"
  "aworld.more (put_awaiter a x w) = aworld.more w"
  by (simp_all add: put_awaiter_def)

lemma put_engine_awaiters [simp]:
  "awaiters (put_engine i e w) = awaiters w" "aworld.more (put_engine i e w) = aworld.more w"
  by (simp_all add: put_engine_def)

lemma put_context_awaiters [simp]:
  "awaiters (put_context i c w) = awaiters w" "aworld.more (put_context i c w) = aworld.more w"
  by (simp_all add: put_context_def)

lemma wait_awaiters [simp]:
  "awaiters (register_wait n i w) = awaiters w" "awaiters (unregister_wait n i w) = awaiters w"
  "aworld.more (register_wait n i w) = aworld.more w" "aworld.more (unregister_wait n i w) = aworld.more w"
  "engines (register_wait n i w) = engines w" "engines (unregister_wait n i w) = engines w"
  by (simp_all add: register_wait_def unregister_wait_def)

section \<open>Lists of awaiters\<close>

definition next_of :: "(addr \<Rightarrow> awaiter option) \<Rightarrow> addr \<Rightarrow> addr" where
  "next_of m a = (case m a of None \<Rightarrow> nullptr | Some x \<Rightarrow> a_next x)"

text \<open>\<open>waiting m p as\<close>: the live awaiters \<open>as\<close> are linked from \<open>p\<close>.\<close>

definition waiting :: "(addr \<Rightarrow> awaiter option) \<Rightarrow> addr \<Rightarrow> addr list \<Rightarrow> bool" where
  "waiting m p as \<longleftrightarrow> chain (next_of m) p as \<and> (\<forall>a \<in> set as. m a \<noteq> None)"

text \<open>What is submitted for a list of awaiters.\<close>

definition jobs_of :: "(addr \<Rightarrow> awaiter option) \<Rightarrow> addr list \<Rightarrow> (nat \<times> handle) list" where
  "jobs_of m as = map (\<lambda>a. case m a of None \<Rightarrow> (0, nullptr) | Some x \<Rightarrow> (a_ctx x, a_coro x)) as"

lemma waiting_nullptr [simp]: "waiting m nullptr as \<longleftrightarrow> as = []"
  by (auto simp: waiting_def)

lemma waiting_Nil [simp]: "waiting m p [] \<longleftrightarrow> p = nullptr"
  by (simp add: waiting_def)

lemma waiting_Cons [simp]:
  "waiting m p (a # as) \<longleftrightarrow> p = a \<and> a \<noteq> nullptr \<and> (\<exists>x. m a = Some x \<and> waiting m (a_next x) as)"
  by (auto simp: waiting_def next_of_def split: option.splits)

lemma waiting_start: "p \<noteq> nullptr \<Longrightarrow> waiting m p as \<Longrightarrow> \<exists>bs. as = p # bs"
  by (auto simp: waiting_def chain_start)

lemma next_of_upd: "next_of (m(a \<mapsto> x)) = (next_of m)(a := a_next x)"
  by (auto simp: next_of_def)

lemma waiting_frame [simp]: "a \<notin> set as \<Longrightarrow> waiting (m(a \<mapsto> x)) p as = waiting m p as"
  by (auto simp: waiting_def next_of_upd)

lemma waiting_cong:
  assumes "\<And>a. a \<in> set as \<Longrightarrow> m' a = m a"
  shows "waiting m' p as = waiting m p as"
proof -
  have "chain (next_of m') p as = chain (next_of m) p as" by (rule chain_cong) (simp add: next_of_def assms)
  then show ?thesis using assms by (auto simp: waiting_def)
qed

lemma waiting_snoc:
  assumes "waiting m p as" and "as \<noteq> []" and "a \<noteq> nullptr" and "a \<notin> set as" and "m (last as) = Some t" and "a_next x = nullptr"
  shows "waiting (m(a \<mapsto> x, last as \<mapsto> t\<lparr>a_next := a\<rparr>)) p (as @ [a])"
  using assms chain_snoc [of "next_of m" p as a] by (auto simp: waiting_def next_of_upd)

lemma waiting_push: "waiting m p as \<Longrightarrow> a \<noteq> nullptr \<Longrightarrow> a \<notin> set as \<Longrightarrow> a_next x = p \<Longrightarrow> waiting (m(a \<mapsto> x)) a (a # as)"
  by simp

lemma waiting_distinct: "waiting m p as \<Longrightarrow> distinct as"
  unfolding waiting_def by (blast intro: chain_distinct)

lemma waiting_nonnull: "waiting m p as \<Longrightarrow> nullptr \<notin> set as"
  unfolding waiting_def by (metis chain_nonnull)

lemma jobs_of_simps [simp]:
  "jobs_of m [] = []" "m a = Some x \<Longrightarrow> jobs_of m (a # as) = (a_ctx x, a_coro x) # jobs_of m as"
  "jobs_of m (as @ bs) = jobs_of m as @ jobs_of m bs"
  by (simp_all add: jobs_of_def)

lemma jobs_of_frame [simp]: "a \<notin> set as \<Longrightarrow> jobs_of (m(a := x)) as = jobs_of m as"
  by (auto simp: jobs_of_def)

text \<open>What a submission that is queued leaves alone: the awaiters and everything built on them.\<close>

lemma rest_awaiters:
  fixes w w' :: "('k, 'z) aworld_scheme"
  assumes "context_rest w' = context_rest w"
  shows "awaiters w' = awaiters w" and "aworld.more w' = aworld.more w" and "contexts w' = contexts w"
    and "linfo_ctx w' = linfo_ctx w"
proof -
  have "eworld.more w' = eworld.more w" "linfo_ctx w' = linfo_ctx w" using assms by (simp_all add: context_rest_def)
  then show "awaiters w' = awaiters w" "aworld.more w' = aworld.more w" "contexts w' = contexts w" "linfo_ctx w' = linfo_ctx w"
    by (cases w; cases w'; simp)+
qed

section \<open>Submitting a list of awaiters\<close>

text \<open>The contexts take one submission for each of the awaiters \<open>as\<close>.\<close>

definition can_resume :: "'k kernel_ops \<Rightarrow> (int \<Rightarrow> 'k \<Rightarrow> nat) \<Rightarrow> addr list \<Rightarrow> ('k, 'z) aworld_scheme \<Rightarrow> bool" where
  "can_resume K cnt as w \<longleftrightarrow>
     contexts_ok K cnt w \<and> (\<forall>c. length (for_context c (jobs_of (awaiters w) as)) \<le> context_room cnt c w) \<and>
     (\<forall>(c, h) \<in> set (jobs_of (awaiters w) as). h \<noteq> nullptr)"

text \<open>Submitting one awaiter whose context has room.\<close>

lemma submit_awaiter_ok:
  assumes "contexts_ok K cnt w" and "0 < context_room cnt (a_ctx x) w" and "a_coro x \<noteq> nullptr"
    and "a \<noteq> nullptr" and "awaiters w a = Some x"
  shows "\<exists>w'. submit_awaiter K resume a w = Inr w' \<and> queued (a_ctx x) w' = queued (a_ctx x) w @ [a_coro x] \<and>
    (\<forall>c. c \<noteq> a_ctx x \<longrightarrow> queued c w' = queued c w) \<and> context_rest w' = context_rest w"
proof -
  from context_submit_ok [OF assms(1,2,3), of resume] obtain w' where
    "context_submit K resume (a_ctx x) (a_coro x) w = Inr w'" "queued (a_ctx x) w' = queued (a_ctx x) w @ [a_coro x]"
    "\<forall>c. c \<noteq> a_ctx x \<longrightarrow> queued c w' = queued c w" "context_rest w' = context_rest w" by blast
  then show ?thesis using assms(4,5) by (intro exI [of _ w']) (simp add: submit_awaiter_def)
qed

lemma can_resume_Cons:
  assumes can: "can_resume K cnt (a # as) w" and a: "a \<noteq> nullptr" "awaiters w a = Some x"
  shows "\<exists>w1. submit_awaiter K resume a w = Inr w1 \<and> context_submit K resume (a_ctx x) (a_coro x) w = Inr w1 \<and>
    can_resume K cnt as w1 \<and> context_rest w1 = context_rest w"
proof -
  let ?c = "a_ctx x" and ?h = "a_coro x"
  have room: "length (for_context c (jobs_of (awaiters w) (a # as))) \<le> context_room cnt c w" for c
    using can by (simp add: can_resume_def)
  have ok: "contexts_ok K cnt w" and h: "?h \<noteq> nullptr" using can a by (auto simp: can_resume_def)
  have "0 < context_room cnt ?c w" using room [of ?c] a by simp
  from ctx.submit_ok [OF ok this h, of resume] obtain w1 where
    w1: "context_submit K resume ?c ?h w = Inr w1" "contexts_ok K cnt w1" "context_room cnt ?c w1 = context_room cnt ?c w - 1"
    "\<forall>d. d \<noteq> ?c \<longrightarrow> context_room cnt d w1 = context_room cnt d w" "context_rest w1 = context_rest w" by blast
  have aw: "awaiters w1 = awaiters w" using w1(5) by (rule rest_awaiters)
  have "length (for_context c (jobs_of (awaiters w) as)) \<le> context_room cnt c w1" for c
    using room [of c] w1(3,4) a by (cases "c = ?c") auto
  then have "can_resume K cnt as w1" using can a w1(2) unfolding can_resume_def aw by auto
  then show ?thesis using w1 a by (simp add: submit_awaiter_def)
qed

lemma can_resume_all:
  assumes "can_resume K cnt as w"
  shows "\<exists>w'. submit_all (context_submit K resume) (jobs_of (awaiters w) as) w = Inr w' \<and> context_rest w' = context_rest w \<and>
    contexts_ok K cnt w' \<and> (\<forall>c. queued c w' = queued c w @ for_context c (jobs_of (awaiters w) as))"
  using assms ctx.submit_all_ok [of K cnt w "jobs_of (awaiters w) as" resume] unfolding can_resume_def by blast

lemma resume_linked_submits:
  "waiting (awaiters w) p as \<Longrightarrow> can_resume K cnt as w \<Longrightarrow>
    resume_linked K resume p w = Some (submit_all (context_submit K resume) (jobs_of (awaiters w) as) w)"
proof (induction as arbitrary: p w)
  case Nil
  then show ?case by (subst resume_linked.simps) (simp add: waiting_def submit_all_def)
next
  case (Cons a as)
  then obtain x where x: "p = a" "a \<noteq> nullptr" "awaiters w a = Some x" "waiting (awaiters w) (a_next x) as" by auto
  from can_resume_Cons [OF Cons.prems(2) x(2,3), of resume] obtain w1 where
    w1: "submit_awaiter K resume a w = Inr w1" "context_submit K resume (a_ctx x) (a_coro x) w = Inr w1"
    "can_resume K cnt as w1" "context_rest w1 = context_rest w" by blast
  have aw: "awaiters w1 = awaiters w" using w1(4) by (rule rest_awaiters)
  have "resume_linked K resume p w = resume_linked K resume (a_next x) w1"
    using x w1(1) aw by (subst resume_linked.simps) simp
  also have "\<dots> = Some (submit_all (context_submit K resume) (jobs_of (awaiters w) as) w1)"
    using Cons.IH [of w1 "a_next x"] x(4) w1(3) by (simp add: aw)
  finally show ?case using x w1(2) by (simp add: submit_all_def)
qed


section \<open>A sample world\<close>

text \<open>A sample world with two waiters (awaiters 11 and 12) on the event 5.\<close>

definition sample_awaiters :: "addr \<Rightarrow> awaiter option" where
  "sample_awaiters =
     [11 \<mapsto> \<lparr>a_ctx = 0, a_obj = 5, a_next = 12, a_coro = 71\<rparr>, 12 \<mapsto> \<lparr>a_ctx = 1, a_obj = 5, a_next = 0, a_coro = 72\<rparr>]"

definition sample_aworld :: "(addr \<Rightarrow> awaiter option) \<Rightarrow> nat aworld" where
  "sample_aworld m = sworld.extend sample_sworld \<lparr>awaiters = m\<rparr>"

lemma sample_waiting: "waiting sample_awaiters 11 [11, 12]"
  by (simp add: sample_awaiters_def)

end
