(* ===== verification/Event.thy ===== *)
theory Event
  imports Awaiter
begin

text \<open>
  Events, event guards and latches: \<^verbatim>\<open>include/coro/comp/event.hpp\<close>, \<^verbatim>\<open>src/comp/event.cpp\<close>,
  \<^verbatim>\<open>include/coro/comp/latch.hpp\<close>. An event is found by its address \<open>e\<close>; its \<^verbatim>\<open>m_state\<close> is
  \<open>e\<close> itself once it is set, otherwise the head of the list of awaiters. The operations are
  first given as they run without interference; \<open>event_step\<close> is the same code with its atomic
  accesses interleaved.
\<close>

record ('k, 'v) evworld = "'k aworld" +
  m_state :: "addr \<Rightarrow> addr"
  ev_values :: "addr \<Rightarrow> ('v, string) storage"
  m_count :: "addr \<Rightarrow> 64 word"

section \<open>Operations\<close>

definition new_event :: "bool \<Rightarrow> addr \<Rightarrow> ('k, 'v, 'z) evworld_scheme \<Rightarrow> ('k, 'v, 'z) evworld_scheme" where
  "new_event initial_set e w =
     w\<lparr>m_state := (m_state w)(e := if initial_set then e else nullptr), ev_values := (ev_values w)(e := Unset)\<rparr>"

definition is_set :: "addr \<Rightarrow> ('k, 'v, 'z) evworld_scheme \<Rightarrow> bool" where
  "is_set e w \<longleftrightarrow> m_state w e = e"

text \<open>\<^verbatim>\<open>wait()\<close>: the awaiter \<open>a\<close>, on the running thread's context.\<close>

definition event_wait :: "addr \<Rightarrow> addr \<Rightarrow> ('k, 'v, 'z) evworld_scheme \<Rightarrow> ('k, 'v, 'z) evworld_scheme result" where
  "event_wait e a w = bindE (local_context w) (\<lambda>c. Inr (put_awaiter a (new_awaiter c e) w))"

definition event_await_ready :: "addr \<Rightarrow> ('k, 'v, 'z) evworld_scheme \<Rightarrow> (bool \<times> ('k, 'v, 'z) evworld_scheme) result" where
  "event_await_ready a w =
     bindE (get_awaiter a w) (\<lambda>x. let w1 = register_wait 1 (a_ctx x) w in Inr (is_set (a_obj x) w1, w1))"

definition register_awaiter :: "addr \<Rightarrow> ('k, 'v, 'z) evworld_scheme \<Rightarrow> (bool \<times> ('k, 'v, 'z) evworld_scheme) result" where
  "register_awaiter a w =
     bindE (get_awaiter a w) (\<lambda>x.
     let e = a_obj x; old_value = m_state w e in
     if old_value = e then Inr (False, put_awaiter a (x\<lparr>a_next := nullptr\<rparr>) w)
     else Inr (True, (put_awaiter a (x\<lparr>a_next := old_value\<rparr>) w)\<lparr>m_state := (m_state w)(e := a)\<rparr>))"

definition event_await_suspend :: "addr \<Rightarrow> handle \<Rightarrow> ('k, 'v, 'z) evworld_scheme \<Rightarrow> (bool \<times> ('k, 'v, 'z) evworld_scheme) result" where
  "event_await_suspend a h w =
     bindE (get_awaiter a w) (\<lambda>x. register_awaiter a (put_awaiter a (x\<lparr>a_coro := h\<rparr>) w))"

definition event_await_resume :: "addr \<Rightarrow> ('k, 'v, 'z) evworld_scheme \<Rightarrow> ('k, 'v, 'z) evworld_scheme result" where
  "event_await_resume a w = bindE (get_awaiter a w) (\<lambda>x. Inr (unregister_wait 1 (a_ctx x) w))"

text \<open>\<^verbatim>\<open>event<T>::awaiter::await_resume\<close> also delivers the value.\<close>

definition event_await_value :: "addr \<Rightarrow> ('k, 'v, 'z) evworld_scheme
    \<Rightarrow> ((string thrown + 'v) \<times> ('k, 'v, 'z) evworld_scheme) result" where
  "event_await_value a w =
     bindE (get_awaiter a w) (\<lambda>x. bindE (event_await_resume a w) (\<lambda>w1.
     Inr (container_result (ev_values w1 (a_obj x)), w1)))"

definition resume_all_awaiter where
  "resume_all_awaiter K resume waiter w = resume_linked K resume waiter w"

definition event_set_state where
  "event_set_state K resume e w =
     (let flag = m_state w e; w1 = w\<lparr>m_state := (m_state w)(e := e)\<rparr> in
      if flag \<noteq> e then resume_all_awaiter K resume flag w1 else Some (Inr w1))"

text \<open>\<^verbatim>\<open>event<void>::set\<close> and the event guard's destructor; \<^verbatim>\<open>event<T>::set\<close>.\<close>

definition event_set where
  "event_set K resume e w = event_set_state K resume e w"

definition event_guard_dtor where
  "event_guard_dtor K resume e w = event_set K resume e w"

definition event_set_value where
  "event_set_value K resume e v w =
     event_set_state K resume e (w\<lparr>ev_values := (ev_values w)(e := return_value v (ev_values w e))\<rparr>)"

section \<open>Latch\<close>

text \<open>The latch at \<open>l\<close> has its event at the same address; the count is a signed 64-bit integer.\<close>

definition new_latch :: "64 word \<Rightarrow> addr \<Rightarrow> ('k, 'v, 'z) evworld_scheme \<Rightarrow> ('k, 'v, 'z) evworld_scheme" where
  "new_latch count l w = new_event (count \<le> 0) l (w\<lparr>m_count := (m_count w)(l := count)\<rparr>)"

definition count_down where
  "count_down K resume l w =
     (let old = m_count w l; w1 = w\<lparr>m_count := (m_count w)(l := old - 1)\<rparr> in
      if sint old \<le> 1 then event_set K resume l w1 else Some (Inr w1))"

definition latch_wait :: "addr \<Rightarrow> addr \<Rightarrow> ('k, 'v, 'z) evworld_scheme \<Rightarrow> ('k, 'v, 'z) evworld_scheme result" where
  "latch_wait l a w = event_wait l a w"

definition latch_guard_dtor where
  "latch_guard_dtor K resume l w = count_down K resume l w"


section \<open>Lemmas\<close>

lemma register_awaiter_pushes:
  assumes "a \<noteq> nullptr" and "awaiters w a = Some x" and "a_obj x = e" and "\<not> is_set e w" and "waiting (awaiters w) (m_state w e) as"
    and "a \<notin> set as" and "a \<noteq> e"
  shows "\<exists>w'. register_awaiter a w = Inr (True, w') \<and> waiting (awaiters w') (m_state w' e) (a # as) \<and> \<not> is_set e w'"
  using assms by (simp add: register_awaiter_def is_set_def Let_def)


lemma event_set_all:
  assumes wait: "waiting (awaiters w) (m_state w e) as" and unset: "\<not> is_set e w" and can: "can_resume K cnt as w"
  shows "\<exists>w'. event_set K resume e w = Some (Inr w') \<and> is_set e w' \<and> event_set K resume e w' = Some (Inr w') \<and>
    (\<forall>c. queued c w' = queued c w @ for_context c (jobs_of (awaiters w) as)) \<and>
    awaiters w' = awaiters w \<and> contexts w' = contexts w \<and> contexts_ok K cnt w'"
proof -
  let ?w = "w\<lparr>m_state := (m_state w)(e := e)\<rparr>"
  have can': "can_resume K cnt as ?w"
    using can by (simp add: can_resume_def contexts_ok_def efd_open_def context_room_def efd_count_def)
  from can_resume_all [OF can', of resume] obtain w' where
    w': "submit_all (context_submit K resume) (jobs_of (awaiters w) as) ?w = Inr w'" "context_rest w' = context_rest ?w" "contexts_ok K cnt w'"
    "\<forall>c. queued c w' = queued c w @ for_context c (jobs_of (awaiters w) as)" by auto
  have "event_set K resume e w = Some (Inr w')"
    using resume_linked_submits [of ?w _ as K cnt resume] wait can' w'(1) unset
    by (simp add: event_set_def event_set_state_def resume_all_awaiter_def is_set_def Let_def)
  moreover note rest = rest_awaiters [OF w'(2)]
  have st: "m_state w' = (m_state w)(e := e)" using rest(2) by (cases w; cases w'; simp)
  then have "event_set K resume e w' = Some (Inr w')"
    by (simp add: event_set_def event_set_state_def Let_def)
  ultimately show ?thesis using w'(3,4) rest st by (simp add: is_set_def)
qed


section \<open>Properties\<close>

text \<open>Setting an event hands every waiting coroutine to its own context exactly once, the latest
  waiter first, and leaves the event set; it returns, and a second set does nothing.\<close>

theorem event_set_resumes_all:
  assumes wait: "waiting (awaiters w) (m_state w e) as" and unset: "\<not> is_set e w" and can: "can_resume K cnt as w"
  shows "\<exists>w'. event_set K resume e w = Some (Inr w') \<and> is_set e w' \<and> event_set K resume e w' = Some (Inr w') \<and>
    (\<forall>c. queued c w' = queued c w @ for_context c (jobs_of (awaiters w) as)) \<and>
    awaiters w' = awaiters w \<and> contexts w' = contexts w"
  using event_set_all [OF assms] by blast

definition sample_evworld :: "(nat, nat) evworld" where
  "sample_evworld =
     aworld.extend (sample_aworld sample_awaiters)
       \<lparr>m_state = (\<lambda>_. nullptr)(5 := 11), ev_values = (\<lambda>_. Unset), m_count = (\<lambda>_. 3)\<rparr>"

lemma sample_evworld_simps [simp]:
  "awaiters sample_evworld = sample_awaiters" "m_state sample_evworld = (\<lambda>_. nullptr)(5 := 11)"
  "engines sample_evworld = engines sample_world" "m_count sample_evworld = (\<lambda>_. 3)"
  by (simp_all add: sample_evworld_def sample_aworld_def aworld.defs sworld.defs sample_sworld_def cworld.defs eworld.defs)

lemma sample_can_resume: "can_resume sample_kernel (\<lambda>fd k. k) [11, 12] sample_evworld"
  using sample_room [of sample_evworld] by (simp add: can_resume_def sample_awaiters_def jobs_of_def)

theorem event_set_resumes_all_witness:
  "\<exists>w'. event_set sample_kernel finishing 5 sample_evworld = Some (Inr w') \<and> is_set 5 w' \<and>
     queued 0 w' = [71] \<and> queued 1 w' = [72]"
proof -
  have "waiting (awaiters sample_evworld) (m_state sample_evworld 5) [11, 12]" "\<not> is_set 5 sample_evworld"
    unfolding sample_evworld_simps fun_upd_same by (rule sample_waiting, simp add: is_set_def)
  from event_set_resumes_all [OF this sample_can_resume, of finishing] obtain w' where
    w': "event_set sample_kernel finishing 5 sample_evworld = Some (Inr w')" "is_set 5 w'"
    and q: "\<And>c. queued c w' = queued c sample_evworld @ for_context c (jobs_of sample_awaiters [11, 12])" by auto
  have "queued c sample_evworld = []" for c using sample_queue(2) [of c] by simp
  then show ?thesis using w' q [of 0] q [of 1] by (simp add: sample_awaiters_def jobs_of_def)
qed

fun count_down_n where
  "count_down_n K resume l 0 w = Some (Inr w)"
| "count_down_n K resume l (Suc k) w =
     (case count_down K resume l w of
        None \<Rightarrow> None
      | Some (Inl err) \<Rightarrow> Some (Inl err)
      | Some (Inr w') \<Rightarrow> count_down_n K resume l k w')"

lemma count_down_n_closed:
  "k < n \<Longrightarrow> n < 2 ^ 63 \<Longrightarrow> m_count w l = of_nat n \<Longrightarrow>
    count_down_n K resume l k w = Some (Inr (w\<lparr>m_count := (m_count w)(l := of_nat (n - k))\<rparr>))"
proof (induction k arbitrary: w n)
  case 0
  then show ?case by (simp add: fun_upd_idem)
next
  case (Suc k)
  obtain m where m: "n = Suc m" using Suc.prems(1) by (cases n) auto
  let ?w = "w\<lparr>m_count := (m_count w)(l := of_nat m)\<rparr>"
  have "unat (of_nat n :: 64 word) = n" using Suc.prems by (intro unat_of_nat_below) simp
  then have "sint (of_nat n :: 64 word) = int n" using Suc.prems(2) sint_eq_unat [of "of_nat n :: 64 word"] by simp
  then have one: "count_down K resume l w = Some (Inr ?w)"
    using Suc.prems by (simp add: count_down_def Let_def m)
  have ih: "count_down_n K resume l k ?w = Some (Inr (?w\<lparr>m_count := (m_count ?w)(l := of_nat (m - k))\<rparr>))"
    by (rule Suc.IH) (use Suc.prems m in simp_all)
  have eq: "?w\<lparr>m_count := (m_count ?w)(l := of_nat (m - k))\<rparr> = w\<lparr>m_count := (m_count w)(l := of_nat (n - Suc k))\<rparr>"
    using m by simp
  show ?case by (simp only: count_down_n.simps one option.case sum.case ih eq)
qed

text \<open>a latch constructed with \<open>n\<close> opens exactly at the \<open>n\<close>-th count down: before that nobody is
  resumed and the event stays unset, with it every waiting coroutine is handed to its context.\<close>

theorem latch_opens:
  assumes n: "0 < n" "n < 2 ^ 63" and c: "m_count w l = of_nat n"
    and wait: "waiting (awaiters w) (m_state w l) as" and unset: "\<not> is_set l w" and can: "can_resume K cnt as w"
  shows "(\<forall>k < n. \<exists>w'. count_down_n K resume l k w = Some (Inr w') \<and> \<not> is_set l w' \<and> engines w' = engines w) \<and>
    (\<exists>w'. count_down_n K resume l n w = Some (Inr w') \<and> is_set l w' \<and>
       (\<forall>c. queued c w' = queued c w @ for_context c (jobs_of (awaiters w) as)))"
proof
  show "\<forall>k < n. \<exists>w'. count_down_n K resume l k w = Some (Inr w') \<and> \<not> is_set l w' \<and> engines w' = engines w"
    using count_down_n_closed [OF _ n(2) c] unset by (simp add: is_set_def)
  obtain m where m: "n = Suc m" using n(1) by (cases n) auto
  let ?w = "w\<lparr>m_count := (m_count w)(l := of_nat 1)\<rparr>"
  let ?v = "w\<lparr>m_count := (m_count w)(l := 0)\<rparr>"
  have split: "count_down_n K resume l (i + j) v =
      (case count_down_n K resume l i v of None \<Rightarrow> None | Some (Inl err) \<Rightarrow> Some (Inl err) | Some (Inr w') \<Rightarrow> count_down_n K resume l j w')"
    for i j v by (induction i arbitrary: v) (auto split: option.split sum.split)
  have "count_down_n K resume l m w = Some (Inr ?w)"
    using count_down_n_closed [of m n w l K resume] n c m by simp
  then have "count_down_n K resume l n w = count_down_n K resume l 1 ?w" using split [of m 1 w] by (simp add: m)
  also have "\<dots> = (case event_set K resume l ?v of None \<Rightarrow> None | Some (Inl err) \<Rightarrow> Some (Inl err) | Some (Inr w') \<Rightarrow> Some (Inr w'))"
    by (simp add: count_down_def Let_def split: option.split sum.split)
  finally have last: "count_down_n K resume l n w =
      (case event_set K resume l ?v of None \<Rightarrow> None | Some (Inl err) \<Rightarrow> Some (Inl err) | Some (Inr w') \<Rightarrow> Some (Inr w'))" .
  have "can_resume K cnt as ?v"
    using can by (simp add: can_resume_def contexts_ok_def efd_open_def context_room_def efd_count_def)
  with wait unset have "\<exists>w'. event_set K resume l ?v = Some (Inr w') \<and> is_set l w' \<and>
      (\<forall>c. queued c w' = queued c ?v @ for_context c (jobs_of (awaiters ?v) as))"
    using event_set_all [of ?v l as K cnt resume] by (simp add: is_set_def) blast
  then show "\<exists>w'. count_down_n K resume l n w = Some (Inr w') \<and> is_set l w' \<and>
       (\<forall>c. queued c w' = queued c w @ for_context c (jobs_of (awaiters w) as))"
    using last by auto
qed

theorem latch_opens_witness:
  "(\<exists>w'. count_down_n sample_kernel finishing 5 2 sample_evworld = Some (Inr w') \<and> \<not> is_set 5 w') \<and>
   (\<exists>w'. count_down_n sample_kernel finishing 5 3 sample_evworld = Some (Inr w') \<and> is_set 5 w')"
proof -
  have "waiting (awaiters sample_evworld) (m_state sample_evworld 5) [11, 12]" "\<not> is_set 5 sample_evworld"
    unfolding sample_evworld_simps fun_upd_same by (rule sample_waiting, simp add: is_set_def)
  from latch_opens [OF _ _ _ this sample_can_resume, of 3 finishing]
  have r: "(\<forall>k < 3. \<exists>w'. count_down_n sample_kernel finishing 5 k sample_evworld = Some (Inr w') \<and> \<not> is_set 5 w') \<and>
    (\<exists>w'. count_down_n sample_kernel finishing 5 3 sample_evworld = Some (Inr w') \<and> is_set 5 w')" by auto
  have "(2 :: nat) < 3" by simp
  with r show ?thesis by blast
qed


section \<open>The event under interleaving\<close>

text \<open>
  The atomic accesses of \<open>register_awaiter\<close>, \<open>set_state\<close> and \<open>resume_all_awaiter\<close>, by any number of
  waiting coroutines and one or more setters of the event \<open>e\<close>. \<open>E_loaded old\<close> is a waiter between its
  load (with \<^verbatim>\<open>m_next\<close> written) and its compare-and-exchange, which may also fail spuriously;
  \<open>E_through\<close> did not have to suspend. \<open>v_rest\<close> is the setter's variable \<^verbatim>\<open>waiter\<close>; an iteration of its
  loop is two steps, \<open>submit_one\<close>, which hands \<^verbatim>\<open>cur\<close> (\<open>v_cur\<close>) to its context, and \<open>read_next\<close>, which
  reads \<^verbatim>\<open>cur->m_next\<close>. In between, as at any time after the submission, the submitted coroutine may
  \<open>run_on\<close> past its \<^verbatim>\<open>co_await\<close>: its awaiter is then \<open>E_gone\<close>, and reading its \<^verbatim>\<open>m_next\<close> is undefined, so
  there is no such step. An address stands for one awaiter object, not for its storage.
\<close>

datatype event_pc = E_start | E_loaded addr | E_waiting | E_gone | E_through

record event_machine =
  v_state :: addr
  v_next :: "addr \<Rightarrow> addr"
  v_pc :: "addr \<Rightarrow> event_pc"
  v_rest :: addr
  v_cur :: addr
  v_resumed :: "addr list"

definition event_start :: "addr \<Rightarrow> event_machine \<Rightarrow> bool" where
  "event_start e s \<longleftrightarrow> v_state s = nullptr \<and> v_pc s = (\<lambda>_. E_start) \<and> v_rest s = nullptr \<and> v_cur s = nullptr \<and> v_resumed s = []"

inductive event_step :: "addr \<Rightarrow> event_machine \<Rightarrow> event_machine \<Rightarrow> bool" for e :: addr where
  load_set: "a \<noteq> e \<Longrightarrow> a \<noteq> nullptr \<Longrightarrow> v_pc s a = E_start \<Longrightarrow> v_state s = e \<Longrightarrow>
    event_step e s (s\<lparr>v_next := (v_next s)(a := nullptr), v_pc := (v_pc s)(a := E_through)\<rparr>)"
| load_list: "a \<noteq> e \<Longrightarrow> a \<noteq> nullptr \<Longrightarrow> v_pc s a = E_start \<Longrightarrow> v_state s \<noteq> e \<Longrightarrow>
    event_step e s (s\<lparr>v_next := (v_next s)(a := v_state s), v_pc := (v_pc s)(a := E_loaded (v_state s))\<rparr>)"
| cas_ok: "v_pc s a = E_loaded old \<Longrightarrow> v_state s = old \<Longrightarrow>
    event_step e s (s\<lparr>v_state := a, v_pc := (v_pc s)(a := E_waiting)\<rparr>)"
| cas_fail: "v_pc s a = E_loaded old \<Longrightarrow> event_step e s (s\<lparr>v_pc := (v_pc s)(a := E_start)\<rparr>)"
| exchange: "v_state s \<noteq> e \<Longrightarrow> event_step e s (s\<lparr>v_state := e, v_rest := v_state s\<rparr>)"
| submit_one: "v_rest s = a \<Longrightarrow> a \<noteq> nullptr \<Longrightarrow> v_cur s = nullptr \<Longrightarrow>
    event_step e s (s\<lparr>v_cur := a, v_resumed := v_resumed s @ [a]\<rparr>)"
| read_next: "v_cur s = a \<Longrightarrow> a \<noteq> nullptr \<Longrightarrow> v_pc s a \<noteq> E_gone \<Longrightarrow>
    event_step e s (s\<lparr>v_cur := nullptr, v_rest := v_next s a\<rparr>)"
| run_on: "a \<in> set (v_resumed s) \<Longrightarrow> v_pc s a = E_waiting \<Longrightarrow>
    event_step e s (s\<lparr>v_pc := (v_pc s)(a := E_gone)\<rparr>)"

text \<open>The awaiters that were registered, and where the part of the list starts that the setter has
  still to submit.\<close>

definition suspended :: "event_machine \<Rightarrow> addr set" where
  "suspended s = {a. v_pc s a = E_waiting \<or> v_pc s a = E_gone}"

definition unsubmitted :: "event_machine \<Rightarrow> addr" where
  "unsubmitted s = (if v_cur s = nullptr then v_rest s else v_next s (v_cur s))"

text \<open>Every suspended waiter is in exactly one place: registered, about to be resumed, or resumed.\<close>

definition event_places :: "addr \<Rightarrow> event_machine \<Rightarrow> addr list \<Rightarrow> addr list \<Rightarrow> bool" where
  "event_places e s reg rest \<longleftrightarrow>
     (if v_state s = e then reg = [] else chain (v_next s) (v_state s) reg \<and> rest = [] \<and> v_resumed s = []) \<and>
     chain (v_next s) (unsubmitted s) rest \<and> distinct (reg @ rest @ v_resumed s) \<and>
     suspended s = set (reg @ rest @ v_resumed s)"

definition event_inv :: "addr \<Rightarrow> event_machine \<Rightarrow> bool" where
  "event_inv e s \<longleftrightarrow>
     (\<exists>reg rest. event_places e s reg rest) \<and>
     (\<forall>a old. v_pc s a = E_loaded old \<longrightarrow> a \<noteq> e \<and> a \<noteq> nullptr \<and> old \<noteq> e \<and> v_next s a = old) \<and>
     (\<forall>a. v_pc s a = E_gone \<longrightarrow> a \<in> set (v_resumed s)) \<and>
     (v_cur s \<noteq> nullptr \<longrightarrow> v_cur s = v_rest s \<and> v_cur s \<in> set (v_resumed s))"

lemma event_invI:
  assumes "event_places e s reg rest"
    and "\<forall>a old. v_pc s a = E_loaded old \<longrightarrow> a \<noteq> e \<and> a \<noteq> nullptr \<and> old \<noteq> e \<and> v_next s a = old"
    and "\<forall>a. v_pc s a = E_gone \<longrightarrow> a \<in> set (v_resumed s)"
    and "v_cur s \<noteq> nullptr \<longrightarrow> v_cur s = v_rest s \<and> v_cur s \<in> set (v_resumed s)"
  shows "event_inv e s"
  using assms unfolding event_inv_def by blast

text \<open>A step of a waiter that is not suspended changes no link anybody else follows.\<close>

lemma event_places_load:
  assumes "event_places e s reg rest" and "v_pc s a \<noteq> E_waiting" "v_pc s a \<noteq> E_gone" and "p \<noteq> E_waiting" "p \<noteq> E_gone"
    and "v_cur s \<noteq> a"
  shows "event_places e (s\<lparr>v_next := (v_next s)(a := b), v_pc := (v_pc s)(a := p)\<rparr>) reg rest"
proof -
  have "suspended (s\<lparr>v_next := (v_next s)(a := b), v_pc := (v_pc s)(a := p)\<rparr>) = suspended s"
    using assms(2-5) by (auto simp: suspended_def)
  moreover have "a \<notin> suspended s" using assms(2,3) by (simp add: suspended_def)
  then have "a \<notin> set reg" "a \<notin> set rest" using assms(1) by (auto simp: event_places_def)
  ultimately show ?thesis using assms(1,6) by (auto simp: event_places_def unsubmitted_def)
qed

lemma event_inv_step:
  assumes step: "event_step e s t" and inv: "event_inv e s"
  shows "event_inv e t"
proof -
  from inv obtain reg rest where pl: "event_places e s reg rest"
    and ld: "\<forall>a old. v_pc s a = E_loaded old \<longrightarrow> a \<noteq> e \<and> a \<noteq> nullptr \<and> old \<noteq> e \<and> v_next s a = old"
    and gone: "\<forall>a. v_pc s a = E_gone \<longrightarrow> a \<in> set (v_resumed s)"
    and cur: "v_cur s \<noteq> nullptr \<longrightarrow> v_cur s = v_rest s \<and> v_cur s \<in> set (v_resumed s)"
    unfolding event_inv_def by blast
  have res: "v_pc s a = E_waiting \<or> v_pc s a = E_gone" if "a \<in> set (v_resumed s)" for a
    using that pl by (auto simp: event_places_def suspended_def)
  from step show ?thesis
  proof cases
    case (load_set a)
    then have "v_cur s \<noteq> a" using cur res [of a] by auto
    with load_set event_places_load [OF pl, of a E_through nullptr] have "event_places e t reg rest" by simp
    then show ?thesis by (rule event_invI) (use load_set ld gone cur in auto)
  next
    case (load_list a)
    then have "v_cur s \<noteq> a" using cur res [of a] by auto
    with load_list event_places_load [OF pl, of a "E_loaded (v_state s)" "v_state s"] have "event_places e t reg rest" by simp
    then show ?thesis by (rule event_invI) (use load_list ld gone cur in auto)
  next
    case (cas_ok a old)
    then have a: "a \<noteq> e" "a \<noteq> nullptr" "old \<noteq> e" "v_next s a = old" using ld by blast+
    have "suspended t = insert a (suspended s)" using cas_ok by (auto simp: suspended_def)
    moreover have "a \<notin> suspended s" using cas_ok by (simp add: suspended_def)
    ultimately have "event_places e t (a # reg) rest"
      using pl a cas_ok by (auto simp: event_places_def unsubmitted_def)
    then show ?thesis by (rule event_invI) (use cas_ok ld gone cur in auto)
  next
    case (cas_fail a old)
    have "suspended t = suspended s" using cas_fail by (auto simp: suspended_def)
    then have "event_places e t reg rest" using pl cas_fail by (auto simp: event_places_def unsubmitted_def)
    then show ?thesis by (rule event_invI) (use cas_fail ld gone cur in auto)
  next
    case exchange
    have none: "v_resumed s = []" "v_cur s = nullptr" using exchange pl cur by (auto simp: event_places_def)
    have "event_places e t [] reg" using exchange pl none by (simp add: event_places_def unsubmitted_def suspended_def)
    then show ?thesis by (rule event_invI) (use exchange ld gone cur none in auto)
  next
    case (submit_one a)
    then obtain rest' where r: "rest = a # rest'" "chain (v_next s) (v_next s a) rest'"
      using pl by (auto simp: event_places_def unsubmitted_def chain_start)
    then have "event_places e t reg rest'"
      using pl submit_one by (auto simp: event_places_def unsubmitted_def suspended_def split: if_splits)
    then show ?thesis by (rule event_invI) (use submit_one ld gone in auto)
  next
    case (read_next a)
    then have "event_places e t reg rest" using pl by (simp add: event_places_def unsubmitted_def suspended_def)
    then show ?thesis by (rule event_invI) (use read_next ld gone in auto)
  next
    case (run_on a)
    have "suspended t = suspended s" using run_on by (auto simp: suspended_def)
    then have "event_places e t reg rest" using pl run_on by (auto simp: event_places_def unsubmitted_def)
    then show ?thesis by (rule event_invI) (use run_on ld gone cur in auto)
  qed
qed

interpretation ev: step_system "event_start e" "event_step e" "event_inv e"
proof unfold_locales
  show "event_start e s \<Longrightarrow> event_inv e s" for s
    by (rule event_invI [of e s "[]" "[]"]) (auto simp: event_start_def event_places_def unsubmitted_def suspended_def)
qed (rule event_inv_step)

text \<open>Run on its own, the setter's loop submits the rest of its list, in order.\<close>

lemma setter_loop:
  "v_cur s = nullptr \<Longrightarrow> chain (v_next s) (v_rest s) rest \<Longrightarrow> \<forall>a \<in> set rest. v_pc s a \<noteq> E_gone \<Longrightarrow>
    (event_step e)\<^sup>*\<^sup>* s (s\<lparr>v_rest := nullptr, v_resumed := v_resumed s @ rest\<rparr>)"
proof (induction rest arbitrary: s)
  case Nil
  then have "s\<lparr>v_rest := nullptr, v_resumed := v_resumed s @ []\<rparr> = s" by simp
  then show ?case by simp
next
  case (Cons a rest)
  let ?s1 = "s\<lparr>v_cur := a, v_resumed := v_resumed s @ [a]\<rparr>"
  let ?s2 = "?s1\<lparr>v_cur := nullptr, v_rest := v_next s a\<rparr>"
  have "event_step e s ?s1" using Cons.prems by (intro submit_one) simp_all
  moreover have "event_step e ?s1 ?s2" using read_next [of ?s1 a e] Cons.prems by simp
  moreover have "(event_step e)\<^sup>*\<^sup>* ?s2 (?s2\<lparr>v_rest := nullptr, v_resumed := v_resumed ?s2 @ rest\<rparr>)"
    by (rule Cons.IH) (use Cons.prems in simp_all)
  moreover have "?s2\<lparr>v_rest := nullptr, v_resumed := v_resumed ?s2 @ rest\<rparr> = s\<lparr>v_rest := nullptr, v_resumed := v_resumed s @ a # rest\<rparr>"
    using Cons.prems(1) by simp
  ultimately show ?case by (metis converse_rtranclp_into_rtranclp)
qed

lemma setter_finishes:
  assumes inv: "event_inv e s" and pl: "event_places e s reg rest" and alive: "v_cur s = nullptr \<or> v_pc s (v_cur s) \<noteq> E_gone"
  shows "\<exists>t. (event_step e)\<^sup>*\<^sup>* s t \<and> v_rest t = nullptr \<and> v_cur t = nullptr \<and> v_resumed t = v_resumed s @ rest"
proof -
  have here: "\<forall>a \<in> set rest. v_pc s a \<noteq> E_gone" using inv pl by (auto simp: event_inv_def event_places_def)
  show ?thesis
  proof (cases "v_cur s = nullptr")
    case True
    then have "chain (v_next s) (v_rest s) rest" using pl by (simp add: event_places_def unsubmitted_def)
    with True here setter_loop [of s rest e] show ?thesis by (intro exI [of _ "s\<lparr>v_rest := nullptr, v_resumed := v_resumed s @ rest\<rparr>"]) simp
  next
    case False
    let ?s = "s\<lparr>v_cur := nullptr, v_rest := v_next s (v_cur s)\<rparr>"
    have "event_step e s ?s" using False alive by (intro read_next) simp_all
    moreover have "(event_step e)\<^sup>*\<^sup>* ?s (?s\<lparr>v_rest := nullptr, v_resumed := v_resumed ?s @ rest\<rparr>)"
      by (rule setter_loop) (use False pl here in \<open>simp_all add: event_places_def unsubmitted_def\<close>)
    ultimately show ?thesis
      by (intro exI [of _ "?s\<lparr>v_rest := nullptr, v_resumed := v_resumed ?s @ rest\<rparr>"]) (simp add: converse_rtranclp_into_rtranclp)
  qed
qed

text \<open>C5: no wake-up is lost and none is doubled, however waiters, setters and the resumed coroutines
  interleave: the suspended waiters are, without repetition, those registered in the event's list,
  those in the rest of the setter's list, and those already submitted; only a submitted one runs on.
  While the setter has not submitted all of them, it can go on and submit the rest in order, unless
  the awaiter whose link it is to read next is gone (the use after free of \<^verbatim>\<open>resume_all_awaiter\<close>).
  Once its loop is done every waiter that suspended has been resumed exactly once.\<close>

theorem event_no_lost_wakeup:
  assumes "reachable (event_start e) (event_step e) s" and "e \<noteq> nullptr"
  shows "\<exists>reg rest.
    (if v_state s = e then reg = [] else chain (v_next s) (v_state s) reg \<and> rest = [] \<and> v_resumed s = []) \<and>
    chain (v_next s) (if v_cur s = nullptr then v_rest s else v_next s (v_cur s)) rest \<and>
    distinct (reg @ rest @ v_resumed s) \<and>
    {a. v_pc s a = E_waiting \<or> v_pc s a = E_gone} = set (reg @ rest @ v_resumed s) \<and>
    {a. v_pc s a = E_gone} \<subseteq> set (v_resumed s) \<and>
    (v_cur s \<noteq> nullptr \<and> v_pc s (v_cur s) = E_gone \<or>
      (\<exists>t. (event_step e)\<^sup>*\<^sup>* s t \<and> v_rest t = nullptr \<and> v_cur t = nullptr \<and> v_resumed t = v_resumed s @ rest)) \<and>
    (v_state s = e \<and> v_rest s = nullptr \<longrightarrow> {a. v_pc s a = E_waiting \<or> v_pc s a = E_gone} = set (v_resumed s))"
proof -
  have inv: "event_inv e s" using ev.reachable_inv [OF assms(1)] .
  then obtain reg rest where pl: "event_places e s reg rest" unfolding event_inv_def by blast
  have gone: "{a. v_pc s a = E_gone} \<subseteq> set (v_resumed s)" "v_cur s \<noteq> nullptr \<longrightarrow> v_rest s \<noteq> nullptr"
    using inv by (auto simp: event_inv_def)
  have fin: "v_cur s \<noteq> nullptr \<and> v_pc s (v_cur s) = E_gone \<or>
      (\<exists>t. (event_step e)\<^sup>*\<^sup>* s t \<and> v_rest t = nullptr \<and> v_cur t = nullptr \<and> v_resumed t = v_resumed s @ rest)"
    using setter_finishes [OF inv pl] by metis
  have "rest = []" if "v_rest s = nullptr" using that gone(2) pl by (auto simp: event_places_def unsubmitted_def)
  then have "v_state s = e \<and> v_rest s = nullptr \<longrightarrow> suspended s = set (v_resumed s)"
    using pl by (auto simp: event_places_def)
  with pl fin gone(1) show ?thesis unfolding event_places_def unsubmitted_def suspended_def by blast
qed

definition event_machine0 :: event_machine where
  "event_machine0 = \<lparr>v_state = nullptr, v_next = (\<lambda>_. nullptr), v_pc = (\<lambda>_. E_start), v_rest = nullptr, v_cur = nullptr, v_resumed = []\<rparr>"

text \<open>The waiter 7 suspends, the setter submits it; from there either the setter reads the link and
  is done, or 7 runs on first and the setter is left with a link it must not read.\<close>

lemma sample_event_submitted:
  "reachable (event_start 5) (event_step 5)
     (event_machine0\<lparr>v_state := 5, v_next := (\<lambda>_. nullptr)(7 := nullptr), v_pc := (\<lambda>_. E_start)(7 := E_waiting),
        v_rest := 7, v_cur := 7, v_resumed := [7]\<rparr>)"
proof -
  let ?R = "reachable (event_start 5) (event_step 5)"
  note step = reach_step [where start = "event_start 5" and step = "event_step 5"]
  have "?R event_machine0" by (rule reach_start) (simp add: event_start_def event_machine0_def)
  from step [OF this load_list [of 7]]
  have "?R (event_machine0\<lparr>v_next := (\<lambda>_. nullptr)(7 := nullptr), v_pc := (\<lambda>_. E_start)(7 := E_loaded nullptr)\<rparr>)"
    by (simp add: event_machine0_def)
  from step [OF this cas_ok [of _ 7 0]]
  have "?R (event_machine0\<lparr>v_state := 7, v_next := (\<lambda>_. nullptr)(7 := nullptr), v_pc := (\<lambda>_. E_start)(7 := E_waiting)\<rparr>)"
    by (simp add: event_machine0_def)
  from step [OF this exchange]
  have "?R (event_machine0\<lparr>v_state := 5, v_rest := 7, v_next := (\<lambda>_. nullptr)(7 := nullptr), v_pc := (\<lambda>_. E_start)(7 := E_waiting)\<rparr>)"
    by (simp add: event_machine0_def)
  from step [OF this submit_one [of _ 7]] show ?thesis by (simp add: event_machine0_def)
qed

lemma event_reads_gone_reachable:
  "\<exists>s. reachable (event_start 5) (event_step 5) s \<and> v_cur s \<noteq> nullptr \<and> v_pc s (v_cur s) = E_gone"
  by (rule exI, rule conjI, rule reach_step [OF sample_event_submitted], rule run_on [of 7]) simp_all

lemma sample_event_run:
  "reachable (event_start 5) (event_step 5)
     (event_machine0\<lparr>v_state := 5, v_next := (\<lambda>_. nullptr)(7 := nullptr), v_pc := (\<lambda>_. E_start)(7 := E_waiting), v_resumed := [7]\<rparr>)"
  using reach_step [OF sample_event_submitted read_next [of _ 7]] by (simp add: event_machine0_def)

theorem event_no_lost_wakeup_witness:
  "\<exists>s. reachable (event_start 5) (event_step 5) s \<and> v_resumed s = [7] \<and> {a. v_pc s a = E_waiting} = {7}"
proof (intro exI conjI)
  let ?s = "event_machine0\<lparr>v_state := 5, v_next := (\<lambda>_. nullptr)(7 := nullptr), v_pc := (\<lambda>_. E_start)(7 := E_waiting), v_resumed := [7]\<rparr>"
  show "reachable (event_start 5) (event_step 5) ?s" by (rule sample_event_run)
  show "v_resumed ?s = [7]" by simp
  have "v_state ?s = 5 \<and> v_rest ?s = nullptr" by (simp add: event_machine0_def)
  with event_no_lost_wakeup [OF sample_event_run] have "{a. v_pc ?s a = E_waiting \<or> v_pc ?s a = E_gone} = {7}" by fastforce
  moreover have "v_pc ?s a \<noteq> E_gone" for a by simp
  ultimately show "{a. v_pc ?s a = E_waiting} = {7}" by simp
qed

text \<open>A world in which context 0 is a worker with a full queue, and one coroutine (awaiter 11) waits
  for the event 5; resuming it runs it past its \<^verbatim>\<open>co_await\<close>, which ends the awaiter's life.\<close>

definition resume_past_wait :: "handle \<Rightarrow> ('k, 'v, 'z) evworld_scheme \<Rightarrow> ('k, 'v, 'z) evworld_scheme result" where
  "resume_past_wait h w = Inr (w\<lparr>awaiters := (awaiters w)(11 := None)\<rparr>)"

definition full_queue_event_world :: "(nat, nat) evworld" where
  "full_queue_event_world =
     aworld.extend
       ((sample_aworld [11 \<mapsto> \<lparr>a_ctx = 0, a_obj = 5, a_next = 0, a_coro = 71\<rparr>])
         \<lparr>engines := engines sample_full_world, linfo_ctx := Some 0, w_frames := [71 \<mapsto> new_frame]\<rparr>)
       \<lparr>m_state = (\<lambda>_. nullptr)(5 := 11), ev_values = (\<lambda>_. Unset), m_count = (\<lambda>_. 0)\<rparr>"

text \<open>C37: setting an event reads the link of an awaiter after having submitted its coroutine. When the
  submission runs the coroutine (a full queue, or another worker that is quicker), the awaiter
  is gone by then.\<close>

theorem event_set_use_after_free:
  "event_set sample_kernel resume_past_wait 5 full_queue_event_world = Some (Inl Use_after_free)"
proof -
  have "try_push h sample_full_queue = Inr (False, sample_full_queue)" for h
    using sample_full by (intro try_push_full) (simp_all add: sample_full_world_def)
  then show ?thesis
    by (simp add: event_set_def event_set_state_def Let_def resume_all_awaiter_def resume_linked.simps [of _ _ 11] submit_awaiter_def
        get_awaiter_def context_submit_def submit_task_def is_in_working_state_def exec_task_def resume_past_wait_def
        is_done_def new_frame_def add_depth_def kMaxRecursiveDepth_def full_queue_event_world_def sample_aworld_def
        aworld.defs sworld.defs sample_sworld_def cworld.defs eworld.defs sample_full_world_def sample_engine_def sample_world_def)
qed

end
