(* ===== verification/Wait_Group.thy ===== *)
theory Wait_Group
  imports Awaiter
begin

text \<open>
  Wait groups: \<^verbatim>\<open>include/coro/comp/wait_group.hpp\<close>, \<^verbatim>\<open>src/comp/wait_group.cpp\<close>. First the operations
  as they run without interference, then \<open>wg_step\<close>, their atomic accesses interleaved.
\<close>

record 'k wgworld = "'k aworld" +
  wg_count :: "addr \<Rightarrow> 32 word"
  wg_state :: "addr \<Rightarrow> addr"

section \<open>Operations\<close>

definition new_wait_group :: "int \<Rightarrow> addr \<Rightarrow> ('k, 'z) wgworld_scheme \<Rightarrow> ('k, 'z) wgworld_scheme" where
  "new_wait_group count g w = w\<lparr>wg_count := (wg_count w)(g := of_int count), wg_state := (wg_state w)(g := nullptr)\<rparr>"

definition wg_await_suspend :: "addr \<Rightarrow> handle \<Rightarrow> ('k, 'z) wgworld_scheme \<Rightarrow> (bool \<times> ('k, 'z) wgworld_scheme) result" where
  "wg_await_suspend a h w =
     bindE (get_awaiter a w) (\<lambda>x.
     let g = a_obj x; w1 = register_wait 1 (a_ctx x) (put_awaiter a (x\<lparr>a_coro := h\<rparr>) w) in
     if wg_count w1 g = 0 then Inr (False, w1)
     else Inr (True, (put_awaiter a (x\<lparr>a_coro := h, a_next := wg_state w1 g\<rparr>) w1)\<lparr>wg_state := (wg_state w1)(g := a)\<rparr>))"

definition wg_await_resume :: "addr \<Rightarrow> ('k, 'z) wgworld_scheme \<Rightarrow> ('k, 'z) wgworld_scheme result" where
  "wg_await_resume a w = bindE (get_awaiter a w) (\<lambda>x. Inr (unregister_wait 1 (a_ctx x) w))"

definition wg_resume where
  "wg_resume K resume a w = submit_awaiter K resume a w"

definition wg_add :: "int \<Rightarrow> addr \<Rightarrow> ('k, 'z) wgworld_scheme \<Rightarrow> ('k, 'z) wgworld_scheme" where
  "wg_add count g w = w\<lparr>wg_count := (wg_count w)(g := wg_count w g + of_int count)\<rparr>"

definition wg_done where
  "wg_done K resume g w =
     (let old = wg_count w g; w1 = w\<lparr>wg_count := (wg_count w)(g := old - 1)\<rparr> in
      if old = 1 then resume_linked K resume (wg_state w1 g) (w1\<lparr>wg_state := (wg_state w1)(g := nullptr)\<rparr>)
      else Some (Inr w1))"

definition wg_wait :: "addr \<Rightarrow> addr \<Rightarrow> ('k, 'z) wgworld_scheme \<Rightarrow> ('k, 'z) wgworld_scheme result" where
  "wg_wait g a w = bindE (local_context w) (\<lambda>c. Inr (put_awaiter a (new_awaiter c g) w))"


section \<open>The wait group under interleaving\<close>

text \<open>
  One wait group under any number of waiters, callers of \<^verbatim>\<open>add()\<close> and threads \<open>d\<close> that call \<^verbatim>\<open>done()\<close>;
  the count is the 32-bit integer of the source and wraps. \<open>G_counted\<close> has seen a count that is not
  zero, \<open>G_loaded old\<close> has read the head and written \<^verbatim>\<open>m_next\<close>, \<open>G_gone\<close> has been resumed and has run past
  its \<^verbatim>\<open>co_await\<close>, so that its awaiter no longer exists. In \<^verbatim>\<open>done()\<close>, \<open>D_exchange\<close> has taken the count from
  one to zero and will exchange the head for \<^verbatim>\<open>nullptr\<close>; \<open>D_loop head\<close> is at the test of the loop;
  \<open>D_read head\<close> is between \<^verbatim>\<open>head->resume()\<close> and the read of \<^verbatim>\<open>head->m_next\<close>, which is undefined, hence no
  step, when that awaiter is gone. An address stands for one awaiter object, not for its storage.
\<close>

datatype wg_pc = G_start | G_counted | G_loaded addr | G_waiting | G_gone | G_through

datatype done_pc = D_idle | D_exchange | D_loop addr | D_read addr

record wg_machine =
  g_count :: "32 word"
  g_state :: addr
  g_next :: "addr \<Rightarrow> addr"
  g_pc :: "addr \<Rightarrow> wg_pc"
  g_done :: "nat \<Rightarrow> done_pc"
  g_resumed :: "addr list"

definition wg_start :: "wg_machine \<Rightarrow> bool" where
  "wg_start s \<longleftrightarrow> g_state s = nullptr \<and> g_pc s = (\<lambda>_. G_start) \<and> g_done s = (\<lambda>_. D_idle) \<and> g_resumed s = []"

inductive wg_step :: "wg_machine \<Rightarrow> wg_machine \<Rightarrow> bool" where
  count_zero: "a \<noteq> nullptr \<Longrightarrow> g_pc s a = G_start \<Longrightarrow> g_count s = 0 \<Longrightarrow>
    wg_step s (s\<lparr>g_pc := (g_pc s)(a := G_through)\<rparr>)"
| count_seen: "a \<noteq> nullptr \<Longrightarrow> g_pc s a = G_start \<Longrightarrow> g_count s \<noteq> 0 \<Longrightarrow>
    wg_step s (s\<lparr>g_pc := (g_pc s)(a := G_counted)\<rparr>)"
| load_head: "g_pc s a = G_counted \<Longrightarrow>
    wg_step s (s\<lparr>g_next := (g_next s)(a := g_state s), g_pc := (g_pc s)(a := G_loaded (g_state s))\<rparr>)"
| cas_ok: "g_pc s a = G_loaded old \<Longrightarrow> g_state s = old \<Longrightarrow>
    wg_step s (s\<lparr>g_state := a, g_pc := (g_pc s)(a := G_waiting)\<rparr>)"
| cas_fail: "g_pc s a = G_loaded old \<Longrightarrow> wg_step s (s\<lparr>g_pc := (g_pc s)(a := G_start)\<rparr>)"
| add_count: "wg_step s (s\<lparr>g_count := g_count s + c\<rparr>)"
| sub_count: "g_done s d = D_idle \<Longrightarrow>
    wg_step s (s\<lparr>g_count := g_count s - 1, g_done := (g_done s)(d := if g_count s = 1 then D_exchange else D_idle)\<rparr>)"
| exchange: "g_done s d = D_exchange \<Longrightarrow>
    wg_step s (s\<lparr>g_state := nullptr, g_done := (g_done s)(d := D_loop (g_state s))\<rparr>)"
| submit_one: "g_done s d = D_loop a \<Longrightarrow> a \<noteq> nullptr \<Longrightarrow>
    wg_step s (s\<lparr>g_resumed := g_resumed s @ [a], g_done := (g_done s)(d := D_read a)\<rparr>)"
| read_next: "g_done s d = D_read a \<Longrightarrow> g_pc s a \<noteq> G_gone \<Longrightarrow>
    wg_step s (s\<lparr>g_done := (g_done s)(d := D_loop (g_next s a))\<rparr>)"
| loop_end: "g_done s d = D_loop nullptr \<Longrightarrow> wg_step s (s\<lparr>g_done := (g_done s)(d := D_idle)\<rparr>)"
| run_on: "a \<in> set (g_resumed s) \<Longrightarrow> g_pc s a = G_waiting \<Longrightarrow> wg_step s (s\<lparr>g_pc := (g_pc s)(a := G_gone)\<rparr>)"

text \<open>Where the part of a \<^verbatim>\<open>done()\<close>'s list starts that it has not submitted.\<close>

fun unsubmitted_from :: "(addr \<Rightarrow> addr) \<Rightarrow> done_pc \<Rightarrow> addr" where
  "unsubmitted_from nxt (D_loop a) = a"
| "unsubmitted_from nxt (D_read a) = nxt a"
| "unsubmitted_from nxt D_idle = nullptr"
| "unsubmitted_from nxt D_exchange = nullptr"

definition wg_suspended :: "wg_machine \<Rightarrow> addr set" where
  "wg_suspended s = {a. g_pc s a = G_waiting \<or> g_pc s a = G_gone}"

text \<open>A suspended waiter is registered, in the list of exactly one \<^verbatim>\<open>done()\<close>, or has been resumed.\<close>

definition wg_places :: "wg_machine \<Rightarrow> addr list \<Rightarrow> (nat \<Rightarrow> addr list) \<Rightarrow> bool" where
  "wg_places s reg L \<longleftrightarrow>
     chain (g_next s) (g_state s) reg \<and> (\<forall>d. chain (g_next s) (unsubmitted_from (g_next s) (g_done s d)) (L d)) \<and>
     (\<forall>d. distinct (reg @ L d @ g_resumed s)) \<and> (\<forall>d d'. d \<noteq> d' \<longrightarrow> set (L d) \<inter> set (L d') = {}) \<and>
     wg_suspended s = set reg \<union> (\<Union>d. set (L d)) \<union> set (g_resumed s)"

definition wg_inv :: "wg_machine \<Rightarrow> bool" where
  "wg_inv s \<longleftrightarrow>
     (\<exists>reg L. wg_places s reg L) \<and>
     (\<forall>a old. g_pc s a = G_loaded old \<longrightarrow> a \<noteq> nullptr \<and> g_next s a = old) \<and> (\<forall>a. g_pc s a = G_counted \<longrightarrow> a \<noteq> nullptr) \<and>
     (\<forall>a. g_pc s a = G_gone \<longrightarrow> a \<in> set (g_resumed s)) \<and>
     (\<forall>d a. g_done s d = D_read a \<longrightarrow> a \<in> set (g_resumed s))"

lemma wg_invI:
  assumes "wg_places s reg L"
    and "\<forall>a old. g_pc s a = G_loaded old \<longrightarrow> a \<noteq> nullptr \<and> g_next s a = old" and "\<forall>a. g_pc s a = G_counted \<longrightarrow> a \<noteq> nullptr"
    and "\<forall>a. g_pc s a = G_gone \<longrightarrow> a \<in> set (g_resumed s)" and "\<forall>d a. g_done s d = D_read a \<longrightarrow> a \<in> set (g_resumed s)"
  shows "wg_inv s"
  using assms unfolding wg_inv_def by blast

lemma unsubmitted_from_frame:
  "p \<noteq> D_read a \<Longrightarrow> unsubmitted_from (nxt(a := b)) p = unsubmitted_from nxt p"
  by (cases p) auto

text \<open>A step of a waiter that is neither suspended nor becomes so leaves every list alone, and so does a
  step of \<^verbatim>\<open>done()\<close> that moves no awaiter.\<close>

lemma wg_places_waiter:
  assumes pl: "wg_places s reg L" and t: "g_next t = g_next s" "g_state t = g_state s" "g_done t = g_done s" "g_resumed t = g_resumed s"
    and "wg_suspended t = wg_suspended s"
  shows "wg_places t reg L"
  using assms by (simp add: wg_places_def)

lemma wg_places_done:
  assumes pl: "wg_places s reg L" and t: "g_next t = g_next s" "g_state t = g_state s" "g_pc t = g_pc s" "g_resumed t = g_resumed s"
    and "\<And>d. unsubmitted_from (g_next s) (g_done t d) = unsubmitted_from (g_next s) (g_done s d)"
  shows "wg_places t reg L"
  using assms by (simp add: wg_places_def wg_suspended_def)

lemma wg_places_load:
  assumes pl: "wg_places s reg L" and a: "a \<notin> wg_suspended s" and rd: "\<forall>d. g_done s d \<noteq> D_read a"
    and t: "g_next t = (g_next s)(a := b)" "g_state t = g_state s" "g_done t = g_done s" "g_resumed t = g_resumed s"
    and su: "wg_suspended t = wg_suspended s"
  shows "wg_places t reg L"
proof -
  have "a \<notin> set reg" "\<And>d. a \<notin> set (L d)" using a pl by (auto simp: wg_places_def)
  then show ?thesis using pl t su rd by (simp add: wg_places_def unsubmitted_from_frame)
qed

lemma UN_split_at: "(\<Union>x. f x) = f y \<union> (\<Union>x \<in> - {y}. f x)"
  by blast

lemma UN_fun_upd: "(\<Union>x. set ((L(d := xs)) x)) = set xs \<union> (\<Union>x \<in> - {d}. set (L x))"
  by (subst UN_split_at [of _ d]) simp

lemma wg_places_exchange:
  assumes pl: "wg_places s reg L" and d: "g_done s d = D_exchange"
  shows "wg_places (s\<lparr>g_state := nullptr, g_done := (g_done s)(d := D_loop (g_state s))\<rparr>) [] (L(d := reg))"
proof -
  have none: "L d = []" using pl d unfolding wg_places_def by (metis chain_nullptr unsubmitted_from.simps(4))
  then have "(\<Union>d'. set ((L(d := reg)) d')) = set reg \<union> (\<Union>d'. set (L d'))"
    using UN_split_at [of "\<lambda>x. set (L x)" d] by (simp only: UN_fun_upd) simp
  moreover have "distinct (reg @ L d' @ g_resumed s)" for d' using pl by (simp add: wg_places_def)
  then have "distinct (L d' @ g_resumed s)" "set reg \<inter> set (L d') = {}" "distinct (reg @ g_resumed s)" for d' by auto
  ultimately show ?thesis using pl by (auto simp: wg_places_def wg_suspended_def)
qed

lemma wg_places_submit:
  assumes pl: "wg_places s reg L" and d: "g_done s d = D_loop a" "a \<noteq> nullptr"
  shows "wg_places (s\<lparr>g_resumed := g_resumed s @ [a], g_done := (g_done s)(d := D_read a)\<rparr>) reg (L(d := tl (L d)))"
proof -
  have "chain (g_next s) (unsubmitted_from (g_next s) (g_done s d)) (L d)" using pl by (simp add: wg_places_def)
  then obtain as where L: "L d = a # as" "chain (g_next s) (g_next s a) as" using d by (auto simp: chain_start)
  have un: "(\<Union>d'. set (L d')) = insert a (\<Union>d'. set ((L(d := as)) d'))"
    using UN_split_at [of "\<lambda>x. set (L x)" d] L(1) by (simp only: UN_fun_upd) simp
  have dist: "distinct (reg @ L d' @ g_resumed s)" for d' using pl by (simp add: wg_places_def)
  have other: "set (L d') \<inter> set (L d) = {}" if "d' \<noteq> d" for d' using pl that by (simp add: wg_places_def)
  have "distinct (reg @ (L(d := as)) d' @ g_resumed s @ [a])" for d'
    using dist [of d'] dist [of d] other [of d'] L(1) by (cases "d' = d") auto
  moreover have sub: "set ((L(d := as)) x) \<subseteq> set (L x)" for x using L(1) by auto
  have "set ((L(d := as)) d1) \<inter> set ((L(d := as)) d2) = {}" if "d1 \<noteq> d2" for d1 d2
  proof -
    have "set (L d1) \<inter> set (L d2) = {}" using pl that by (simp add: wg_places_def)
    then show ?thesis using sub [of d1] sub [of d2] by blast
  qed
  ultimately show ?thesis
    using pl L un unfolding wg_places_def by (simp add: wg_suspended_def Un_assoc)
qed

lemma wg_inv_step:
  assumes step: "wg_step s t" and inv: "wg_inv s"
  shows "wg_inv t"
proof -
  from inv obtain reg L where pl: "wg_places s reg L"
    and ld: "\<forall>a old. g_pc s a = G_loaded old \<longrightarrow> a \<noteq> nullptr \<and> g_next s a = old" and co: "\<forall>a. g_pc s a = G_counted \<longrightarrow> a \<noteq> nullptr"
    and gone: "\<forall>a. g_pc s a = G_gone \<longrightarrow> a \<in> set (g_resumed s)" and rd: "\<forall>d a. g_done s d = D_read a \<longrightarrow> a \<in> set (g_resumed s)"
    unfolding wg_inv_def by blast
  have res: "g_pc s a = G_waiting \<or> g_pc s a = G_gone" if "a \<in> set (g_resumed s)" for a
    using that pl by (auto simp: wg_places_def wg_suspended_def)
  from step show ?thesis
  proof cases
    case (count_zero a)
    then have "wg_places t reg L" by (intro wg_places_waiter [OF pl]) (auto simp: wg_suspended_def)
    then show ?thesis by (rule wg_invI) (use count_zero ld co gone rd in auto)
  next
    case (count_seen a)
    then have "wg_places t reg L" by (intro wg_places_waiter [OF pl]) (auto simp: wg_suspended_def)
    then show ?thesis by (rule wg_invI) (use count_seen ld co gone rd in auto)
  next
    case (load_head a)
    have "\<forall>d. g_done s d \<noteq> D_read a" using load_head rd res by fastforce
    then have "wg_places t reg L" using load_head by (intro wg_places_load [OF pl]) (auto simp: wg_suspended_def)
    then show ?thesis by (rule wg_invI) (use load_head ld co gone rd in auto)
  next
    case (cas_ok a old)
    then have a: "a \<noteq> nullptr" "g_next s a = old" using ld by blast+
    have su: "wg_suspended t = insert a (wg_suspended s)" using cas_ok by (auto simp: wg_suspended_def)
    have "a \<notin> wg_suspended s" using cas_ok by (simp add: wg_suspended_def)
    then have "a \<notin> set reg" "\<And>d. a \<notin> set (L d)" "a \<notin> set (g_resumed s)" using pl by (auto simp: wg_places_def)
    then have "wg_places t (a # reg) L" using pl a cas_ok su by (auto simp: wg_places_def)
    then show ?thesis by (rule wg_invI) (use cas_ok ld co gone rd in auto)
  next
    case (cas_fail a old)
    then have "wg_places t reg L" by (intro wg_places_waiter [OF pl]) (auto simp: wg_suspended_def)
    then show ?thesis by (rule wg_invI) (use cas_fail ld co gone rd in auto)
  next
    case (add_count c)
    then have "wg_places t reg L" by (intro wg_places_waiter [OF pl]) (auto simp: wg_suspended_def)
    then show ?thesis by (rule wg_invI) (use add_count ld co gone rd in auto)
  next
    case (sub_count d)
    then have "wg_places t reg L" by (intro wg_places_done [OF pl]) auto
    then show ?thesis by (rule wg_invI) (use sub_count ld co gone rd in auto)
  next
    case (exchange d)
    then have "wg_places t [] (L(d := reg))" using wg_places_exchange [OF pl] by simp
    then show ?thesis by (rule wg_invI) (use exchange ld co gone rd in auto)
  next
    case (submit_one d a)
    then have "wg_places t reg (L(d := tl (L d)))" using wg_places_submit [OF pl] by simp
    then show ?thesis by (rule wg_invI) (use submit_one ld co gone rd in auto)
  next
    case (read_next d a)
    then have "wg_places t reg L" by (intro wg_places_done [OF pl]) auto
    then show ?thesis by (rule wg_invI) (use read_next ld co gone rd in auto)
  next
    case (loop_end d)
    then have "wg_places t reg L" by (intro wg_places_done [OF pl]) auto
    then show ?thesis by (rule wg_invI) (use loop_end ld co gone rd in auto)
  next
    case (run_on a)
    then have "wg_places t reg L" by (intro wg_places_waiter [OF pl]) (auto simp: wg_suspended_def)
    then show ?thesis by (rule wg_invI) (use run_on ld co gone rd in auto)
  qed
qed

interpretation wg: step_system wg_start wg_step wg_inv
proof unfold_locales
  show "wg_start s \<Longrightarrow> wg_inv s" for s
    by (rule wg_invI [of s "[]" "\<lambda>_. []"]) (auto simp: wg_start_def wg_places_def wg_suspended_def)
qed (rule wg_inv_step)

text \<open>Run on its own, a \<^verbatim>\<open>done()\<close> submits the rest of its list, in order, and returns.\<close>

lemma done_loop:
  "g_done s d = D_loop p \<Longrightarrow> chain (g_next s) p as \<Longrightarrow> \<forall>a \<in> set as. g_pc s a \<noteq> G_gone \<Longrightarrow>
    wg_step\<^sup>*\<^sup>* s (s\<lparr>g_resumed := g_resumed s @ as, g_done := (g_done s)(d := D_idle)\<rparr>)"
proof (induction as arbitrary: s p)
  case Nil
  then have "wg_step s (s\<lparr>g_done := (g_done s)(d := D_idle)\<rparr>)" by (intro loop_end) simp
  then have "wg_step\<^sup>*\<^sup>* s (s\<lparr>g_done := (g_done s)(d := D_idle)\<rparr>)" by (rule r_into_rtranclp)
  then show ?case by (simp del: fun_upd_apply)
next
  case (Cons a as)
  let ?s1 = "s\<lparr>g_resumed := g_resumed s @ [a], g_done := (g_done s)(d := D_read a)\<rparr>"
  let ?s2 = "?s1\<lparr>g_done := (g_done ?s1)(d := D_loop (g_next s a))\<rparr>"
  have "wg_step s ?s1" using Cons.prems by (intro submit_one) simp_all
  moreover have "wg_step ?s1 ?s2" using read_next [of ?s1 d a] Cons.prems by simp
  moreover have "wg_step\<^sup>*\<^sup>* ?s2 (?s2\<lparr>g_resumed := g_resumed ?s2 @ as, g_done := (g_done ?s2)(d := D_idle)\<rparr>)"
    by (rule Cons.IH [of _ "g_next s a"]) (use Cons.prems in simp_all)
  ultimately have "wg_step\<^sup>*\<^sup>* s (?s2\<lparr>g_resumed := g_resumed ?s2 @ as, g_done := (g_done ?s2)(d := D_idle)\<rparr>)"
    by (intro converse_rtranclp_into_rtranclp [of wg_step s ?s1] converse_rtranclp_into_rtranclp [of wg_step ?s1 ?s2])
  then show ?case by (simp del: fun_upd_apply)
qed

lemma done_returns:
  assumes inv: "wg_inv s" and pl: "wg_places s reg L" and alive: "\<forall>a. g_done s d = D_read a \<longrightarrow> g_pc s a \<noteq> G_gone"
  shows "\<exists>t. wg_step\<^sup>*\<^sup>* s t \<and> g_done t d = D_idle \<and>
    g_resumed t = g_resumed s @ (if g_done s d = D_exchange then reg else L d)"
proof -
  have res: "\<forall>a. g_pc s a = G_gone \<longrightarrow> a \<in> set (g_resumed s)" using inv by (simp add: wg_inv_def)
  have here: "\<forall>a \<in> set (reg @ L d). g_pc s a \<noteq> G_gone" using res pl unfolding wg_places_def
    by (metis Un_iff disjoint_iff distinct_append set_append)
  have ch: "chain (g_next s) (unsubmitted_from (g_next s) (g_done s d)) (L d)" using pl by (simp add: wg_places_def)
  show ?thesis
  proof (cases "g_done s d")
    case D_idle
    then show ?thesis using ch by auto
  next
    case D_exchange
    let ?s = "s\<lparr>g_state := nullptr, g_done := (g_done s)(d := D_loop (g_state s))\<rparr>"
    have "wg_step s ?s" by (rule exchange) (rule D_exchange)
    moreover have "wg_step\<^sup>*\<^sup>* ?s (?s\<lparr>g_resumed := g_resumed ?s @ reg, g_done := (g_done ?s)(d := D_idle)\<rparr>)"
      by (rule done_loop [of _ _ "g_state s"]) (use here pl in \<open>simp_all add: wg_places_def\<close>)
    ultimately have "wg_step\<^sup>*\<^sup>* s (?s\<lparr>g_resumed := g_resumed ?s @ reg, g_done := (g_done ?s)(d := D_idle)\<rparr>)"
      by (rule converse_rtranclp_into_rtranclp)
    then show ?thesis using D_exchange by (intro exI conjI) (assumption, simp_all)
  next
    case (D_loop p)
    have "wg_step\<^sup>*\<^sup>* s (s\<lparr>g_resumed := g_resumed s @ L d, g_done := (g_done s)(d := D_idle)\<rparr>)"
      by (rule done_loop [OF D_loop]) (use here ch D_loop in simp_all)
    then show ?thesis using D_loop by (intro exI conjI) (assumption, simp_all)
  next
    case (D_read a)
    let ?s = "s\<lparr>g_done := (g_done s)(d := D_loop (g_next s a))\<rparr>"
    have "wg_step s ?s" by (rule read_next) (use D_read alive in simp_all)
    moreover have "wg_step\<^sup>*\<^sup>* ?s (?s\<lparr>g_resumed := g_resumed ?s @ L d, g_done := (g_done ?s)(d := D_idle)\<rparr>)"
      by (rule done_loop [of _ _ "g_next s a"]) (use here ch D_read in simp_all)
    ultimately have "wg_step\<^sup>*\<^sup>* s (?s\<lparr>g_resumed := g_resumed ?s @ L d, g_done := (g_done ?s)(d := D_idle)\<rparr>)"
      by (rule converse_rtranclp_into_rtranclp)
    then show ?thesis using D_read by (intro exI conjI) (assumption, simp_all)
  qed
qed


section \<open>Properties\<close>

text \<open>\<^verbatim>\<open>done()\<close> counts down; the call that takes the count from one to zero hands every registered
  coroutine to its own context exactly once, the latest waiter first, and empties the list.
  Any other call resumes nobody.\<close>

theorem wait_group_done:
  assumes wait: "waiting (awaiters w) (wg_state w g) as" and can: "can_resume K cnt as w"
  shows "\<exists>w'. wg_done K resume g w = Some (Inr w') \<and> wg_count w' g = wg_count w g - 1 \<and>
    (if wg_count w g = 1
     then wg_state w' g = nullptr \<and> (\<forall>c. queued c w' = queued c w @ for_context c (jobs_of (awaiters w) as))
     else wg_state w' g = wg_state w g \<and> engines w' = engines w)"
proof (cases "wg_count w g = 1")
  case True
  let ?w = "w\<lparr>wg_count := (wg_count w)(g := 0), wg_state := (wg_state w)(g := nullptr)\<rparr>"
  have can': "can_resume K cnt as ?w"
    using can by (simp add: can_resume_def contexts_ok_def efd_open_def context_room_def efd_count_def)
  from can_resume_all [OF can', of resume] obtain w' where
    w': "submit_all (context_submit K resume) (jobs_of (awaiters w) as) ?w = Inr w'" "context_rest w' = context_rest ?w"
    "\<forall>c. queued c w' = queued c w @ for_context c (jobs_of (awaiters w) as)" by auto
  have "wg_done K resume g w = Some (Inr w')"
    using resume_linked_submits [of ?w _ as K cnt resume] wait can' w'(1) True by (simp add: wg_done_def Let_def)
  moreover have "aworld.more w' = aworld.more ?w" using rest_awaiters [OF w'(2)] by simp
  then have "wg_count w' g = 0" "wg_state w' g = nullptr" by (cases w; cases w'; simp)+
  ultimately show ?thesis using True w'(3) by simp
next
  case False
  then show ?thesis by (simp add: wg_done_def Let_def)
qed

definition sample_wgworld :: "nat wgworld" where
  "sample_wgworld =
     aworld.extend (sample_aworld sample_awaiters) \<lparr>wg_count = (\<lambda>_. 1), wg_state = (\<lambda>_. nullptr)(5 := 11)\<rparr>"

lemma sample_wgworld_simps [simp]:
  "awaiters sample_wgworld = sample_awaiters" "wg_state sample_wgworld = (\<lambda>_. nullptr)(5 := 11)"
  "engines sample_wgworld = engines sample_world" "wg_count sample_wgworld = (\<lambda>_. 1)"
  by (simp_all add: sample_wgworld_def sample_aworld_def aworld.defs sworld.defs sample_sworld_def cworld.defs eworld.defs)

theorem wait_group_done_witness:
  "\<exists>w'. wg_done sample_kernel finishing 5 sample_wgworld = Some (Inr w') \<and> wg_count w' 5 = 0 \<and>
     queued 0 w' = [71] \<and> queued 1 w' = [72]"
proof -
  have wt: "waiting (awaiters sample_wgworld) (wg_state sample_wgworld 5) [11, 12]"
    unfolding sample_wgworld_simps fun_upd_same by (rule sample_waiting)
  have can: "can_resume sample_kernel (\<lambda>fd k. k) [11, 12] sample_wgworld"
    using sample_room [of sample_wgworld] by (simp add: can_resume_def sample_awaiters_def jobs_of_def)
  from wait_group_done [OF wt can, of finishing] obtain w' where
    w': "wg_done sample_kernel finishing 5 sample_wgworld = Some (Inr w')" "wg_count w' 5 = 0"
    and q: "\<And>c. queued c w' = queued c sample_wgworld @ for_context c (jobs_of sample_awaiters [11, 12])" by auto
  have "queued c sample_wgworld = []" for c using sample_queue(2) [of c] by simp
  then show ?thesis using w' q [of 0] q [of 1] by (simp add: sample_awaiters_def jobs_of_def)
qed

text \<open>C34: however waiters and the calls of \<^verbatim>\<open>add()\<close> and \<^verbatim>\<open>done()\<close> interleave, and however the count wraps,
  a suspended waiter is never dropped from the data structure nor resumed twice: it is in the
  registered list, in the list of exactly one \<^verbatim>\<open>done()\<close>, or has been resumed once, and only a resumed
  one runs on. A \<^verbatim>\<open>done()\<close> that took the count to zero can go on, resume its list in order and return,
  unless the awaiter whose link it is to read next is gone.\<close>

theorem wait_group_keeps_waiters:
  assumes "reachable wg_start wg_step s"
  shows "\<exists>reg L. chain (g_next s) (g_state s) reg \<and>
    (\<forall>d. chain (g_next s) (unsubmitted_from (g_next s) (g_done s d)) (L d)) \<and>
    (\<forall>d. distinct (reg @ L d @ g_resumed s)) \<and> (\<forall>d d'. d \<noteq> d' \<longrightarrow> set (L d) \<inter> set (L d') = {}) \<and>
    {a. g_pc s a = G_waiting \<or> g_pc s a = G_gone} = set reg \<union> (\<Union>d. set (L d)) \<union> set (g_resumed s) \<and>
    {a. g_pc s a = G_gone} \<subseteq> set (g_resumed s) \<and>
    (\<forall>d. (\<exists>a. g_done s d = D_read a \<and> g_pc s a = G_gone) \<or>
       (\<exists>t. wg_step\<^sup>*\<^sup>* s t \<and> g_done t d = D_idle \<and>
          g_resumed t = g_resumed s @ (if g_done s d = D_exchange then reg else L d)))"
proof -
  have inv: "wg_inv s" using wg.reachable_inv [OF assms] .
  then obtain reg L where pl: "wg_places s reg L" and gone: "{a. g_pc s a = G_gone} \<subseteq> set (g_resumed s)"
    unfolding wg_inv_def by blast
  have fin: "\<forall>d. (\<exists>a. g_done s d = D_read a \<and> g_pc s a = G_gone) \<or>
      (\<exists>t. wg_step\<^sup>*\<^sup>* s t \<and> g_done t d = D_idle \<and> g_resumed t = g_resumed s @ (if g_done s d = D_exchange then reg else L d))"
    using done_returns [OF inv pl] by meson
  have "chain (g_next s) (g_state s) reg"
    "\<forall>d. chain (g_next s) (unsubmitted_from (g_next s) (g_done s d)) (L d)" "\<forall>d. distinct (reg @ L d @ g_resumed s)"
    "\<forall>d d'. d \<noteq> d' \<longrightarrow> set (L d) \<inter> set (L d') = {}"
    "{a. g_pc s a = G_waiting \<or> g_pc s a = G_gone} = set reg \<union> (\<Union>d. set (L d)) \<union> set (g_resumed s)"
    using pl unfolding wg_places_def wg_suspended_def by blast+
  then show ?thesis using gone fin by (intro exI [of _ reg] exI [of _ L] conjI)
qed

definition wg_machine0 :: wg_machine where
  "wg_machine0 = \<lparr>g_count = 1, g_state = nullptr, g_next = (\<lambda>_. nullptr), g_pc = (\<lambda>_. G_start),
     g_done = (\<lambda>_. D_idle), g_resumed = []\<rparr>"

lemma wg_machine0_start: "wg_start wg_machine0"
  by (simp add: wg_start_def wg_machine0_def)

text \<open>The waiter 7 has seen count one; then the last \<^verbatim>\<open>done()\<close> subtracts and empties the list; then 7
  registers.\<close>

definition wg_stuck :: wg_machine where
  "wg_stuck = wg_machine0\<lparr>g_count := 0, g_state := 7, g_next := (\<lambda>_. nullptr)(7 := nullptr), g_pc := (\<lambda>_. G_start)(7 := G_waiting)\<rparr>"

lemma wg_stuck_reachable: "reachable wg_start wg_step wg_stuck"
proof -
  let ?R = "reachable wg_start wg_step"
  note step = reach_step [where start = wg_start and step = wg_step]
  have "?R wg_machine0" by (rule reach_start) (rule wg_machine0_start)
  from step [OF this count_seen [of 7]] have "?R (wg_machine0\<lparr>g_pc := (\<lambda>_. G_start)(7 := G_counted)\<rparr>)"
    by (simp add: wg_machine0_def)
  from step [OF this sub_count [of _ 0]]
  have "?R (wg_machine0\<lparr>g_pc := (\<lambda>_. G_start)(7 := G_counted), g_count := 0, g_done := (\<lambda>_. D_idle)(0 := D_exchange)\<rparr>)"
    by (simp add: wg_machine0_def)
  from step [OF this exchange [of _ 0]]
  have "?R (wg_machine0\<lparr>g_pc := (\<lambda>_. G_start)(7 := G_counted), g_count := 0, g_done := (\<lambda>_. D_idle)(0 := D_loop nullptr)\<rparr>)"
    by (simp add: wg_machine0_def)
  from step [OF this loop_end [of _ 0]] have "?R (wg_machine0\<lparr>g_pc := (\<lambda>_. G_start)(7 := G_counted), g_count := 0\<rparr>)"
    by (simp add: wg_machine0_def fun_upd_idem)
  from step [OF this load_head [of _ 7]] have "?R (wg_machine0\<lparr>g_count := 0, g_next := (\<lambda>_. nullptr)(7 := nullptr),
      g_pc := (\<lambda>_. G_start)(7 := G_loaded nullptr)\<rparr>)" by (simp add: wg_machine0_def)
  from step [OF this cas_ok [of _ 7 nullptr]] show ?thesis by (simp add: wg_machine0_def wg_stuck_def)
qed

text \<open>The waiter 7 registers, and a \<^verbatim>\<open>done()\<close> submits it; from there either 7 runs on first, and \<^verbatim>\<open>done()\<close>
  is left with a link it must not read, or the link is read and \<^verbatim>\<open>done()\<close> returns.\<close>

definition wg_submitted :: wg_machine where
  "wg_submitted = wg_machine0\<lparr>g_count := 0, g_next := (\<lambda>_. nullptr)(7 := nullptr), g_pc := (\<lambda>_. G_start)(7 := G_waiting),
     g_done := (\<lambda>_. D_idle)(0 := D_read 7), g_resumed := [7]\<rparr>"

lemma wg_submitted_reachable: "reachable wg_start wg_step wg_submitted"
proof -
  let ?R = "reachable wg_start wg_step"
  note step = reach_step [where start = wg_start and step = wg_step]
  have "?R wg_machine0" by (rule reach_start) (rule wg_machine0_start)
  from step [OF this count_seen [of 7]] have "?R (wg_machine0\<lparr>g_pc := (\<lambda>_. G_start)(7 := G_counted)\<rparr>)"
    by (simp add: wg_machine0_def)
  from step [OF this load_head [of _ 7]] have "?R (wg_machine0\<lparr>g_next := (\<lambda>_. nullptr)(7 := nullptr),
      g_pc := (\<lambda>_. G_start)(7 := G_loaded nullptr)\<rparr>)" by (simp add: wg_machine0_def)
  from step [OF this cas_ok [of _ 7 nullptr]] have "?R (wg_machine0\<lparr>g_state := 7, g_next := (\<lambda>_. nullptr)(7 := nullptr),
      g_pc := (\<lambda>_. G_start)(7 := G_waiting)\<rparr>)" by (simp add: wg_machine0_def)
  from step [OF this sub_count [of _ 0]]
  have "?R (wg_machine0\<lparr>g_state := 7, g_next := (\<lambda>_. nullptr)(7 := nullptr), g_pc := (\<lambda>_. G_start)(7 := G_waiting),
      g_count := 0, g_done := (\<lambda>_. D_idle)(0 := D_exchange)\<rparr>)" by (simp add: wg_machine0_def)
  from step [OF this exchange [of _ 0]]
  have "?R (wg_machine0\<lparr>g_next := (\<lambda>_. nullptr)(7 := nullptr), g_pc := (\<lambda>_. G_start)(7 := G_waiting),
      g_count := 0, g_done := (\<lambda>_. D_idle)(0 := D_loop 7)\<rparr>)" by (simp add: wg_machine0_def)
  from step [OF this submit_one [of _ 0 7]] show ?thesis by (simp add: wg_machine0_def wg_submitted_def)
qed

lemma wg_reads_gone_reachable:
  "\<exists>s a. reachable wg_start wg_step s \<and> g_done s 0 = D_read a \<and> g_pc s a = G_gone"
proof (intro exI conjI)
  show "reachable wg_start wg_step (wg_submitted\<lparr>g_pc := (g_pc wg_submitted)(7 := G_gone)\<rparr>)"
    by (rule reach_step [OF wg_submitted_reachable run_on]) (simp_all add: wg_submitted_def)
qed (simp_all add: wg_submitted_def)

theorem wait_group_keeps_waiters_witness:
  "\<exists>t. wg_step\<^sup>*\<^sup>* wg_submitted t \<and> g_done t 0 = D_idle \<and> {a. g_pc wg_submitted a = G_waiting} = set (g_resumed wg_submitted)"
proof -
  have "\<not> (\<exists>a. g_done wg_submitted 0 = D_read a \<and> g_pc wg_submitted a = G_gone)" by (simp add: wg_submitted_def)
  moreover from wait_group_keeps_waiters [OF wg_submitted_reachable] obtain reg L where
    "\<forall>d. (\<exists>a. g_done wg_submitted d = D_read a \<and> g_pc wg_submitted a = G_gone) \<or>
       (\<exists>t. wg_step\<^sup>*\<^sup>* wg_submitted t \<and> g_done t d = D_idle \<and>
          g_resumed t = g_resumed wg_submitted @ (if g_done wg_submitted d = D_exchange then reg else L d))"
    by (elim exE conjE)
  ultimately obtain t where "wg_step\<^sup>*\<^sup>* wg_submitted t" "g_done t 0 = D_idle" by meson
  then show ?thesis by (auto simp: wg_submitted_def)
qed

text \<open>Once the last \<^verbatim>\<open>done()\<close> has finished its loop, nobody is resumed until some \<^verbatim>\<open>done()\<close> finds the count at
  one again.\<close>

lemma wg_over: "(\<lambda>s t. wg_step s t \<and> g_count t \<noteq> 1)\<^sup>*\<^sup>* s t \<Longrightarrow> g_count s \<noteq> 1 \<Longrightarrow> g_done s = (\<lambda>_. D_idle) \<Longrightarrow>
    g_count t \<noteq> 1 \<and> g_done t = (\<lambda>_. D_idle) \<and> g_resumed t = g_resumed s"
proof (induction rule: rtranclp_induct)
  case (step t u)
  then have IH: "g_count t \<noteq> 1" "g_done t = (\<lambda>_. D_idle)" "g_resumed t = g_resumed s" and st: "wg_step t u" "g_count u \<noteq> 1" by auto
  from st(1) show ?case by cases (use IH st(2) in \<open>auto simp: fun_upd_idem\<close>)
qed simp

text \<open>C35: a wake-up can be lost: a waiter that reads the count before the last \<^verbatim>\<open>done()\<close> and registers
  after it stays suspended, although the count is zero, in every continuation in which the count
  does not come back to one (in particular in every one in which it stays zero).\<close>

theorem wait_group_lost_wakeup:
  "reachable wg_start wg_step wg_stuck \<and> g_count wg_stuck = 0 \<and> g_pc wg_stuck 7 = G_waiting \<and>
   {t. (\<lambda>s t. wg_step s t \<and> g_count t \<noteq> 1)\<^sup>*\<^sup>* wg_stuck t \<and> 7 \<in> set (g_resumed t)} = {}"
proof (intro conjI)
  show "reachable wg_start wg_step wg_stuck" by (rule wg_stuck_reachable)
  show "g_count wg_stuck = 0" "g_pc wg_stuck 7 = G_waiting" by (simp_all add: wg_stuck_def)
  have "7 \<notin> set (g_resumed t)" if "(\<lambda>s t. wg_step s t \<and> g_count t \<noteq> 1)\<^sup>*\<^sup>* wg_stuck t" for t
    using wg_over [OF that] by (simp add: wg_stuck_def wg_machine0_def)
  then show "{t. (\<lambda>s t. wg_step s t \<and> g_count t \<noteq> 1)\<^sup>*\<^sup>* wg_stuck t \<and> 7 \<in> set (g_resumed t)} = {}" by blast
qed

end
