(* ===== verification/Io_Awaiter.thy ===== *)
theory Io_Awaiter
  imports Scheduler
begin

text \<open>
  Asynchronous I/O requests: \<^verbatim>\<open>include/coro/io/io_info.hpp\<close>, \<^verbatim>\<open>include/coro/io/base_awaiter.hpp\<close>,
  \<^verbatim>\<open>include/coro/io/io_awaiter.hpp\<close>, \<^verbatim>\<open>src/io/io_awaiter.cpp\<close>. An awaiter holds an \<^verbatim>\<open>io_info\<close>, whose address is the
  user data of the request; \<open>infos w a\<close> is \<open>None\<close> where no awaiter lives. The constructor takes an entry of the
  submission ring of the running thread's engine, fills it in and counts it; the completion calls the
  callback stored in the \<^verbatim>\<open>io_info\<close>, which stores the result and submits the coroutine to the
  running thread's context.
\<close>

section \<open>State\<close>

datatype io_type =
  Io_nop | Io_tcp_accept | Io_tcp_connect | Io_tcp_close | Io_tcp_read | Io_tcp_write | Io_stdin | Io_timer | Io_none

text \<open>The functions the code stores in \<^verbatim>\<open>cb\<close>.\<close>

datatype cb_type =
  Noop_cb | Stdin_cb | Accept_cb | Read_cb | Write_cb | Close_cb | Connect_cb | Timer_cb

record io_info =
  io_handle :: handle
  io_result :: int
  io_kind :: io_type
  io_data :: "64 word"
  io_cb :: "cb_type option"

record 'k ioworld = "'k sworld" +
  infos :: "addr \<Rightarrow> io_info option"

definition ioinfo_to_ptr :: "addr \<Rightarrow> addr" where
  "ioinfo_to_ptr info = info"

definition ptr_to_ioinfo :: "addr \<Rightarrow> addr" where
  "ptr_to_ioinfo p = p"

definition get_info :: "addr \<Rightarrow> ('k, 'z) ioworld_scheme \<Rightarrow> io_info result" where
  "get_info a w =
     (if a = nullptr then Inl Null_deref
      else case infos w a of None \<Rightarrow> Inl Use_after_free | Some x \<Rightarrow> Inr x)"

definition put_info :: "addr \<Rightarrow> io_info \<Rightarrow> ('k, 'z) ioworld_scheme \<Rightarrow> ('k, 'z) ioworld_scheme" where
  "put_info a x w = w\<lparr>infos := (infos w)(a \<mapsto> x)\<rparr>"

section \<open>The base class\<close>

definition put_proxy :: "nat \<Rightarrow> 'k uring_proxy \<Rightarrow> ('k, 'z) eworld_scheme \<Rightarrow> ('k, 'z) eworld_scheme" where
  "put_proxy i p w = put_engine i ((engines w i)\<lparr>m_upxy := p\<rparr>) w"

text \<open>The loop that submits the ring until an entry is free.\<close>

partial_function (option) wait_free_urs where
  "wait_free_urs K i w =
     (case get_free_urs K i w of (s, w1) \<Rightarrow>
        if s = nullptr then wait_free_urs K i (put_proxy i (snd (submit K (m_upxy (engines w1 i)))) w1)
        else Some (s, w1))"

text \<open>The constructor; \<open>g\<close> is the uninitialised \<^verbatim>\<open>m_info\<close>, of which the handle and the callback have constructors.\<close>

definition base_io_awaiter ::
    "'k kernel_ops \<Rightarrow> io_info \<Rightarrow> addr \<Rightarrow> ('k, 'z) ioworld_scheme \<Rightarrow> (addr \<times> ('k, 'z) ioworld_scheme) result option" where
  "base_io_awaiter K g a w =
     bindO (Some (local_engine w)) (\<lambda>i.
     case get_free_urs K i (put_info a (g\<lparr>io_handle := nullptr, io_cb := None\<rparr>) w) of (s, w1) \<Rightarrow>
       if s = nullptr then (case wait_free_urs K i w1 of None \<Rightarrow> None | Some r \<Rightarrow> Some (Inr r)) else Some (Inr (s, w1)))"

definition io_await_suspend :: "addr \<Rightarrow> handle \<Rightarrow> ('k, 'z) ioworld_scheme \<Rightarrow> ('k, 'z) ioworld_scheme result" where
  "io_await_suspend a h w = bindE (get_info a w) (\<lambda>x. Inr (put_info a (x\<lparr>io_handle := h\<rparr>) w))"

definition io_await_resume :: "addr \<Rightarrow> ('k, 'z) ioworld_scheme \<Rightarrow> int result" where
  "io_await_resume a w = bindE (get_info a w) (\<lambda>x. Inr (io_result x))"

section \<open>The requests\<close>

definition prep_sqe :: "'k kernel_ops \<Rightarrow> nat \<Rightarrow> addr \<Rightarrow> sqe_prep \<Rightarrow> ('k, 'z) eworld_scheme \<Rightarrow> ('k, 'z) eworld_scheme" where
  "prep_sqe K i s p w =
     (let u = m_upxy (engines w i) in put_proxy i (u\<lparr>m_uring := k_prep K s p (m_uring u)\<rparr>) w)"

text \<open>What the constructors of the derived classes have in common: the base class, the type, the callback and the data of
  the request, the preparation of the entry in the order of the code, and the count.\<close>

definition io_request where
  "io_request K g kind cb dat preps a w =
     bindO (base_io_awaiter K g a w) (\<lambda>(s, w1).
     bindO (Some (get_info a w1)) (\<lambda>x.
     bindO (Some (local_engine w1)) (\<lambda>i.
     let w2 = put_info a (x\<lparr>io_kind := kind, io_cb := Some cb, io_data := dat (io_data x)\<rparr>) w1 in
     Some (Inr (add_io_submit i (fold (prep_sqe K i s) preps w2))))))"

definition noop_awaiter where
  "noop_awaiter K g a w = io_request K g Io_nop Noop_cb (\<lambda>d. d) [Prep_nop, Set_data (ioinfo_to_ptr a)] a w"

definition stdin_awaiter where
  "stdin_awaiter K g buf len flags sqe_flag a w =
     io_request K g Io_stdin Stdin_cb (\<lambda>d. d) [Set_flags sqe_flag, Prep_read 0 buf len flags, Set_data (ioinfo_to_ptr a)] a w"

definition tcp_accept_awaiter where
  "tcp_accept_awaiter K g listenfd flags sqe_flag a w =
     io_request K g Io_tcp_accept Accept_cb (\<lambda>d. d) [Set_flags sqe_flag, Prep_accept listenfd flags, Set_data (ioinfo_to_ptr a)] a w"

definition tcp_read_awaiter where
  "tcp_read_awaiter K g sockfd buf len flags sqe_flag a w =
     io_request K g Io_tcp_read Read_cb (\<lambda>d. d) [Set_flags sqe_flag, Prep_recv sockfd buf len flags, Set_data (ioinfo_to_ptr a)] a w"

definition tcp_write_awaiter where
  "tcp_write_awaiter K g sockfd buf len flags sqe_flag a w =
     io_request K g Io_tcp_write Write_cb (\<lambda>d. d) [Set_flags sqe_flag, Prep_send sockfd buf len flags, Set_data (ioinfo_to_ptr a)] a w"

definition tcp_close_awaiter where
  "tcp_close_awaiter K g sockfd a w =
     io_request K g Io_tcp_close Close_cb (\<lambda>d. d) [Prep_close sockfd, Set_data (ioinfo_to_ptr a)] a w"

text \<open>\<^verbatim>\<open>CASTDATA\<close> of a descriptor, and the cast back to \<^verbatim>\<open>int\<close>.\<close>

definition castdata :: "int \<Rightarrow> 64 word" where
  "castdata fd = word_of_int fd"

definition data_to_int :: "64 word \<Rightarrow> int" where
  "data_to_int d = sint (ucast d :: 32 word)"

definition tcp_connect_awaiter where
  "tcp_connect_awaiter K g sockfd addr a w =
     io_request K g Io_tcp_connect Connect_cb (\<lambda>d. castdata sockfd) [Prep_connect sockfd addr, Set_data (ioinfo_to_ptr a)] a w"

section \<open>The callbacks\<close>

definition complete_with where
  "complete_with K resume a ret w =
     bindE (get_info a w) (\<lambda>x.
     submit_to_context K resume (io_handle x) (put_info a (x\<lparr>io_result := ret\<rparr>) w))"

definition noop_callback where "noop_callback K resume a ret w = complete_with K resume a ret w"
definition stdin_callback where "stdin_callback K resume a ret w = complete_with K resume a ret w"
definition accept_callback where "accept_callback K resume a ret w = complete_with K resume a ret w"
definition read_callback where "read_callback K resume a ret w = complete_with K resume a ret w"
definition write_callback where "write_callback K resume a ret w = complete_with K resume a ret w"
definition close_callback where "close_callback K resume a ret w = complete_with K resume a ret w"

definition connect_callback where
  "connect_callback K resume a ret w =
     bindE (get_info a w) (\<lambda>x.
     if ret \<noteq> 0 then complete_with K resume a ret w else complete_with K resume a (data_to_int (io_data x)) w)"

text \<open>\<^verbatim>\<open>timer_awaiter::callback\<close>, of \<^verbatim>\<open>timer.hpp\<close>.\<close>

definition ETIME :: int where "ETIME = 62"

definition timer_callback where
  "timer_callback K resume a ret w = complete_with K resume a (if ret = - ETIME then 0 else ret) w"

text \<open>\<^verbatim>\<open>data->cb(data, res)\<close>, as the engine calls it; an empty \<^verbatim>\<open>std::function\<close> throws out of a \<^verbatim>\<open>noexcept\<close> function.\<close>

definition io_callback where
  "io_callback K resume d ret w =
     (let a = ptr_to_ioinfo d in
      bindE (get_info a w) (\<lambda>x.
      case io_cb x of
        None \<Rightarrow> Inl Std_terminate
      | Some Noop_cb \<Rightarrow> noop_callback K resume a ret w
      | Some Stdin_cb \<Rightarrow> stdin_callback K resume a ret w
      | Some Accept_cb \<Rightarrow> accept_callback K resume a ret w
      | Some Read_cb \<Rightarrow> read_callback K resume a ret w
      | Some Write_cb \<Rightarrow> write_callback K resume a ret w
      | Some Close_cb \<Rightarrow> close_callback K resume a ret w
      | Some Connect_cb \<Rightarrow> connect_callback K resume a ret w
      | Some Timer_cb \<Rightarrow> timer_callback K resume a ret w))"


section \<open>A request and its completion\<close>

text \<open>Getting and preparing an entry of the submission ring touches the ring only, not the eventfd.\<close>

definition sqe_doc :: "'k kernel_ops \<Rightarrow> (int \<Rightarrow> 'k \<Rightarrow> nat) \<Rightarrow> bool" where
  "sqe_doc K cnt \<longleftrightarrow> (\<forall>fd k. cnt fd (snd (k_get_sqe K k)) = cnt fd k) \<and> (\<forall>fd s p k. cnt fd (k_prep K s p k) = cnt fd k)"

definition sqe_free :: "'k kernel_ops \<Rightarrow> nat \<Rightarrow> ('k, 'z) eworld_scheme \<Rightarrow> bool" where
  "sqe_free K i w \<longleftrightarrow> fst (k_get_sqe K (m_uring (m_upxy (engines w i)))) \<noteq> nullptr"

lemma put_proxy_simps [simp]:
  "engines (put_proxy i p w) = (engines w)(i := (engines w i)\<lparr>m_upxy := p\<rparr>)" "linfo_ctx (put_proxy i p w) = linfo_ctx w"
  "linfo_egn (put_proxy i p w) = linfo_egn w" "eworld.more (put_proxy i p w) = eworld.more w"
  "put_proxy i p (put_proxy i p' w) = put_proxy i p w"
  by (simp_all add: put_proxy_def)

lemma put_proxy_infos [simp]: "infos (put_proxy i p w) = infos w" "infos (put_engine i e w) = infos w"
  by (simp_all add: put_proxy_def put_engine_def)

lemma put_info_simps [simp]:
  "infos (put_info a x w) = (infos w)(a \<mapsto> x)" "engines (put_info a x w) = engines w" "linfo_ctx (put_info a x w) = linfo_ctx w"
  "linfo_egn (put_info a x w) = linfo_egn w" "contexts (put_info a x w) = contexts w"
  by (simp_all add: put_info_def)

lemma get_info_Some [simp]: "a \<noteq> nullptr \<Longrightarrow> infos w a = Some x \<Longrightarrow> get_info a w = Inr x"
  by (simp add: get_info_def)

lemma fold_prep_sqe:
  "fold (prep_sqe K i s) preps w =
     put_proxy i ((m_upxy (engines w i))\<lparr>m_uring := fold (k_prep K s) preps (m_uring (m_upxy (engines w i)))\<rparr>) w"
proof (induction preps arbitrary: w)
  case Nil
  show ?case by (simp add: put_proxy_def put_engine_def)
next
  case (Cons p preps)
  then show ?case by (simp add: prep_sqe_def Let_def)
qed

lemma fold_prep_count: "sqe_doc K cnt \<Longrightarrow> cnt fd (fold (k_prep K s) preps k) = cnt fd k"
  by (induction preps arbitrary: k) (simp_all add: sqe_doc_def)

text \<open>With a free entry the request is this update of the world.\<close>

lemma io_request_eq:
  assumes "a \<noteq> nullptr" and "linfo_egn w = Some i" and "k_get_sqe K (m_uring (m_upxy (engines w i))) = (s, k)" and "s \<noteq> nullptr"
  shows "io_request K g kind cb dat preps a w = Some (Inr
    (put_engine i ((engines w i)\<lparr>m_upxy := (m_upxy (engines w i))\<lparr>m_uring := fold (k_prep K s) preps k\<rparr>,
        m_num_io_wait_submit := m_num_io_wait_submit (engines w i) + 1\<rparr>)
      (put_info a (g\<lparr>io_handle := nullptr, io_kind := kind, io_cb := Some cb, io_data := dat (io_data g)\<rparr>) w)))"
proof -
  have "base_io_awaiter K g a w = Some (Inr (s, put_engine i ((engines w i)\<lparr>m_upxy := (m_upxy (engines w i))\<lparr>m_uring := k\<rparr>\<rparr>)
      (put_info a (g\<lparr>io_handle := nullptr, io_cb := None\<rparr>) w)))"
    using assms by (simp add: base_io_awaiter_def local_engine_def get_free_urs_def get_free_sqe_def)
  then show ?thesis
    using assms by (simp add: io_request_def local_engine_def Let_def add_io_submit_def fold_prep_sqe put_proxy_def put_engine_def put_info_def)
qed

lemma io_request_ok:
  assumes a: "a \<noteq> nullptr" and e: "linfo_egn w = Some i" and free: "sqe_free K i w" and doc: "sqe_doc K cnt"
  shows "\<exists>w1 x. io_request K g kind cb dat preps a w = Some (Inr w1) \<and> infos w1 = (infos w)(a \<mapsto> x) \<and> io_kind x = kind \<and>
    io_cb x = Some cb \<and> io_data x = dat (io_data g) \<and> linfo_ctx w1 = linfo_ctx w \<and>
    (\<forall>d. queued d w1 = queued d w \<and> context_room cnt d w1 = context_room cnt d w) \<and>
    contexts_ok K cnt w1 = contexts_ok K cnt w \<and>
    m_num_io_wait_submit (engines w1 i) = m_num_io_wait_submit (engines w i) + 1 \<and> linfo_egn w1 = linfo_egn w \<and>
    (\<exists>s k. s \<noteq> nullptr \<and> k_get_sqe K (m_uring (m_upxy (engines w i))) = (s, k) \<and>
       m_upxy (engines w1 i) = (m_upxy (engines w i))\<lparr>m_uring := fold (k_prep K s) preps k\<rparr>)"
proof -
  let ?u = "m_upxy (engines w i)"
  obtain s k where sk: "k_get_sqe K (m_uring ?u) = (s, k)" by (rule prod.exhaust)
  have s: "s \<noteq> nullptr" using free sk by (simp add: sqe_free_def)
  let ?k = "fold (k_prep K s) preps k" and ?x = "g\<lparr>io_handle := nullptr, io_kind := kind, io_cb := Some cb, io_data := dat (io_data g)\<rparr>"
  let ?e = "(engines w i)\<lparr>m_upxy := ?u\<lparr>m_uring := ?k\<rparr>, m_num_io_wait_submit := m_num_io_wait_submit (engines w i) + 1\<rparr>"
  define w1 where "w1 = put_engine i ?e (put_info a ?x w)"
  have "io_request K g kind cb dat preps a w = Some (Inr w1)" using io_request_eq [OF a e sk s] by (simp add: w1_def)
  moreover have eng: "engines w1 = (engines w)(i := ?e)" by (simp add: w1_def)
  moreover have "infos w1 = (infos w)(a \<mapsto> ?x)" "linfo_ctx w1 = linfo_ctx w" "linfo_egn w1 = linfo_egn w" by (simp_all add: w1_def)
  moreover have cnt: "cnt fd ?k = cnt fd (m_uring ?u)" for fd
    using fold_prep_count [OF doc] doc sk by (simp add: sqe_doc_def) (metis snd_conv)
  have q: "queued d w1 = queued d w \<and> queue_size d w1 = queue_size d w \<and> queue_inv d w1 = queue_inv d w" for d by (simp add: eng)
  have f: "efd_count cnt d w1 = efd_count cnt d w \<and> efd_open d w1 = efd_open d w" for d
    by (simp add: efd_count_def efd_open_def eng cnt)
  have "contexts_ok K cnt w1 = contexts_ok K cnt w" by (simp only: contexts_ok_def q f)
  moreover have "queued d w1 = queued d w \<and> context_room cnt d w1 = context_room cnt d w" for d
    by (simp only: context_room_def q f)
  moreover have "io_kind ?x = kind" "io_cb ?x = Some cb" "io_data ?x = dat (io_data g)" by simp_all
  moreover have "m_num_io_wait_submit (engines w1 i) = m_num_io_wait_submit (engines w i) + 1"
    "m_upxy (engines w1 i) = ?u\<lparr>m_uring := ?k\<rparr>" by (simp_all add: eng)
  ultimately show ?thesis using s sk by blast
qed


text \<open>What the coroutine gets for the result \<open>r\<close> of the kernel: a connection gives its descriptor, an expired timer zero.\<close>

definition io_outcome :: "cb_type \<Rightarrow> 64 word \<Rightarrow> int \<Rightarrow> int" where
  "io_outcome cb d r =
     (case cb of Connect_cb \<Rightarrow> if r \<noteq> 0 then r else data_to_int d | Timer_cb \<Rightarrow> if r = - ETIME then 0 else r | _ \<Rightarrow> r)"

lemma data_to_int_castdata:
  assumes "- (2 ^ 31) \<le> fd" and "fd < 2 ^ 31"
  shows "data_to_int (castdata fd) = fd"
proof -
  have "(ucast (word_of_int fd :: 64 word) :: 32 word) = word_of_int fd"
    by (rule bit_word_eqI) (simp add: bit_simps)
  then show ?thesis using assms by (simp add: data_to_int_def castdata_def signed_of_int signed_take_bit_int_eq_self)
qed

lemma rest_infos:
  fixes w w' :: "('k, 'z) ioworld_scheme"
  assumes "context_rest w' = context_rest w"
  shows "infos w' = infos w"
proof -
  have "eworld.more w' = eworld.more w" using assms by (simp add: context_rest_def)
  then show ?thesis by (cases w; cases w'; simp)
qed

lemma complete_with_ok:
  assumes a: "a \<noteq> nullptr" "infos w a = Some x" and c: "linfo_ctx w = Some i" and ok: "contexts_ok K cnt w" "0 < context_room cnt i w"
    and h: "io_handle x \<noteq> nullptr"
  shows "\<exists>w'. complete_with K resume a r w = Inr w' \<and> queued i w' = queued i w @ [io_handle x] \<and>
    (\<forall>d. d \<noteq> i \<longrightarrow> queued d w' = queued d w) \<and> infos w' = (infos w)(a \<mapsto> x\<lparr>io_result := r\<rparr>) \<and> contexts_ok K cnt w'"
proof -
  let ?w = "put_info a (x\<lparr>io_result := r\<rparr>) w"
  have "contexts_ok K cnt ?w" "0 < context_room cnt i ?w"
    using ok by (simp_all add: contexts_cong [of ?w w])
  from context_submit_ok [OF this h, of resume] obtain w' where
    w': "context_submit K resume i (io_handle x) ?w = Inr w'" "queued i w' = queued i ?w @ [io_handle x]"
      "\<forall>d. d \<noteq> i \<longrightarrow> queued d w' = queued d ?w" "context_rest w' = context_rest ?w" "contexts_ok K cnt w'" by blast
  have "complete_with K resume a r w = Inr w'"
    using a c w'(1) by (simp add: complete_with_def submit_to_context_def local_context_def)
  then show ?thesis using w'(2,3,5) rest_infos [OF w'(4)] by (intro exI [of _ w']) simp
qed

lemma io_callback_eq:
  assumes "a \<noteq> nullptr" and "infos w a = Some x" and "io_cb x = Some cb"
  shows "io_callback K resume a r w = complete_with K resume a (io_outcome cb (io_data x) r) w"
  using assms
  by (cases cb) (simp_all add: io_callback_def ptr_to_ioinfo_def io_outcome_def noop_callback_def stdin_callback_def
      accept_callback_def read_callback_def write_callback_def close_callback_def connect_callback_def timer_callback_def)

text \<open>The requests of \<^verbatim>\<open>io_awaiter.cpp\<close>, one per awaiter class.\<close>

datatype io_op =
    Op_noop
  | Op_stdin addr "64 word" int int
  | Op_accept int int int
  | Op_read int addr "64 word" int int
  | Op_write int addr "64 word" int int
  | Op_close int
  | Op_connect int addr

definition construct where
  "construct K g p a w =
     (case p of
        Op_noop \<Rightarrow> noop_awaiter K g a w
      | Op_stdin buf len f s \<Rightarrow> stdin_awaiter K g buf len f s a w
      | Op_accept fd f s \<Rightarrow> tcp_accept_awaiter K g fd f s a w
      | Op_read fd buf len f s \<Rightarrow> tcp_read_awaiter K g fd buf len f s a w
      | Op_write fd buf len f s \<Rightarrow> tcp_write_awaiter K g fd buf len f s a w
      | Op_close fd \<Rightarrow> tcp_close_awaiter K g fd a w
      | Op_connect fd sa \<Rightarrow> tcp_connect_awaiter K g fd sa a w)"

definition expected :: "io_op \<Rightarrow> int \<Rightarrow> int" where
  "expected p r = (case p of Op_connect fd sa \<Rightarrow> if r = 0 then fd else r | _ \<Rightarrow> r)"

text \<open>The operation each awaiter asks for, and the flags it sets on the entry.\<close>

definition wanted :: "io_op \<Rightarrow> sqe_prep" where
  "wanted p =
     (case p of
        Op_noop \<Rightarrow> Prep_nop
      | Op_stdin buf len f s \<Rightarrow> Prep_read 0 buf len f
      | Op_accept fd f s \<Rightarrow> Prep_accept fd f
      | Op_read fd buf len f s \<Rightarrow> Prep_recv fd buf len f
      | Op_write fd buf len f s \<Rightarrow> Prep_send fd buf len f
      | Op_close fd \<Rightarrow> Prep_close fd
      | Op_connect fd sa \<Rightarrow> Prep_connect fd sa)"

definition wanted_flags :: "io_op \<Rightarrow> sqe_prep list" where
  "wanted_flags p =
     (case p of
        Op_stdin buf len f s \<Rightarrow> [Set_flags s]
      | Op_accept fd f s \<Rightarrow> [Set_flags s]
      | Op_read fd buf len f s \<Rightarrow> [Set_flags s]
      | Op_write fd buf len f s \<Rightarrow> [Set_flags s]
      | _ \<Rightarrow> [])"

text \<open>The submission entries as liburing documents them: an \<^verbatim>\<open>io_uring_prep\<close> function sets the operation \<open>opn s k\<close>
  of the entry \<open>s\<close> (and may clear its other fields), setting the user data \<open>dat s k\<close> or the flags leaves the operation alone.\<close>

definition is_prep :: "sqe_prep \<Rightarrow> bool" where
  "is_prep p = (case p of Set_flags _ \<Rightarrow> False | Set_data _ \<Rightarrow> False | _ \<Rightarrow> True)"

definition entry_doc :: "'k kernel_ops \<Rightarrow> (addr \<Rightarrow> 'k \<Rightarrow> sqe_prep option) \<Rightarrow> (addr \<Rightarrow> 'k \<Rightarrow> addr) \<Rightarrow> bool" where
  "entry_doc K opn dat \<longleftrightarrow>
     (\<forall>s p k. is_prep p \<longrightarrow> opn s (k_prep K s p k) = Some p) \<and>
     (\<forall>s d k. opn s (k_prep K s (Set_data d) k) = opn s k \<and> dat s (k_prep K s (Set_data d) k) = d) \<and>
     (\<forall>s f k. opn s (k_prep K s (Set_flags f) k) = opn s k)"

definition int32 :: "int \<Rightarrow> bool" where "int32 n \<longleftrightarrow> - (2 ^ 31) \<le> n \<and> n < 2 ^ 31"

text \<open>Every awaiter prepares its entry with the operation it wants, and with its own address as user data.\<close>

lemma construct_request:
  assumes "case p of Op_connect fd sa \<Rightarrow> int32 fd | _ \<Rightarrow> True"
  shows "\<exists>kind cb dat. construct K g p a w = io_request K g kind cb dat (wanted_flags p @ [wanted p, Set_data a]) a w \<and>
    (\<forall>r. io_outcome cb (dat (io_data g)) r = expected p r)"
proof (cases p)
  case (Op_connect fd sa)
  then have "data_to_int (castdata fd) = fd" using assms by (simp add: data_to_int_castdata int32_def)
  then have "\<forall>r. io_outcome Connect_cb (castdata fd) r = expected p r" by (simp add: Op_connect io_outcome_def expected_def)
  then show ?thesis using Op_connect
    by (auto simp: construct_def tcp_connect_awaiter_def wanted_def wanted_flags_def ioinfo_to_ptr_def)
qed (fastforce simp: construct_def noop_awaiter_def stdin_awaiter_def tcp_accept_awaiter_def tcp_read_awaiter_def
    tcp_write_awaiter_def tcp_close_awaiter_def io_outcome_def expected_def wanted_def wanted_flags_def ioinfo_to_ptr_def)+

lemma entry_prepared:
  assumes "entry_doc K opn dat"
  shows "opn s (fold (k_prep K s) (wanted_flags p @ [wanted p, Set_data d]) k) = Some (wanted p)"
    and "dat s (fold (k_prep K s) (wanted_flags p @ [wanted p, Set_data d]) k) = d"
  using assms by (simp_all add: entry_doc_def is_prep_def wanted_def split: io_op.split)

section \<open>Properties\<close>


definition sample_ioworld :: "nat ioworld" where
  "sample_ioworld =
     sworld.extend (sample_sworld\<lparr>linfo_ctx := Some 0, linfo_egn := Some 0\<rparr>) \<lparr>infos = (\<lambda>_. None)\<rparr>"

definition garbage_info :: io_info where
  "garbage_info = \<lparr>io_handle = 99, io_result = -7, io_kind = Io_none, io_data = 5, io_cb = None\<rparr>"

lemma sample_io:
  "engines sample_ioworld = engines sample_world" "linfo_egn sample_ioworld = Some 0" "linfo_ctx sample_ioworld = Some 0"
  "sqe_free sample_kernel 0 sample_ioworld" "sqe_doc sample_kernel (\<lambda>fd k. k)"
  by (simp_all add: sample_ioworld_def sworld.defs sample_sworld_def cworld.defs eworld.defs sqe_free_def sqe_doc_def sample_kernel_def)

lemma sample_io_room:
  "contexts_ok sample_kernel (\<lambda>fd k. k) sample_ioworld" "0 < context_room (\<lambda>fd k. k) 0 sample_ioworld" "queued 0 sample_ioworld = []"
  using sample_room [OF sample_io(1)] sample_queue by (simp_all add: sample_io(1))

text \<open>A kernel that keeps the log of the preparations of its only submission entry.\<close>

definition tape_kernel :: "(nat \<times> sqe_prep list) kernel_ops" where
  "tape_kernel =
     \<lparr>k_eventfd = (\<lambda>k. (3, 0, snd k)),
      k_eventfd_read = (\<lambda>fd k. if fst k = 0 then None else Some (0, of_nat (fst k), 0, snd k)),
      k_eventfd_write = (\<lambda>fd v k. if fst k + unat v \<le> eventfd_max then Some (0, fst k + unat v, snd k) else None),
      k_close = (\<lambda>fd k. k),
      k_open_null = (\<lambda>k. (5, k)),
      k_queue_init_params = (\<lambda>n k. (0, k)),
      k_register_eventfd = (\<lambda>fd k. (0, k)),
      k_register_files = (\<lambda>fds k. (0, k)),
      k_files_update = (\<lambda>off fds k. (int (length fds), k)),
      k_queue_exit = (\<lambda>k. k),
      k_peek_cqe = (\<lambda>k. None),
      k_wait_cqe_nr = (\<lambda>n k. None),
      k_ready_cqes = (\<lambda>k. []),
      k_peek_batch_cqe = (\<lambda>n k. []),
      k_cq_advance = (\<lambda>n k. k),
      k_get_sqe = (\<lambda>k. (64, k)),
      k_prep = (\<lambda>s p k. (fst k, snd k @ [p])),
      k_submit = (\<lambda>k. (0, k))\<rparr>"

definition tape_engine :: "(nat \<times> sqe_prep list) engine" where
  "tape_engine =
     \<lparr>e_id = 0, m_upxy = \<lparr>m_efd = 3, m_uring = (0, []), m_null_fds = replicate 8 5, m_fds = \<lparr>data = replicate 8 5, que = []\<rparr>\<rparr>,
      m_task_queue = AtomicQueue nullptr, m_urc = [], m_num_io_wait_submit = 0, m_num_io_running = 0, m_max_recursive_depth = 0\<rparr>"

definition tape_op :: "addr \<Rightarrow> nat \<times> sqe_prep list \<Rightarrow> sqe_prep option" where
  "tape_op s k = (let ps = filter is_prep (snd k) in if ps = [] then None else Some (last ps))"

definition tape_data :: "addr \<Rightarrow> nat \<times> sqe_prep list \<Rightarrow> addr" where
  "tape_data s k = fold (\<lambda>p d. case p of Set_data d' \<Rightarrow> d' | _ \<Rightarrow> d) (snd k) nullptr"

definition tape_ioworld :: "(nat \<times> sqe_prep list) ioworld" where
  "tape_ioworld =
     \<lparr>engines = (\<lambda>_. tape_engine), w_frames = (\<lambda>_. None), w_tasks = (\<lambda>_. nullptr), linfo_ctx = Some 0, linfo_egn = Some 0,
      context_id = 1, engine_id = 1, contexts = (\<lambda>_. sample_context), sched = sample_scheduler, infos = (\<lambda>_. None)\<rparr>"

lemma tape_entry_doc: "entry_doc tape_kernel tape_op tape_data" "sqe_doc tape_kernel (\<lambda>fd k. fst k)"
  by (simp_all add: entry_doc_def sqe_doc_def tape_kernel_def tape_op_def tape_data_def is_prep_def Let_def)

lemma tape_engines:
  assumes e: "engines w = (\<lambda>_. tape_engine)"
  shows "contexts_ok tape_kernel (\<lambda>fd k. fst k) w" and "context_room (\<lambda>fd k. fst k) c w = 16384" and "queued c w = []"
proof -
  have q: "m_task_queue (engines w c) = m_task_queue (engines sample_world c)" for c
    by (simp add: e tape_engine_def sample_world_def sample_engine_def)
  show "contexts_ok tape_kernel (\<lambda>fd k. fst k) w"
    unfolding contexts_ok_def q using sample_queue(1) by (simp add: eventfd_doc_def efd_open_def tape_kernel_def e tape_engine_def)
  show "queued c w = []" using sample_queue(2) by (simp only: q)
  have "efd_count (\<lambda>fd k. fst k) c w = 0" by (simp add: efd_count_def e tape_engine_def)
  then show "context_room (\<lambda>fd k. fst k) c w = 16384"
    by (simp only: context_room_def q sample_queue(2,3)) (simp add: eventfd_max_def)
qed


end
