(* ===== verification/Tcp.thy ===== *)
theory Tcp
  imports Io_Awaiter
begin

text \<open>
  TCP: \<^verbatim>\<open>include/coro/io/net/tcp/tcp.hpp\<close>, \<^verbatim>\<open>src/io/net/tcp/tcp.cpp\<close>, and \<^verbatim>\<open>utils.hpp\<close>, \<^verbatim>\<open>utils.cpp\<close>. The socket calls of the C library are
  the record \<open>net_ops\<close>, acting on an opaque state \<open>'n\<close>. A connection borrows a slot for a registered file
  from the running thread's engine (\<open>fixed_fds\<close> of \<open>Uring_Proxy\<close>) and uses the slot instead of its descriptor.
\<close>

unbundle bit_operations_syntax

section \<open>The C library\<close>

record sockaddr_in =
  sin_family :: "16 word"
  sin_port :: "16 word"
  s_addr :: "32 word"

record 'n net_ops =
  n_socket :: "'n \<Rightarrow> int \<times> 'n"
  n_getfl :: "int \<Rightarrow> 'n \<Rightarrow> int"
  n_setfl :: "int \<Rightarrow> int \<Rightarrow> 'n \<Rightarrow> int \<times> 'n"
  n_inet_pton :: "string \<Rightarrow> 32 word \<Rightarrow> int \<times> 32 word"
  n_bind :: "int \<Rightarrow> sockaddr_in \<Rightarrow> 'n \<Rightarrow> int \<times> 'n"
  n_listen :: "int \<Rightarrow> int \<Rightarrow> 'n \<Rightarrow> int \<times> 'n"

text \<open>\<^verbatim>\<open>inet_pton\<close> answers 1 for an address, 0 for a string that is none, and then leaves the destination alone.\<close>

definition inet_pton_doc :: "'n net_ops \<Rightarrow> (string \<Rightarrow> bool) \<Rightarrow> bool" where
  "inet_pton_doc N isaddr \<longleftrightarrow>
     (\<forall>str d. if isaddr str then fst (n_inet_pton N str d) = 1 else n_inet_pton N str d = (0, d))"

definition AF_INET :: "16 word" where "AF_INET = 2"
definition INADDR_ANY :: "32 word" where "INADDR_ANY = 0"
definition O_NONBLOCK :: int where "O_NONBLOCK = 2048"

text \<open>Host to network order on a little-endian machine.\<close>

definition htons :: "16 word \<Rightarrow> 16 word" where
  "htons x = push_bit 8 x OR drop_bit 8 x"

definition htonl :: "32 word \<Rightarrow> 32 word" where
  "htonl x = push_bit 24 x OR (push_bit 8 x AND 0xFF0000) OR (drop_bit 8 x AND 0xFF00) OR drop_bit 24 x"

section \<open>Utilities\<close>

text \<open>\<open>ndebug\<close>: the program is compiled with \<^verbatim>\<open>NDEBUG\<close>, so that the argument of \<^verbatim>\<open>assert\<close> is not evaluated.\<close>

definition set_fd_noblock :: "bool \<Rightarrow> 'n net_ops \<Rightarrow> int \<Rightarrow> 'n \<Rightarrow> 'n result" where
  "set_fd_noblock ndebug N fd n =
     (let flags = n_getfl N fd n in
      if \<not> ndebug \<and> \<not> flags \<ge> 0 then Inl Assert_failed
      else if ndebug then Inr n
      else case n_setfl N fd (flags OR O_NONBLOCK) n of (r, n1) \<Rightarrow> if r \<ge> 0 then Inr n1 else Inl Assert_failed)"

definition get_null_fd :: "'k kernel_ops \<Rightarrow> 'k \<Rightarrow> int \<times> 'k" where
  "get_null_fd K k = k_open_null K k"

text \<open>\<^verbatim>\<open>std::this_thread::sleep_for\<close> with a duration of \<open>t\<close> ticks, \<open>ticks\<close> of which make a second: it returns at once unless the duration is
  positive, and otherwise asks for the seconds and the nanoseconds of a \<^verbatim>\<open>timespec\<close>. The count is the signed value of a 64-bit word.\<close>

definition sleep_for :: "int \<Rightarrow> 64 word \<Rightarrow> (int \<times> int) option" where
  "sleep_for ticks t = (if sint t \<le> 0 then None else Some (sint t div ticks, sint t mod ticks * (1000000000 div ticks)))"

definition thread_sleep :: "64 word \<Rightarrow> (int \<times> int) option" where
  "thread_sleep t = sleep_for 1 t"

definition thread_msleep :: "64 word \<Rightarrow> (int \<times> int) option" where
  "thread_msleep t = sleep_for 1000 t"

definition thread_usleep :: "64 word \<Rightarrow> (int \<times> int) option" where
  "thread_usleep t = sleep_for 1000000 t"

text \<open>The request is a proper \<^verbatim>\<open>timespec\<close> of exactly the given time.\<close>

lemma sleep_for_exact:
  assumes "sleep_for ticks t = Some (sec, nsec)" and "0 < ticks" and "ticks dvd 1000000000"
  shows "sec * 1000000000 + nsec = sint t * (1000000000 div ticks)" and "0 \<le> sec" "0 \<le> nsec" "nsec < 1000000000"
proof -
  define u where "u = (1000000000 :: int) div ticks"
  have u: "ticks * u = 1000000000" using assms(3) by (simp add: u_def)
  then have pos: "0 < u" using assms(2) by (smt (verit) mult_nonneg_nonpos)
  have e: "sec = sint t div ticks" "nsec = sint t mod ticks * u" "0 < sint t"
    using assms(1) by (auto simp: sleep_for_def u_def split: if_splits)
  have "sec * (ticks * u) + nsec = (ticks * (sint t div ticks) + sint t mod ticks) * u" unfolding e(1,2) by (simp only: algebra_simps)
  then show "sec * 1000000000 + nsec = sint t * (1000000000 div ticks)" unfolding u by (simp add: u_def)
  show "0 \<le> sec" "0 \<le> nsec" using e assms(2) pos by (simp_all add: pos_imp_zdiv_nonneg_iff)
  have "nsec < ticks * u" unfolding e(2) using pos assms(2) by (intro mult_strict_right_mono) simp_all
  then show "nsec < 1000000000" by (simp only: u)
qed

lemma sleeps_exactly:
  "thread_sleep t = Some (sec, nsec) \<Longrightarrow> sec * 1000000000 + nsec = sint t * 1000000000"
  "thread_msleep t = Some (sec, nsec) \<Longrightarrow> sec * 1000000000 + nsec = sint t * 1000000"
  "thread_usleep t = Some (sec, nsec) \<Longrightarrow> sec * 1000000000 + nsec = sint t * 1000"
  using sleep_for_exact(1) [of 1 t sec nsec] sleep_for_exact(1) [of 1000 t sec nsec] sleep_for_exact(1) [of 1000000 t sec nsec]
  by (simp_all add: thread_sleep_def thread_msleep_def thread_usleep_def)

section \<open>Connections\<close>

record tcp_connector =
  m_sockfd :: int
  m_original_fd :: int
  c_fixed_fd :: item
  c_sqe_flag :: nat

text \<open>\<open>fixed_fds\<close> on the proxy of the running thread's engine.\<close>

definition local_fixed_fd :: "('k, 'z) eworld_scheme \<Rightarrow> (item \<times> ('k, 'z) eworld_scheme) result" where
  "local_fixed_fd w =
     bindE (local_engine w) (\<lambda>i. case fixed_fds_ctor (m_upxy (engines w i)) of (it, p) \<Rightarrow> Inr (it, put_proxy i p w))"

definition local_assign :: "'k kernel_ops \<Rightarrow> item \<Rightarrow> int \<Rightarrow> nat \<Rightarrow> ('k, 'z) eworld_scheme \<Rightarrow> (int \<times> nat \<times> ('k, 'z) eworld_scheme) result" where
  "local_assign K it fd flag w =
     (if \<not> valid it then Inr (fd, flag, w)
      else
        bindE (local_engine w) (\<lambda>i.
        bindE (fixed_fds_assign K it fd flag (m_upxy (engines w i))) (\<lambda>(fd', flag', p). Inr (fd', flag', put_proxy i p w))))"

definition local_return_back :: "'k kernel_ops \<Rightarrow> item \<Rightarrow> ('k, 'z) eworld_scheme \<Rightarrow> (item \<times> ('k, 'z) eworld_scheme) result" where
  "local_return_back K it w =
     (if \<not> valid it then Inr (it, w)
      else
        bindE (local_engine w) (\<lambda>i.
        bindE (fixed_fds_return_back K it (m_upxy (engines w i))) (\<lambda>(it', p). Inr (it', put_proxy i p w))))"

text \<open>With an engine, an invalid item need not be told from a valid one.\<close>

lemma put_proxy_id: "put_proxy i (m_upxy (engines w i)) w = w"
  by (simp add: put_proxy_def put_engine_def)

lemma local_assign_eq:
  "linfo_egn w = Some i \<Longrightarrow> fixed_fds_assign K it fd flag (m_upxy (engines w i)) = Inr (fd', flag', p) \<Longrightarrow>
    local_assign K it fd flag w = Inr (fd', flag', put_proxy i p w)"
  by (auto simp: local_assign_def local_engine_def fixed_fds_assign_def put_proxy_id)

lemma local_return_back_eq:
  "linfo_egn w = Some i \<Longrightarrow> fixed_fds_return_back K it (m_upxy (engines w i)) = Inr (it', p) \<Longrightarrow>
    local_return_back K it w = Inr (it', put_proxy i p w)"
  by (auto simp: local_return_back_def local_engine_def fixed_fds_return_back_def put_proxy_id)

definition new_tcp_connector :: "'k kernel_ops \<Rightarrow> int \<Rightarrow> ('k, 'z) eworld_scheme \<Rightarrow> (tcp_connector \<times> ('k, 'z) eworld_scheme) result" where
  "new_tcp_connector K sockfd w =
     bindE (local_fixed_fd w) (\<lambda>(it, w1).
     bindE (local_assign K it sockfd 0 w1) (\<lambda>(fd, flag, w2).
     Inr (\<lparr>m_sockfd = fd, m_original_fd = sockfd, c_fixed_fd = it, c_sqe_flag = flag\<rparr>, w2)))"

definition connector_read where
  "connector_read K g c buf len flags a w = tcp_read_awaiter K g (m_sockfd c) buf len flags (int (c_sqe_flag c)) a w"

definition connector_write where
  "connector_write K g c buf len flags a w = tcp_write_awaiter K g (m_sockfd c) buf len flags (int (c_sqe_flag c)) a w"

definition connector_close where
  "connector_close K g c a w =
     bindO (Some (local_return_back K (c_fixed_fd c) w)) (\<lambda>(it, w1).
     bindO (tcp_close_awaiter K g (m_original_fd c) a w1) (\<lambda>w2. Some (Inr (c\<lparr>c_fixed_fd := it\<rparr>, w2))))"

text \<open>The destructor of the member \<^verbatim>\<open>m_fixed_fd\<close>.\<close>

definition connector_dtor :: "'k kernel_ops \<Rightarrow> tcp_connector \<Rightarrow> ('k, 'z) eworld_scheme \<Rightarrow> ('k, 'z) eworld_scheme result" where
  "connector_dtor K c w = bindE (local_return_back K (c_fixed_fd c) w) (\<lambda>(it, w1). Inr w1)"

section \<open>Server and client\<close>

record tcp_server =
  m_listenfd :: int
  s_serveraddr :: sockaddr_in
  s_fixed_fd :: item
  s_sqe_flag :: nat

record tcp_client =
  m_clientfd :: int
  c_serveraddr :: sockaddr_in

text \<open>Filling in the address; \<open>None\<close> is \<^verbatim>\<open>nullptr\<close>.\<close>

definition make_addr :: "'n net_ops \<Rightarrow> string option \<Rightarrow> int \<Rightarrow> sockaddr_in result" where
  "make_addr N addr port =
     (let sa = \<lparr>sin_family = AF_INET, sin_port = htons (word_of_int port), s_addr = 0\<rparr> in
      case addr of
        None \<Rightarrow> Inr (sa\<lparr>s_addr := htonl INADDR_ANY\<rparr>)
      | Some str \<Rightarrow> (case n_inet_pton N str (s_addr sa) of (r, d) \<Rightarrow> if r < 0 then Inl Std_exit else Inr (sa\<lparr>s_addr := d\<rparr>)))"

definition new_tcp_server where
  "new_tcp_server ndebug N K addr port n w =
     bindE (local_fixed_fd w) (\<lambda>(it, w1).
     case n_socket N n of (fd, n1) \<Rightarrow>
     if \<not> ndebug \<and> fd = -1 then Inl Assert_failed
     else
       bindE (set_fd_noblock ndebug N fd n1) (\<lambda>n2.
       bindE (make_addr N addr port) (\<lambda>sa.
       case n_bind N fd sa n2 of (r, n3) \<Rightarrow>
       if r \<noteq> 0 then Inl Std_exit
       else case n_listen N fd kBacklog n3 of (r, n4) \<Rightarrow>
       if r \<noteq> 0 then Inl Std_exit
       else bindE (local_assign K it fd 0 w1) (\<lambda>(fd', flag, w2).
            Inr (\<lparr>m_listenfd = fd', s_serveraddr = sa, s_fixed_fd = it, s_sqe_flag = flag\<rparr>, n4, w2)))))"

definition new_tcp_server_port where
  "new_tcp_server_port ndebug N K port n w = new_tcp_server ndebug N K None port n w"

definition server_accept where
  "server_accept K g s flags a w = tcp_accept_awaiter K g (m_listenfd s) flags (int (s_sqe_flag s)) a w"

text \<open>The destructor of the member \<^verbatim>\<open>m_fixed_fd\<close>; the listening socket itself is not closed.\<close>

definition server_dtor :: "'k kernel_ops \<Rightarrow> tcp_server \<Rightarrow> ('k, 'z) eworld_scheme \<Rightarrow> ('k, 'z) eworld_scheme result" where
  "server_dtor K s w = bindE (local_return_back K (s_fixed_fd s) w) (\<lambda>(it, w1). Inr w1)"

definition new_tcp_client :: "bool \<Rightarrow> 'n net_ops \<Rightarrow> string option \<Rightarrow> int \<Rightarrow> 'n \<Rightarrow> (tcp_client \<times> 'n) result" where
  "new_tcp_client ndebug N addr port n =
     (case n_socket N n of (fd, n1) \<Rightarrow>
      if fd < 0 then Inl Std_exit
      else
        bindE (set_fd_noblock ndebug N fd n1) (\<lambda>n2.
        bindE (make_addr N addr port) (\<lambda>sa. Inr (\<lparr>m_clientfd = fd, c_serveraddr = sa\<rparr>, n2))))"

text \<open>\<open>sa\<close> is the address of \<^verbatim>\<open>m_serveraddr\<close>.\<close>

definition client_connect where
  "client_connect K g c sa a w = tcp_connect_awaiter K g (m_clientfd c) sa a w"


section \<open>Properties\<close>

lemma make_addr_invalid:
  assumes "inet_pton_doc N isaddr" and "\<not> isaddr str"
  shows "make_addr N (Some str) port = make_addr N None port"
proof -
  have "n_inet_pton N str 0 = (0, 0)" using assms unfolding inet_pton_doc_def by metis
  then show ?thesis by (simp add: make_addr_def htonl_def INADDR_ANY_def Let_def)
qed

text \<open>C39: a server or client given a string that is not an address does not fail: the test of \<^verbatim>\<open>inet_pton\<close> only rejects negative results,
  an invalid string gives zero, and so the server behaves exactly as if no address had been given, listening on
  every interface.\<close>

theorem invalid_address_listens_everywhere:
  assumes "inet_pton_doc N isaddr" and "\<not> isaddr str"
  shows "new_tcp_server ndebug N K (Some str) port n w = new_tcp_server ndebug N K None port n w \<and>
    new_tcp_client ndebug N (Some str) port n = new_tcp_client ndebug N None port n"
  unfolding new_tcp_server_def new_tcp_client_def make_addr_invalid [OF assms] by simp

definition sample_net :: "nat net_ops" where
  "sample_net =
     \<lparr>n_socket = (\<lambda>n. (9, Suc n)), n_getfl = (\<lambda>fd n. 2), n_setfl = (\<lambda>fd fl n. (0, n)),
      n_inet_pton = (\<lambda>str d. if str = ''127.0.0.1'' then (1, 16777343) else (0, d)),
      n_bind = (\<lambda>fd sa n. (0, n)), n_listen = (\<lambda>fd b n. (0, n))\<rparr>"

theorem invalid_address_listens_everywhere_witness:
  "\<exists>s n' w'. new_tcp_server False sample_net sample_kernel (Some ''localhost'') 8000 0 sample_ioworld = Inr (s, n', w') \<and>
    s_addr (s_serveraddr s) = htonl INADDR_ANY"
proof -
  have "inet_pton_doc sample_net (\<lambda>str. str = ''127.0.0.1'')" by (simp add: inet_pton_doc_def sample_net_def)
  then have eq: "new_tcp_server False sample_net sample_kernel (Some ''localhost'') 8000 0 sample_ioworld =
      new_tcp_server False sample_net sample_kernel None 8000 0 sample_ioworld"
    using invalid_address_listens_everywhere [of sample_net "\<lambda>str. str = ''127.0.0.1''" "''localhost''" False sample_kernel 8000 0 sample_ioworld]
    by simp
  obtain it p1 where c: "fixed_fds_ctor sample_proxy = (it, p1)" by (rule prod.exhaust)
  from fixed_fds_cycle [OF sample_files_update_doc sample_proxy_inv c, of 9 0] obtain fd' flag' p2 where
    a: "fixed_fds_assign sample_kernel it 9 0 p1 = Inr (fd', flag', p2)" by blast
  have u: "m_upxy (engines sample_ioworld 0) = sample_proxy" by (simp add: sample_io sample_world_def sample_engine_def)
  show ?thesis unfolding eq
    using c a sample_io(2) u by (simp add: new_tcp_server_def local_fixed_fd_def local_assign_eq local_engine_def sample_net_def
        set_fd_noblock_def make_addr_def Let_def)
qed

text \<open>the life of a connection. While a slot is free the connector takes one that nobody holds, registers its socket there and
  addresses it by the slot with the fixed-file flag, otherwise it uses the socket itself; closing gives the slot
  back, restores the pool and asks the kernel to close the original socket, whichever was used;
  the destructor then has nothing left to give back.\<close>

theorem tcp_connector_lifecycle:
  assumes doc: "files_update_doc K" "sqe_doc K cnt" and e: "linfo_egn w = Some i" and inv: "proxy_inv (m_upxy (engines w i))"
    and a: "a \<noteq> nullptr" and free: "\<forall>k. fst (k_get_sqe K k) \<noteq> nullptr"
  shows "\<exists>c w1 c' w2. new_tcp_connector K fd w = Inr (c, w1) \<and> connector_close K g c a w1 = Some (Inr (c', w2)) \<and>
    (let p = m_fds (m_upxy (engines w i)); p1 = m_fds (m_upxy (engines w1 i)); p2 = m_fds (m_upxy (engines w2 i)) in
      (if que p = [] then m_sockfd c = fd \<and> c_sqe_flag c = 0
       else m_sockfd c \<notin> lent p \<and> 0 \<le> m_sockfd c \<and> m_sockfd c < 8 \<and> data p1 ! nat (m_sockfd c) = fd \<and> c_sqe_flag c = IOSQE_FIXED_FILE) \<and>
      lent p2 = lent p \<and> data p2 = data p) \<and>
    (\<exists>s k. m_uring (m_upxy (engines w2 i)) = k_prep K s (Set_data (ioinfo_to_ptr a)) (k_prep K s (Prep_close fd) k)) \<and>
    (\<exists>w3. connector_dtor K c' w2 = Inr w3 \<and> engines w3 = engines w2)"
proof -
  let ?p = "m_upxy (engines w i)"
  obtain it p1 where ctor: "fixed_fds_ctor ?p = (it, p1)" by (rule prod.exhaust)
  from fixed_fds_cycle [OF doc(1) inv ctor, of fd 0] obtain fd' flag' p2 it' p3 where
    cyc: "fixed_fds_assign K it fd 0 p1 = Inr (fd', flag', p2)" "fixed_fds_return_back K it p2 = Inr (it', p3)"
      "\<forall>q. fixed_fds_return_back K it' q = Inr (it', q)" "lent (m_fds p3) = lent (m_fds ?p)" "data (m_fds p3) = data (m_fds ?p)"
    and sl: "if que (m_fds ?p) = [] then fd' = fd \<and> flag' = 0 \<and> p3 = ?p
       else fd' = idx it \<and> fd' \<notin> lent (m_fds ?p) \<and> 0 \<le> fd' \<and> fd' < 8 \<and> data (m_fds p2) ! nat fd' = fd \<and> flag' = 0 OR IOSQE_FIXED_FILE"
    by blast
  let ?c = "\<lparr>m_sockfd = fd', m_original_fd = fd, c_fixed_fd = it, c_sqe_flag = flag'\<rparr>"
  let ?w1 = "put_proxy i p2 (put_proxy i p1 w)"
  have new: "new_tcp_connector K fd w = Inr (?c, ?w1)"
    using ctor cyc(1) e by (simp add: new_tcp_connector_def local_fixed_fd_def local_engine_def local_assign_eq)
  have rb: "local_return_back K it ?w1 = Inr (it', put_proxy i p3 ?w1)"
    using cyc(2) e by (simp add: local_return_back_eq)
  have e1: "linfo_egn (put_proxy i p3 ?w1) = Some i" using e by simp
  have f1: "sqe_free K i (put_proxy i p3 ?w1)" using free by (simp add: sqe_free_def)
  from io_request_ok [OF a e1 f1 doc(2), of g Io_tcp_close Close_cb "\<lambda>d. d" "[Prep_close fd, Set_data (ioinfo_to_ptr a)]"] obtain w2 s k where
    w2: "tcp_close_awaiter K g fd a (put_proxy i p3 ?w1) = Some (Inr w2)" "linfo_egn w2 = Some i"
      "m_upxy (engines w2 i) = p3\<lparr>m_uring := k_prep K s (Set_data (ioinfo_to_ptr a)) (k_prep K s (Prep_close fd) k)\<rparr>"
    using e1 by (auto simp: tcp_close_awaiter_def)
  have cl: "connector_close K g ?c a ?w1 = Some (Inr (?c\<lparr>c_fixed_fd := it'\<rparr>, w2))"
    using rb w2(1) by (simp add: connector_close_def)
  have "connector_dtor K (?c\<lparr>c_fixed_fd := it'\<rparr>) w2 = Inr (put_proxy i (m_upxy (engines w2 i)) w2)"
    using cyc(3) w2(2) by (simp add: connector_dtor_def local_return_back_eq)
  then have dtor: "\<exists>w3. connector_dtor K (?c\<lparr>c_fixed_fd := it'\<rparr>) w2 = Inr w3 \<and> engines w3 = engines w2" by simp
  have fds: "m_fds (m_upxy (engines ?w1 i)) = m_fds p2" "m_fds (m_upxy (engines w2 i)) = m_fds p3" by (simp_all add: w2(3))
  show ?thesis
    by (rule exI [of _ ?c], rule exI [of _ ?w1], rule exI [of _ "?c\<lparr>c_fixed_fd := it'\<rparr>"], rule exI [of _ w2])
      (use new cl dtor cyc(4,5) sl in \<open>auto simp: Let_def fds w2(3) split: if_splits\<close>)
qed


theorem tcp_connector_lifecycle_witness:
  "\<exists>c w1 c' w2. new_tcp_connector sample_kernel 42 sample_ioworld = Inr (c, w1) \<and>
    connector_close sample_kernel garbage_info c 40 w1 = Some (Inr (c', w2)) \<and> data (m_fds (m_upxy (engines w2 0))) = replicate 8 5"
proof -
  have u: "m_upxy (engines sample_ioworld 0) = sample_proxy" by (simp add: sample_io sample_world_def sample_engine_def)
  have inv: "proxy_inv (m_upxy (engines sample_ioworld 0))" unfolding u by (rule sample_proxy_inv)
  have d: "data (m_fds (m_upxy (engines sample_ioworld 0))) = replicate 8 5" unfolding u by (simp add: sample_proxy_def)
  have "\<forall>k. fst (k_get_sqe sample_kernel k) \<noteq> nullptr" by (simp add: sample_kernel_def)
  from tcp_connector_lifecycle [OF sample_files_update_doc sample_io(5,2) inv _ this, of 40 42 garbage_info] d show ?thesis
    unfolding Let_def by (simp only:) auto
qed

end
