(* ===== verification/Timer.thy ===== *)
theory Timer
  imports Io_Awaiter
begin

text \<open>
  The timer: \<^verbatim>\<open>include/coro/timer.hpp\<close>. A \<^verbatim>\<open>__kernel_timespec\<close> is two 64-bit integers; the additions are unsigned and
  wrap. \<^verbatim>\<open>set_by_duration\<close>, \<^verbatim>\<open>set_by_timepoint\<close> and \<^verbatim>\<open>get_kernel_timespec\<close>, which initialise an integer with a
  \<^verbatim>\<open>std::chrono::duration\<close>, cannot be instantiated and have no model.
\<close>

record timer =
  tv_sec :: "64 word"
  tv_nsec :: "64 word"
  m_flag :: "32 word"

text \<open>The constructor leaves \<^verbatim>\<open>m_ts\<close> as it finds it: \<open>sec\<close> and \<open>nsec\<close> are indeterminate.\<close>

definition new_timer :: "64 word \<Rightarrow> 64 word \<Rightarrow> 32 word \<Rightarrow> timer" where
  "new_timer sec nsec flag = \<lparr>tv_sec = sec, tv_nsec = nsec, m_flag = flag\<rparr>"

definition add_seconds :: "64 word \<Rightarrow> timer \<Rightarrow> timer" where
  "add_seconds seconds t = t\<lparr>tv_sec := tv_sec t + seconds\<rparr>"

definition add_mseconds :: "64 word \<Rightarrow> timer \<Rightarrow> timer" where
  "add_mseconds mseconds t = t\<lparr>tv_nsec := tv_nsec t + 1000000 * mseconds\<rparr>"

definition add_useconds :: "64 word \<Rightarrow> timer \<Rightarrow> timer" where
  "add_useconds useconds t = t\<lparr>tv_nsec := tv_nsec t + 1000 * useconds\<rparr>"

definition add_nseconds :: "64 word \<Rightarrow> timer \<Rightarrow> timer" where
  "add_nseconds nseconds t = t\<lparr>tv_nsec := tv_nsec t + nseconds\<rparr>"

text \<open>\<^verbatim>\<open>timer_awaiter\<close> copies the time; \<^verbatim>\<open>operator co_await\<close> builds it with count 1 and flags 0.\<close>

definition timer_awaiter where
  "timer_awaiter K g sec nsec count flags a w =
     io_request K g Io_timer Timer_cb (\<lambda>d. d) [Prep_timeout sec nsec count flags, Set_data (ioinfo_to_ptr a)] a w"

definition timer_co_await where
  "timer_co_await K g t a w = timer_awaiter K g (tv_sec t) (tv_nsec t) 1 0 a w"

section \<open>The time a chain of additions stands for\<close>

datatype time_add = Seconds nat | Mseconds nat | Useconds nat | Nseconds nat

definition apply_add :: "time_add \<Rightarrow> timer \<Rightarrow> timer" where
  "apply_add x t =
     (case x of Seconds n \<Rightarrow> add_seconds (of_nat n) t | Mseconds n \<Rightarrow> add_mseconds (of_nat n) t
      | Useconds n \<Rightarrow> add_useconds (of_nat n) t | Nseconds n \<Rightarrow> add_nseconds (of_nat n) t)"

definition sec_part :: "time_add \<Rightarrow> nat" where
  "sec_part x = (case x of Seconds n \<Rightarrow> n | _ \<Rightarrow> 0)"

definition nsec_part :: "time_add \<Rightarrow> nat" where
  "nsec_part x = (case x of Seconds n \<Rightarrow> 0 | Mseconds n \<Rightarrow> 1000000 * n | Useconds n \<Rightarrow> 1000 * n | Nseconds n \<Rightarrow> n)"

lemma fold_apply_add:
  "tv_sec (fold apply_add xs t) = tv_sec t + of_nat (sum_list (map sec_part xs)) \<and>
   tv_nsec (fold apply_add xs t) = tv_nsec t + of_nat (sum_list (map nsec_part xs)) \<and> m_flag (fold apply_add xs t) = m_flag t"
proof (induction xs arbitrary: t)
  case (Cons x xs)
  have "tv_sec (apply_add x t) = tv_sec t + of_nat (sec_part x)" "tv_nsec (apply_add x t) = tv_nsec t + of_nat (nsec_part x)"
    "m_flag (apply_add x t) = m_flag t"
    by (cases x; simp add: apply_add_def sec_part_def nsec_part_def add_seconds_def add_mseconds_def add_useconds_def add_nseconds_def)+
  then show ?case using Cons.IH [of "apply_add x t"] by (simp add: add.assoc)
qed simp




end
