(* ===== verification/Io_Coroutine.thy ===== *)
theory Io_Coroutine
  imports Tcp Timer
begin

text \<open>
  Programs on the runtime: the coroutines of \<^verbatim>\<open>benchmark/\<close> and \<^verbatim>\<open>examples/\<close> are cut at their \<^verbatim>\<open>co_await\<close>s. A body is a function
  from the values of its locals and the world at its resumption to those at its next suspension; \<open>bodies w h\<close>
  holds the locals of the coroutine with handle \<open>h\<close>. This theory has what the programs share: awaiting an I/O
  request, calling a coroutine function, what a ring has been asked to do (\<open>ring_log_doc\<close>), and the contract
  \<open>io_coroutine\<close>: between two resumptions the rest of the program may do anything, and the body still makes
  the requests of its protocol, one after the other.
\<close>

record ('k, 'n, 'l) pworld = "'k ioworld" +
  net :: 'n
  bodies :: "handle \<Rightarrow> 'l option"

text \<open>The addresses a call of a coroutine function uses: its frame, the temporary task object, and in the frame a
  buffer and the temporaries that are awaited. Allocation is an argument of the programs.\<close>

record places =
  pl_frame :: handle
  pl_task :: addr
  pl_buf :: addr
  pl_wait :: addr

section \<open>Awaiting a request\<close>

text \<open>\<^verbatim>\<open>co_await\<close> of an awaiter built by \<open>op\<close> at address \<open>a\<close> of the frame: \<^verbatim>\<open>await_ready\<close> is constantly false.\<close>

definition co_await_io where
  "co_await_io op a h w = bindO (op a w) (\<lambda>w1. Some (io_await_suspend a h w1))"

text \<open>The value of the \<^verbatim>\<open>co_await\<close> expression after the resumption; the awaiter, a temporary, ends.\<close>

definition io_value :: "addr \<Rightarrow> ('k, 'z) ioworld_scheme \<Rightarrow> (int \<times> ('k, 'z) ioworld_scheme) result" where
  "io_value a w = bindE (io_await_resume a w) (\<lambda>r. Inr (r, w\<lparr>infos := (infos w)(a := None)\<rparr>))"

text \<open>Calling a coroutine function: a frame, suspended initially, owned by a temporary task object.\<close>

definition call_coroutine :: "places \<Rightarrow> 'l \<Rightarrow> ('k, 'n, 'l, 'z) pworld_scheme \<Rightarrow> ('k, 'n, 'l, 'z) pworld_scheme" where
  "call_coroutine pl l w =
     w\<lparr>w_frames := (w_frames w)(pl_frame pl \<mapsto> new_frame), w_tasks := (w_tasks w)(pl_task pl := pl_frame pl),
       bodies := (bodies w)(pl_frame pl \<mapsto> l)\<rparr>"

text \<open>\<^verbatim>\<open>submit_to_scheduler(f(...))\<close>.\<close>

definition spawn where
  "spawn K resume pl l w = submit_to_scheduler_rvalue K resume (pl_task pl) (call_coroutine pl l w)"

text \<open>\<^verbatim>\<open>co_return\<close>: the coroutine is at its final suspend point.\<close>

definition co_return_void :: "handle \<Rightarrow> ('k, 'z) eworld_scheme \<Rightarrow> ('k, 'z) eworld_scheme" where
  "co_return_void h w = w\<lparr>w_frames := (w_frames w)(h := map_option (f_done_update (\<lambda>_. True)) (w_frames w h))\<rparr>"

lemma bindO_eq_Inr: "bindO m f = Some (Inr y) \<longleftrightarrow> (\<exists>x. m = Some (Inr x) \<and> f x = Some (Inr y))"
  by (auto simp: bindO_def split: option.splits sum.splits)

section \<open>What a ring was asked to do\<close>

definition ring :: "nat \<Rightarrow> ('k, 'z) eworld_scheme \<Rightarrow> 'k" where
  "ring i w = m_uring (m_upxy (engines w i))"

text \<open>\<^verbatim>\<open>io_uring_get_sqe\<close> gives an entry; it returns \<^verbatim>\<open>NULL\<close> when the submission ring is full.\<close>

definition gives_entry :: "'k kernel_ops \<Rightarrow> 'k \<Rightarrow> bool" where
  "gives_entry K k \<longleftrightarrow> fst (k_get_sqe K k) \<noteq> nullptr"

text \<open>\<open>lg k\<close> is the sequence of preparations the ring has received: only the preparation calls add to it. Updating registered
  files and writing the eventfd do not use the submission ring.\<close>

definition ring_log_doc :: "'k kernel_ops \<Rightarrow> ('k \<Rightarrow> sqe_prep list) \<Rightarrow> bool" where
  "ring_log_doc K lg \<longleftrightarrow>
     (\<forall>s p k. lg (k_prep K s p k) = lg k @ [p]) \<and> (\<forall>k. lg (snd (k_get_sqe K k)) = lg k) \<and>
     (\<forall>off fds k. lg (snd (k_files_update K off fds k)) = lg k \<and> gives_entry K (snd (k_files_update K off fds k)) = gives_entry K k) \<and>
     (\<forall>fd v k r k'. k_eventfd_write K fd v k = Some (r, k') \<longrightarrow> lg k' = lg k \<and> gives_entry K k' = gives_entry K k)"

text \<open>The request \<open>q\<close> was made on ring \<open>i\<close> between two worlds.\<close>

definition asked_for :: "('k \<Rightarrow> sqe_prep list) \<Rightarrow> nat \<Rightarrow> sqe_prep list \<Rightarrow> ('k, 'z) eworld_scheme \<Rightarrow> ('k, 'z) eworld_scheme \<Rightarrow> bool" where
  "asked_for lg i q w w' \<longleftrightarrow> lg (ring i w') = lg (ring i w) @ q"

text \<open>A worker of engine \<open>i\<close> runs, whose slots are in order; and, at the moment, its submission ring is not full.\<close>

definition on_ring :: "'k kernel_ops \<Rightarrow> ('k \<Rightarrow> sqe_prep list) \<Rightarrow> nat \<Rightarrow> ('k, 'z) eworld_scheme \<Rightarrow> bool" where
  "on_ring K lg i w \<longleftrightarrow> ring_log_doc K lg \<and> files_update_doc K \<and> linfo_egn w = Some i \<and> proxy_inv (m_upxy (engines w i))"

definition on_worker :: "'k kernel_ops \<Rightarrow> ('k \<Rightarrow> sqe_prep list) \<Rightarrow> nat \<Rightarrow> ('k, 'z) eworld_scheme \<Rightarrow> bool" where
  "on_worker K lg i w \<longleftrightarrow> on_ring K lg i w \<and> sqe_free K i w"

lemma on_workerD: "on_worker K lg i w \<Longrightarrow> on_ring K lg i w" "on_worker K lg i w \<Longrightarrow> ring_log_doc K lg" "on_worker K lg i w \<Longrightarrow> linfo_egn w = Some i"
  by (simp_all add: on_worker_def on_ring_def)

lemma sqe_free_ring: "sqe_free K i w = gives_entry K (ring i w)"
  by (simp add: sqe_free_def gives_entry_def ring_def)

text \<open>The awaiter at \<open>a\<close> holds the result \<open>r\<close>.\<close>

definition delivered :: "addr \<Rightarrow> int \<Rightarrow> ('k, 'z) ioworld_scheme \<Rightarrow> bool" where
  "delivered a r w \<longleftrightarrow> a \<noteq> nullptr \<and> (\<exists>x. infos w a = Some x \<and> io_result x = r)"

lemma io_value_delivered [simp]: "delivered a r w \<Longrightarrow> io_value a w = Inr (r, w\<lparr>infos := (infos w)(a := None)\<rparr>)"
  by (auto simp: delivered_def io_value_def io_await_resume_def)

lemma fold_prep_log: "ring_log_doc K lg \<Longrightarrow> lg (fold (k_prep K s) preps k) = lg k @ preps"
  by (induction preps arbitrary: k) (simp_all add: ring_log_doc_def)

text \<open>A request that waits for its completion: one entry of the ring, one awaiter, nothing else.\<close>

lemma co_await_request:
  assumes "on_worker K lg i w" and "a \<noteq> nullptr" and "op a w = io_request K g kind cb dat preps a w"
  shows "\<exists>k x. co_await_io op a h w = Some (Inr (put_engine i ((engines w i)\<lparr>m_upxy := (m_upxy (engines w i))\<lparr>m_uring := k\<rparr>,
        m_num_io_wait_submit := m_num_io_wait_submit (engines w i) + 1\<rparr>) (put_info a x w))) \<and>
    lg k = lg (ring i w) @ preps \<and> io_handle x = h \<and> io_cb x = Some cb \<and> io_kind x = kind"
proof -
  obtain s k where sk: "k_get_sqe K (m_uring (m_upxy (engines w i))) = (s, k)" by (rule prod.exhaust)
  have doc: "ring_log_doc K lg" and e: "linfo_egn w = Some i" and s: "s \<noteq> nullptr"
    using assms(1) sk by (simp_all add: on_worker_def on_ring_def sqe_free_def)
  have "lg k = lg (ring i w)" using doc sk unfolding ring_log_doc_def ring_def by (metis snd_conv)
  then have "lg (fold (k_prep K s) preps k) = lg (ring i w) @ preps" by (simp add: fold_prep_log [OF doc])
  then show ?thesis
    using assms(2) io_request_eq [OF assms(2) e sk s, of g kind cb dat preps] assms(3)
    by (intro exI [of _ "fold (k_prep K s) preps k"]
        exI [of _ "g\<lparr>io_kind := kind, io_cb := Some cb, io_data := dat (io_data g), io_handle := h\<rparr>"])
      (simp add: co_await_io_def io_await_suspend_def put_info_def put_engine_def)
qed

lemma fixed_fds_log:
  assumes "ring_log_doc K lg"
  shows "fixed_fds_ctor p = (it, p') \<Longrightarrow> m_uring p' = m_uring p"
    and "fixed_fds_assign K it fd flag p = Inr (fd', flag', p') \<Longrightarrow>
      lg (m_uring p') = lg (m_uring p) \<and> gives_entry K (m_uring p') = gives_entry K (m_uring p)"
    and "fixed_fds_return_back K it p = Inr (it', p') \<Longrightarrow>
      lg (m_uring p') = lg (m_uring p) \<and> gives_entry K (m_uring p') = gives_entry K (m_uring p)"
proof -
  have upd: "lg (m_uring q') = lg (m_uring q) \<and> gives_entry K (m_uring q') = gives_entry K (m_uring q)"
    if "update_register_fixed_fds K n q = Inr q'" for n q q'
    using that assms unfolding ring_log_doc_def update_register_fixed_fds_def
    by (auto split: if_splits prod.splits) (metis snd_conv)+
  show "fixed_fds_ctor p = (it, p') \<Longrightarrow> m_uring p' = m_uring p"
    by (auto simp: fixed_fds_ctor_def get_fixed_fd_def split: prod.splits if_splits)
  show "fixed_fds_assign K it fd flag p = Inr (fd', flag', p') \<Longrightarrow>
      lg (m_uring p') = lg (m_uring p) \<and> gives_entry K (m_uring p') = gives_entry K (m_uring p)"
    by (auto simp: fixed_fds_assign_def split: if_splits option.splits dest!: upd)
  show "fixed_fds_return_back K it p = Inr (it', p') \<Longrightarrow>
      lg (m_uring p') = lg (m_uring p) \<and> gives_entry K (m_uring p') = gives_entry K (m_uring p)"
    by (auto simp: fixed_fds_return_back_def back_fixed_fd_def split: if_splits dest!: upd)
qed

section \<open>Connections of a worker\<close>

text \<open>The slot of the connection, if it has one, is lent out.\<close>

definition holds_slot :: "nat \<Rightarrow> item \<Rightarrow> ('k, 'z) eworld_scheme \<Rightarrow> bool" where
  "holds_slot i it w \<longleftrightarrow> (valid it \<longrightarrow> idx it \<in> lent (m_fds (m_upxy (engines w i))))"

lemma put_proxy_worker [simp]:
  "on_ring K lg i w \<Longrightarrow> on_ring K lg i (put_proxy i p w) = proxy_inv p" "ring i (put_proxy i p w) = m_uring p"
  "holds_slot i it (put_proxy i p w) \<longleftrightarrow> (valid it \<longrightarrow> idx it \<in> lent (m_fds p))"
  "on_worker K lg i w \<Longrightarrow> on_worker K lg i (put_proxy i p w) \<longleftrightarrow> proxy_inv p \<and> gives_entry K (m_uring p)"
  by (simp_all add: on_worker_def on_ring_def ring_def holds_slot_def sqe_free_def gives_entry_def)

lemma new_connector_ok:
  assumes "on_ring K lg i w"
  shows "\<exists>c p. new_tcp_connector K fd w = Inr (c, put_proxy i p w) \<and> m_original_fd c = fd \<and> proxy_inv p \<and>
    (valid (c_fixed_fd c) \<longrightarrow> idx (c_fixed_fd c) \<in> lent (m_fds p)) \<and> lg (m_uring p) = lg (ring i w) \<and>
    gives_entry K (m_uring p) = sqe_free K i w \<and>
    (if que (m_fds (m_upxy (engines w i))) = [] then m_sockfd c = fd \<and> c_sqe_flag c = 0
     else 0 \<le> m_sockfd c \<and> m_sockfd c < 8 \<and> data (m_fds p) ! nat (m_sockfd c) = fd \<and> c_sqe_flag c = IOSQE_FIXED_FILE)"
proof -
  let ?p = "m_upxy (engines w i)"
  have doc: "files_update_doc K" "ring_log_doc K lg" and inv: "proxy_inv ?p" and e: "linfo_egn w = Some i" using assms by (simp_all add: on_ring_def)
  obtain it p1 where ctor: "fixed_fds_ctor ?p = (it, p1)" by (rule prod.exhaust)
  have l1: "local_fixed_fd w = Inr (it, put_proxy i p1 w)" using e ctor by (simp add: local_fixed_fd_def local_engine_def)
  show ?thesis
  proof (cases "que (m_fds ?p) = []")
    case True
    then have "it = invalid_item" "p1 = ?p" using fixed_fds_ctor_cases(1) [OF inv] ctor by auto
    then have "new_tcp_connector K fd w = Inr (\<lparr>m_sockfd = fd, m_original_fd = fd, c_fixed_fd = it, c_sqe_flag = 0\<rparr>, put_proxy i ?p w)"
      using l1 by (simp add: new_tcp_connector_def local_assign_def valid_def invalid_item_def)
    then show ?thesis using True \<open>it = invalid_item\<close> inv by (auto simp: valid_def invalid_item_def ring_def sqe_free_ring)
  next
    case False
    note c = fixed_fds_ctor_cases(2) [OF inv False ctor]
    obtain p2 where a: "fixed_fds_assign K it fd 0 p1 = Inr (idx it, or 0 IOSQE_FIXED_FILE, p2)"
      and p2: "proxy_inv p2" "lent (m_fds p2) = lent (m_fds p1)" "data (m_fds p2) = (data (m_fds p1))[nat (idx it) := fd]"
      by (rule fixed_fds_assign_ok [OF doc(1), of p1 it fd 0]) (use c in auto)
    have "local_assign K it fd 0 (put_proxy i p1 w) = Inr (idx it, IOSQE_FIXED_FILE, put_proxy i p2 w)"
      using local_assign_eq [of "put_proxy i p1 w" i K it fd 0 "idx it" _ p2] a e by simp
    moreover have "lg (m_uring p2) = lg (ring i w)" "gives_entry K (m_uring p2) = sqe_free K i w"
      using fixed_fds_log(1,2) [OF doc(2)] ctor a unfolding sqe_free_ring by (metis ring_def)+
    moreover have "length (data (m_fds p1)) = 8" "nat (idx it) < 8" "0 \<le> idx it" "idx it < 8" using c by (auto simp: lent_def proxy_inv_def)
    ultimately show ?thesis using False l1 c p2 by (auto simp: new_tcp_connector_def)
  qed
qed

lemma local_return_back_ok:
  assumes "on_ring K lg i w" and "holds_slot i it w"
  shows "\<exists>p. local_return_back K it w = Inr (if valid it then set_invalid it else it, put_proxy i p w) \<and> proxy_inv p \<and>
    lg (m_uring p) = lg (ring i w) \<and> gives_entry K (m_uring p) = sqe_free K i w \<and> (valid it \<longrightarrow> idx it \<notin> lent (m_fds p))"
proof (cases "valid it")
  case True
  let ?p = "m_upxy (engines w i)"
  have doc: "files_update_doc K" "ring_log_doc K lg" and inv: "proxy_inv ?p" and e: "linfo_egn w = Some i" using assms by (simp_all add: on_ring_def)
  obtain p where b: "back_fixed_fd K it ?p = Inr p" and p: "proxy_inv p" "lent (m_fds p) = lent (m_fds ?p) - {idx it}"
    by (rule back_fixed_fd_ok [OF doc(1) inv, of it]) (use assms True in \<open>auto simp: holds_slot_def\<close>)
  have r: "fixed_fds_return_back K it ?p = Inr (set_invalid it, p)" using b True by (simp add: fixed_fds_return_back_def)
  then show ?thesis
    using local_return_back_eq [OF e r] fixed_fds_log(3) [OF doc(2) r] True p by (auto simp: ring_def sqe_free_ring)
next
  case False
  then show ?thesis using assms(1)
    by (intro exI [of _ "m_upxy (engines w i)"]) (simp add: local_return_back_def put_proxy_id on_ring_def ring_def sqe_free_ring)
qed

text \<open>A connector before its construction.\<close>

definition no_connector :: tcp_connector where
  "no_connector = \<lparr>m_sockfd = 0, m_original_fd = 0, c_fixed_fd = invalid_item, c_sqe_flag = 0\<rparr>"

text \<open>What the requests of a connection name: the socket or its slot, the flag, the original descriptor, the buffer, the awaiter.\<close>

type_synonym conn_ends = "int \<times> nat \<times> int \<times> addr \<times> addr"

definition ends_of :: "tcp_connector \<Rightarrow> addr \<Rightarrow> addr \<Rightarrow> conn_ends" where
  "ends_of c buf a = (m_sockfd c, c_sqe_flag c, m_original_fd c, buf, a)"

fun recv_request :: "64 word \<Rightarrow> conn_ends \<Rightarrow> sqe_prep list" where
  "recv_request n (sock, flag, fd, buf, a) = [Set_flags (int flag), Prep_recv sock buf n 0, Set_data a]"

fun send_request :: "64 word \<Rightarrow> conn_ends \<Rightarrow> sqe_prep list" where
  "send_request n (sock, flag, fd, buf, a) = [Set_flags (int flag), Prep_send sock buf n 0, Set_data a]"

fun close_request :: "conn_ends \<Rightarrow> sqe_prep list" where
  "close_request (sock, flag, fd, buf, a) = [Prep_close fd, Set_data a]"

lemma info_frames [simp]: "w_frames (put_info a x w) = w_frames w" "w_frames (put_proxy i p w) = w_frames w"
  by (simp_all add: put_info_def put_proxy_def)

lemma await_read_ok:
  assumes "on_worker K lg i w" and "a \<noteq> nullptr"
  shows "\<exists>w'. co_await_io (connector_read K g c buf n 0) a h w = Some (Inr w') \<and> asked_for lg i (recv_request n (ends_of c buf a)) w w' \<and>
    w_frames w' = w_frames w"
proof -
  have "connector_read K g c buf n 0 a w = io_request K g Io_tcp_read Read_cb (\<lambda>d. d) (recv_request n (ends_of c buf a)) a w"
    by (simp add: connector_read_def tcp_read_awaiter_def ends_of_def ioinfo_to_ptr_def)
  from co_await_request [where op = "connector_read K g c buf n 0", OF assms this, of h] show ?thesis by (auto simp: asked_for_def ring_def)
qed

lemma await_write_ok:
  assumes "on_worker K lg i w" and "a \<noteq> nullptr"
  shows "\<exists>w'. co_await_io (connector_write K g c buf n 0) a h w = Some (Inr w') \<and> asked_for lg i (send_request n (ends_of c buf a)) w w' \<and>
    w_frames w' = w_frames w"
proof -
  have "connector_write K g c buf n 0 a w = io_request K g Io_tcp_write Write_cb (\<lambda>d. d) (send_request n (ends_of c buf a)) a w"
    by (simp add: connector_write_def tcp_write_awaiter_def ends_of_def ioinfo_to_ptr_def)
  from co_await_request [where op = "connector_write K g c buf n 0", OF assms this, of h] show ?thesis by (auto simp: asked_for_def ring_def)
qed

text \<open>Closing gives the slot back first; the destructor then has nothing to do.\<close>

lemma await_close_ok:
  assumes "on_worker K lg i w" and "a \<noteq> nullptr" and "holds_slot i (c_fixed_fd c) w"
  shows "\<exists>c' w1 w2. connector_close K g c a w = Some (Inr (c', w1)) \<and> io_await_suspend a h w1 = Inr w2 \<and> ends_of c' buf a = ends_of c buf a \<and>
    \<not> valid (c_fixed_fd c') \<and> asked_for lg i (close_request (ends_of c buf a)) w w2 \<and> w_frames w2 = w_frames w"
proof -
  let ?it = "c_fixed_fd c"
  from local_return_back_ok [OF _ assms(3), of K lg] assms(1) obtain p where
    p: "local_return_back K ?it w = Inr (if valid ?it then set_invalid ?it else ?it, put_proxy i p w)" "proxy_inv p" "lg (m_uring p) = lg (ring i w)"
      "gives_entry K (m_uring p)" by (auto simp: on_worker_def)
  have op: "tcp_close_awaiter K g (m_original_fd c) a (put_proxy i p w) =
      io_request K g Io_tcp_close Close_cb (\<lambda>d. d) (close_request (ends_of c buf a)) a (put_proxy i p w)"
    by (simp add: tcp_close_awaiter_def ends_of_def ioinfo_to_ptr_def)
  have on: "on_worker K lg i (put_proxy i p w)" using assms(1) p(2,4) by simp
  from co_await_request [where op = "tcp_close_awaiter K g (m_original_fd c)", OF on assms(2) op, of h] p(3) obtain w' where
    "co_await_io (tcp_close_awaiter K g (m_original_fd c)) a h (put_proxy i p w) = Some (Inr w')"
    "lg (ring i w') = lg (ring i w) @ close_request (ends_of c buf a)" "w_frames w' = w_frames w" by (auto simp: ring_def)
  then show ?thesis using p(1)
    by (auto simp: connector_close_def co_await_io_def bindO_eq_Inr asked_for_def ends_of_def valid_def set_invalid_def)
qed

lemma drop_info_worker [simp]:
  "on_ring K lg i (w\<lparr>infos := f\<rparr>) = on_ring K lg i w" "sqe_free K i (w\<lparr>infos := f\<rparr>) = sqe_free K i w"
  "on_worker K lg i (w\<lparr>infos := f\<rparr>) = on_worker K lg i w" "holds_slot i it (w\<lparr>infos := f\<rparr>) = holds_slot i it w" "ring i (w\<lparr>infos := f\<rparr>) = ring i w"
  by (simp_all add: on_worker_def on_ring_def holds_slot_def ring_def sqe_free_def)

lemma asked_for_drop_info [simp]: "asked_for lg i q (w\<lparr>infos := f\<rparr>) w' = asked_for lg i q w w'"
  by (simp add: asked_for_def)

text \<open>The end of a coroutine that owns a connection.\<close>

lemma connector_ends_ok:
  assumes "on_ring K lg i w" and "holds_slot i (c_fixed_fd c) w"
  shows "\<exists>w'. connector_dtor K c w = Inr w' \<and> asked_for lg i [] w (co_return_void h w')"
  using local_return_back_ok [OF assms] by (auto simp: connector_dtor_def asked_for_def co_return_void_def ring_def)

section \<open>Starting a coroutine\<close>

lemma context_submit_log:
  assumes "ring_log_doc K lg" and "contexts_ok K cnt w" and "0 < context_room cnt c w" and "context_submit K resume c h w = Inr w'"
  shows "lg (ring i w') = lg (ring i w) \<and> gives_entry K (ring i w') = gives_entry K (ring i w) \<and>
    m_fds (m_upxy (engines w' i)) = m_fds (m_upxy (engines w i)) \<and> m_null_fds (m_upxy (engines w' i)) = m_null_fds (m_upxy (engines w i))"
proof -
  have "length (queued c w) < queue_size c w" "queue_inv c w" using assms by (simp_all add: context_room_def contexts_ok_def)
  then obtain q where q: "try_push h (m_task_queue (engines w c)) = Inr (True, q)"
    using try_push_room [of "m_task_queue (engines w c)" h] unfolding length_aq_items by blast
  have "lg k = lg k' \<and> gives_entry K k = gives_entry K k'" if "k_eventfd_write K fd v k' = Some (r, k)" for fd v k' r k
    using assms(1) that by (auto simp: ring_log_doc_def)
  with q assms(4) show ?thesis
    by (auto simp: context_submit_def submit_task_def wake_up_def write_eventfd_def ring_def split: if_splits option.splits prod.splits)
qed

text \<open>A spawned coroutine is detached, owned by nobody, and queued at the context whose turn it is.\<close>

lemma spawn_ok:
  assumes "taking K cnt w" and "c = turn_of w" and "0 < context_room cnt c w" and "pl_frame pl \<noteq> nullptr"
  shows "\<exists>w'. spawn K resume pl l w = Inr w' \<and> taking K cnt w' \<and> queued c w' = queued c w @ [pl_frame pl] \<and>
    (\<forall>e. e \<noteq> c \<longrightarrow> queued e w' = queued e w) \<and> bodies w' = (bodies w)(pl_frame pl \<mapsto> l) \<and> infos w' = infos w \<and>
    w_frames w' = (w_frames w)(pl_frame pl \<mapsto> set_state cs_detach new_frame) \<and> linfo_egn w' = linfo_egn w \<and>
    m_cur (m_dispatcher (sched w')) = m_cur (m_dispatcher (sched w)) + 1 \<and> m_ctx_cnt (sched w') = m_ctx_cnt (sched w) \<and>
    (\<forall>lg i. ring_log_doc K lg \<longrightarrow> lg (ring i w') = lg (ring i w) \<and> gives_entry K (ring i w') = gives_entry K (ring i w) \<and> m_fds (m_upxy (engines w' i)) = m_fds (m_upxy (engines w i)) \<and>
      m_null_fds (m_upxy (engines w' i)) = m_null_fds (m_upxy (engines w i)))"
proof -
  let ?w = "call_coroutine pl l w\<lparr>w_frames := (w_frames w)(pl_frame pl \<mapsto> set_state cs_detach new_frame),
      w_tasks := (w_tasks w)(pl_task pl := nullptr)\<rparr>"
  have eq: "spawn K resume pl l w = submit_task_impl K resume (pl_frame pl) ?w"
    using assms(4) by (simp add: spawn_def submit_to_scheduler_rvalue_def scheduler_submit_rvalue_def call_coroutine_def Let_def)
  have room: "context_room cnt e ?w = context_room cnt e w" for e by (simp add: context_room_def efd_count_def call_coroutine_def)
  have "taking K cnt ?w" "turn_of ?w = turn_of w"
    using assms(1) by (simp_all add: taking_def contexts_ok_def efd_open_def call_coroutine_def turn_of_def)
  with submit_task_impl_ok [of K cnt ?w "pl_frame pl" c resume] assms room obtain w' w0 where
    w': "submit_task_impl K resume (pl_frame pl) ?w = Inr w'" "taking K cnt w'" "queued c w' = queued c ?w @ [pl_frame pl]"
      "\<forall>e. e \<noteq> c \<longrightarrow> queued e w' = queued e ?w" "w_frames w' = w_frames ?w" "linfo_egn w' = linfo_egn ?w"
      "m_cur (m_dispatcher (sched w')) = m_cur (m_dispatcher (sched ?w)) + 1" "m_ctx_cnt (sched w') = m_ctx_cnt (sched ?w)"
      "sworld.more w' = sworld.more ?w" and w0: "context_submit K resume c (pl_frame pl) w0 = Inr w'" "engines w0 = engines ?w" by auto
  from w'(9) have more: "infos w' = infos ?w" "bodies w' = bodies ?w" by (cases w, cases w', simp add: call_coroutine_def)+
  have e0: "engines w0 = engines w" using w0(2) by (simp add: call_coroutine_def)
  have "contexts_ok K cnt w0" "0 < context_room cnt c w0"
    using assms(1,3) e0 by (simp_all add: taking_def contexts_ok_def efd_open_def context_room_def efd_count_def)
  with context_submit_log [OF _ _ _ w0(1)] have "ring_log_doc K lg \<longrightarrow> lg (ring i w') = lg (ring i w) \<and> gives_entry K (ring i w') = gives_entry K (ring i w) \<and> m_fds (m_upxy (engines w' i)) = m_fds (m_upxy (engines w i)) \<and>
      m_null_fds (m_upxy (engines w' i)) = m_null_fds (m_upxy (engines w i))" for lg i
    by (simp add: ring_def e0)
  then show ?thesis using eq w' more by (intro exI [of _ w']) (simp add: call_coroutine_def)
qed

lemma on_worker_cong:
  assumes "on_worker K lg i v" and "linfo_egn w = linfo_egn v" and "gives_entry K (ring i w) = gives_entry K (ring i v)"
    and "m_fds (m_upxy (engines w i)) = m_fds (m_upxy (engines v i))" "m_null_fds (m_upxy (engines w i)) = m_null_fds (m_upxy (engines v i))"
  shows "on_worker K lg i w"
  using assms by (simp add: on_worker_def on_ring_def proxy_inv_def sqe_free_ring)

section \<open>The contract of a coroutine that awaits requests\<close>

text \<open>The life of a coroutine: it is resumed in one world after the other, each with the result of what it awaits; between
  two resumptions the other coroutines, the other threads and the kernel may change the world as they like. The list
  holds the result, the world at the resumption and the world at the next suspension.\<close>

inductive lives :: "('s \<Rightarrow> 'w \<Rightarrow> ('s \<times> 'w) result option) \<Rightarrow> ('s \<Rightarrow> 'r \<Rightarrow> 'w \<Rightarrow> bool) \<Rightarrow> 's \<Rightarrow> ('r \<times> 'w \<times> 'w) list \<Rightarrow> 's \<Rightarrow> bool"
  for body :: "'s \<Rightarrow> 'w \<Rightarrow> ('s \<times> 'w) result option" and fit :: "'s \<Rightarrow> 'r \<Rightarrow> 'w \<Rightarrow> bool" where
  waits: "lives body fit s [] s"
| resumed: "fit s r v \<Longrightarrow> body s v = Some (Inr (s', v')) \<Longrightarrow> lives body fit s' tr s'' \<Longrightarrow> lives body fit s ((r, v, v') # tr) s''"

type_synonym 'w life = "(int \<times> 'w \<times> 'w) list"

inductive_cases lives_NilE: "lives body fit s [] s'"
inductive_cases lives_ConsE: "lives body fit s (x # tr) s'"

text \<open>A protocol: from a place and a result to the next place, with a request on the way.\<close>

primrec protocol :: "('p \<Rightarrow> 'r \<Rightarrow> 'p \<times> 'q) \<Rightarrow> 'p \<Rightarrow> 'r list \<Rightarrow> 'q list" where
  "protocol follow p [] = []"
| "protocol follow p (r # rs) = (case follow p r of (p', q) \<Rightarrow> q # protocol follow p' rs)"

definition finally_at :: "('p \<Rightarrow> 'r \<Rightarrow> 'p \<times> 'q) \<Rightarrow> 'p \<Rightarrow> 'r list \<Rightarrow> 'p" where
  "finally_at follow p rs = fold (\<lambda>r p. fst (follow p r)) rs p"

lemma finally_at_simps [simp]:
  "finally_at follow p [] = p" "finally_at follow p (r # rs) = finally_at follow (fst (follow p r)) rs"
  "finally_at follow p (xs @ ys) = finally_at follow (finally_at follow p xs) ys"
  by (simp_all add: finally_at_def)

lemma protocol_append: "protocol follow p (xs @ ys) = protocol follow p xs @ protocol follow (finally_at follow p xs) ys"
  by (induction xs arbitrary: p) (simp_all add: case_prod_beta)

locale io_coroutine =
  fixes body :: "'s \<Rightarrow> 'w \<Rightarrow> ('s \<times> 'w) result option"
    and fit :: "'s \<Rightarrow> 'r \<Rightarrow> 'w \<Rightarrow> bool"
    and place :: "'s \<Rightarrow> 'p"
    and follow :: "'p \<Rightarrow> 'r \<Rightarrow> 'p \<times> 'q"
    and made :: "'q \<Rightarrow> 'w \<Rightarrow> 'w \<Rightarrow> bool"
  assumes obeys: "fit s r v \<Longrightarrow>
    \<exists>s' v'. body s v = Some (Inr (s', v')) \<and> place s' = fst (follow (place s) r) \<and> made (snd (follow (place s) r)) v v'"
begin

text \<open>In every life the requests are those of the protocol.\<close>

lemma life_obeys:
  assumes "lives body fit s tr s'"
  shows "list_all2 (\<lambda>(r, v, v') q. made q v v') tr (protocol follow (place s) (map fst tr)) \<and>
    place s' = finally_at follow (place s) (map fst tr)"
  using assms
proof (induction rule: lives.induct)
  case (resumed s r v s1 v1 tr s')
  with obeys [OF resumed(1)] show ?case by (simp add: case_prod_beta)
qed simp

text \<open>A resumed coroutine reaches its next suspension: every life can go on.\<close>

lemma life_goes_on:
  assumes "lives body fit s tr s'" and "fit s' r v"
  shows "\<exists>v' s''. lives body fit s (tr @ [(r, v, v')]) s''"
  using assms
proof (induction rule: lives.induct)
  case (waits s)
  then show ?case using obeys [of s r v] by (auto intro: lives.intros)
next
  case (resumed s r0 v0 s1 v1 tr s')
  then show ?case by (auto intro: lives.resumed)
qed

end

section \<open>A worker with a kernel that keeps the log\<close>

text \<open>A worker of a scheduler with two contexts, all slots for registered files lent out.\<close>

definition tape_world :: "(nat \<times> sqe_prep list, nat, 'l) pworld" where
  "tape_world =
     \<lparr>engines = (\<lambda>_. tape_engine), w_frames = (\<lambda>_. None), w_tasks = (\<lambda>_. nullptr), linfo_ctx = Some 0, linfo_egn = Some 0,
      context_id = 1, engine_id = 1, contexts = (\<lambda>_. sample_context), sched = sample_scheduler, infos = (\<lambda>_. None), net = 0, bodies = (\<lambda>_. None)\<rparr>"

text \<open>The same when the result \<open>r\<close> has been delivered to the awaiter at address 40.\<close>

definition tape_world_with :: "int \<Rightarrow> (nat \<times> sqe_prep list, nat, 'l) pworld" where
  "tape_world_with r = tape_world\<lparr>infos := [40 \<mapsto> garbage_info\<lparr>io_result := r\<rparr>]\<rparr>"

lemma tape_worker [simp]:
  "on_worker tape_kernel snd 0 tape_world" "on_worker tape_kernel snd 0 (tape_world_with r)"
  "on_ring tape_kernel snd 0 tape_world" "on_ring tape_kernel snd 0 (tape_world_with r)"
  "sqe_free tape_kernel 0 tape_world" "sqe_free tape_kernel 0 (tape_world_with r)"
  by (simp_all add: on_worker_def on_ring_def sqe_free_def gives_entry_def ring_log_doc_def files_update_doc_def tape_kernel_def tape_world_def
      tape_world_with_def tape_engine_def proxy_inv_def mb_inv_def split: if_splits)

lemma tape_delivered [simp]: "delivered 40 r (tape_world_with r)"
  by (simp add: delivered_def tape_world_with_def)

lemma tape_slot [simp]: "holds_slot 0 invalid_item v"
  by (simp add: holds_slot_def invalid_item_def valid_def)

lemma tape_connector:
  "new_tcp_connector tape_kernel fd tape_world = Inr (\<lparr>m_sockfd = fd, m_original_fd = fd, c_fixed_fd = invalid_item, c_sqe_flag = 0\<rparr>, tape_world)"
proof -
  have "fixed_fds_ctor (m_upxy (engines tape_world 0)) = (invalid_item, m_upxy (engines tape_world 0))"
    by (simp add: fixed_fds_ctor_def get_fixed_fd_def borrow_def tape_world_def tape_engine_def)
  then have "local_fixed_fd tape_world = Inr (invalid_item, tape_world)"
    by (simp add: local_fixed_fd_def local_engine_def put_proxy_id) (simp add: tape_world_def put_proxy_def put_engine_def fun_eq_iff)
  then show ?thesis by (simp add: new_tcp_connector_def local_assign_def valid_def invalid_item_def)
qed

lemma tape_taking:
  fixes w :: "(nat \<times> sqe_prep list, nat, 'l) pworld"
  assumes w: "w = tape_world_with r"
  shows "taking tape_kernel (\<lambda>fd k. fst k) w" and "context_room (\<lambda>fd k. fst k) c w = 16384" and "queued c w = []"
proof -
  have e: "engines w = (\<lambda>_. tape_engine)" by (simp add: w tape_world_with_def tape_world_def)
  show "context_room (\<lambda>fd k. fst k) c w = 16384" "queued c w = []" by (rule tape_engines [OF e])+
  show "taking tape_kernel (\<lambda>fd k. fst k) w"
    using tape_engines(1) [OF e] sample_sched_inv by (simp add: taking_def w tape_world_with_def tape_world_def) (simp add: sample_scheduler_def)
qed

end
