(* ===== verification/Echo_Server.thy ===== *)
theory Echo_Server
  imports Io_Coroutine
begin

text \<open>
  The echo servers of \<^verbatim>\<open>benchmark/sheepcoro_model\<close>: \<^verbatim>\<open>session\<close>, \<^verbatim>\<open>server\<close> and \<^verbatim>\<open>main\<close>, for the three buffer lengths. \<open>se_pc\<close> and
  \<open>sv_pc\<close> are the suspension points; the bodies run from one to the next. The session reads, writes back what it read,
  and closes; the server submits one session per accepted connection to the scheduler.
\<close>

section \<open>Session\<close>

datatype session_pc = S_begin | S_read | S_write | S_close | S_end

record session =
  se_pc :: session_pc
  se_fd :: int
  se_conn :: tcp_connector
  se_buf :: addr
  se_wait :: addr

text \<open>A call of \<^verbatim>\<open>session(fd)\<close>; the connector is constructed when the body first runs.\<close>

definition new_session :: "int \<Rightarrow> places \<Rightarrow> session" where
  "new_session fd pl =
     \<lparr>se_pc = S_begin, se_fd = fd, se_conn = no_connector, se_buf = pl_buf pl, se_wait = pl_wait pl\<rparr>"

definition session_read where
  "session_read K g bufflen h s w =
     bindO (co_await_io (connector_read K g (se_conn s) (se_buf s) bufflen 0) (se_wait s) h w) (\<lambda>w1. Some (Inr (s\<lparr>se_pc := S_read\<rparr>, w1)))"

definition session_write where
  "session_write K g ret h s w =
     bindO (co_await_io (connector_write K g (se_conn s) (se_buf s) (word_of_int ret) 0) (se_wait s) h w) (\<lambda>w1. Some (Inr (s\<lparr>se_pc := S_write\<rparr>, w1)))"

text \<open>\<^verbatim>\<open>conn.close()\<close> gives the slot back before it builds the awaiter.\<close>

definition session_close where
  "session_close K g h s w =
     bindO (connector_close K g (se_conn s) (se_wait s) w) (\<lambda>(c, w1).
     bindO (Some (io_await_suspend (se_wait s) h w1)) (\<lambda>w2. Some (Inr (s\<lparr>se_pc := S_close, se_conn := c\<rparr>, w2))))"

definition session_resume where
  "session_resume ndebug K g bufflen h s w =
     (case se_pc s of
        S_begin \<Rightarrow> bindO (Some (new_tcp_connector K (se_fd s) w)) (\<lambda>(c, w1). session_read K g bufflen h (s\<lparr>se_conn := c\<rparr>) w1)
      | S_read \<Rightarrow> bindO (Some (io_value (se_wait s) w)) (\<lambda>(ret, w1).
          if ret > 0 then session_write K g ret h s w1 else session_close K g h s w1)
      | S_write \<Rightarrow> bindO (Some (io_value (se_wait s) w)) (\<lambda>(ret, w1).
          if ret \<le> 0 then session_close K g h s w1 else session_read K g bufflen h s w1)
      | S_close \<Rightarrow> bindO (Some (io_value (se_wait s) w)) (\<lambda>(ret, w1).
          if \<not> ndebug \<and> ret \<noteq> 0 then Some (Inl Assert_failed)
          else bindO (Some (connector_dtor K (se_conn s) w1)) (\<lambda>w2. Some (Inr (s\<lparr>se_pc := S_end\<rparr>, co_return_void h w2))))
      | S_end \<Rightarrow> Some (Inl Assert_failed))"

text \<open>The three programs differ in \<^verbatim>\<open>BUFFLEN\<close>.\<close>

definition session_128 where "session_128 ndebug K g = session_resume ndebug K g (128 + 16 :: 64 word)"
definition session_1k where "session_1k ndebug K g = session_resume ndebug K g (1024 + 16 :: 64 word)"
definition session_16k where "session_16k ndebug K g = session_resume ndebug K g (16 * 1024 + 16 :: 64 word)"

section \<open>Server\<close>

datatype server_pc = V_begin | V_accept | V_end

record server =
  sv_pc :: server_pc
  sv_port :: int
  sv_server :: tcp_server
  sv_wait :: addr

datatype coroutine = Session session | Server server

definition new_server :: "int \<Rightarrow> places \<Rightarrow> server" where
  "new_server port pl =
     \<lparr>sv_pc = V_begin, sv_port = port,
      sv_server = \<lparr>m_listenfd = 0, s_serveraddr = \<lparr>sin_family = 0, sin_port = 0, s_addr = 0\<rparr>, s_fixed_fd = invalid_item, s_sqe_flag = 0\<rparr>,
      sv_wait = pl_wait pl\<rparr>"

definition server_await where
  "server_await K g h s w =
     bindO (co_await_io (server_accept K g (sv_server s) 0) (sv_wait s) h w) (\<lambda>w1. Some (Inr (s\<lparr>sv_pc := V_accept\<rparr>, w1)))"

text \<open>\<open>alloc w\<close> says where the next coroutine is put.\<close>

definition server_resume where
  "server_resume ndebug N K g alloc resume h s w =
     (case sv_pc s of
        V_begin \<Rightarrow> bindO (Some (new_tcp_server_port ndebug N K (sv_port s) (net w) w)) (\<lambda>(srv, n, w1).
          server_await K g h (s\<lparr>sv_server := srv\<rparr>) (w1\<lparr>net := n\<rparr>))
      | V_accept \<Rightarrow> bindO (Some (io_value (sv_wait s) w)) (\<lambda>(client_fd, w1).
          if client_fd > 0 then
            bindO (Some (spawn K resume (alloc w1) (Session (new_session client_fd (alloc w1))) w1)) (server_await K g h s)
          else bindO (Some (server_dtor K (sv_server s) w1)) (\<lambda>w2. Some (Inr (s\<lparr>sv_pc := V_end\<rparr>, co_return_void h w2))))
      | V_end \<Rightarrow> Some (Inl Assert_failed))"

section \<open>The program\<close>

text \<open>What resuming the handle \<open>h\<close> runs; a thread that spins forever for a ring entry is \<open>Blocks\<close>.\<close>

definition echo_resume where
  "echo_resume ndebug N K g alloc bufflen resume h w =
     (case bodies w h of
        None \<Rightarrow> Inl Use_after_free
      | Some (Session s) \<Rightarrow> (case session_resume ndebug K g bufflen h s w of
          None \<Rightarrow> Inl Blocks | Some r \<Rightarrow> bindE r (\<lambda>(s1, w1). Inr (w1\<lparr>bodies := (bodies w1)(h \<mapsto> Session s1)\<rparr>)))
      | Some (Server s) \<Rightarrow> (case server_resume ndebug N K g alloc resume h s w of
          None \<Rightarrow> Inl Blocks | Some r \<Rightarrow> bindE r (\<lambda>(s1, w1). Inr (w1\<lparr>bodies := (bodies w1)(h \<mapsto> Server s1)\<rparr>))))"

definition program_128 where "program_128 ndebug N K g alloc = echo_resume ndebug N K g alloc (128 + 16)"
definition program_1k where "program_1k ndebug N K g alloc = echo_resume ndebug N K g alloc (1024 + 16)"
definition program_16k where "program_16k ndebug N K g alloc = echo_resume ndebug N K g alloc (16 * 1024 + 16)"

text \<open>\<^verbatim>\<open>main\<close>, the same in the three programs: the port is 8000, the number of contexts that of the processors.\<close>

definition main_server where
  "main_server K alloc fresh hardware_concurrency resume workers w =
     bindE (scheduler_init K fresh hardware_concurrency 0 w) (\<lambda>w1.
     bindE (spawn K resume (alloc w1) (Server (new_server 8000 (alloc w1))) w1) (\<lambda>w2.
     scheduler_loop workers w2))"


section \<open>The protocol of a session\<close>

definition se_ends :: "session \<Rightarrow> conn_ends" where
  "se_ends s = ends_of (se_conn s) (se_buf s) (se_wait s)"

definition session_follow where
  "session_follow bufflen p r =
     (case p of (pc, e) \<Rightarrow>
        if pc = S_read \<and> r > 0 then ((S_write, e), send_request (word_of_int r) e)
        else if pc = S_write \<and> r > 0 then ((S_read, e), recv_request bufflen e)
        else if pc = S_close then ((S_end, e), [])
        else ((S_close, e), close_request e))"

text \<open>The session runs on worker \<open>i\<close> and its awaiter holds \<open>r\<close>; unless it is at its end, the submission ring has an entry for
  its next request; with assertions the socket must have been closed without error.\<close>

definition session_fit where
  "session_fit ndebug K lg i s r v \<longleftrightarrow> on_ring K lg i v \<and> (se_pc s \<noteq> S_close \<longrightarrow> sqe_free K i v) \<and> delivered (se_wait s) r v \<and> holds_slot i (c_fixed_fd (se_conn s)) v \<and>
     se_pc s \<in> {S_read, S_write, S_close} \<and> (se_pc s = S_close \<and> \<not> ndebug \<longrightarrow> r = 0)"

lemma session_read_ok:
  assumes "on_worker K lg i w" and "se_wait s \<noteq> nullptr"
  shows "\<exists>w'. session_read K g bufflen h s w = Some (Inr (s\<lparr>se_pc := S_read\<rparr>, w')) \<and> asked_for lg i (recv_request bufflen (se_ends s)) w w' \<and>
    w_frames w' = w_frames w"
  using await_read_ok [OF assms, of g "se_conn s" "se_buf s" bufflen h] by (auto simp: session_read_def se_ends_def)

lemma session_write_ok:
  assumes "on_worker K lg i w" and "se_wait s \<noteq> nullptr"
  shows "\<exists>w'. session_write K g r h s w = Some (Inr (s\<lparr>se_pc := S_write\<rparr>, w')) \<and> asked_for lg i (send_request (word_of_int r) (se_ends s)) w w' \<and>
    w_frames w' = w_frames w"
  using await_write_ok [OF assms, of g "se_conn s" "se_buf s" "word_of_int r" h] by (auto simp: session_write_def se_ends_def)

lemma session_close_ok:
  assumes "on_worker K lg i w" and "se_wait s \<noteq> nullptr" and "holds_slot i (c_fixed_fd (se_conn s)) w"
  shows "\<exists>s' w'. session_close K g h s w = Some (Inr (s', w')) \<and> se_pc s' = S_close \<and> se_ends s' = se_ends s \<and>
    asked_for lg i (close_request (se_ends s)) w w' \<and> w_frames w' = w_frames w"
  using await_close_ok [OF assms, of g h "se_buf s"] by (auto simp: session_close_def se_ends_def)

lemma session_obeys:
  assumes "session_fit ndebug K lg i s r v"
  shows "\<exists>s' v'. session_resume ndebug K g bufflen h s v = Some (Inr (s', v')) \<and>
    (se_pc s', se_ends s') = fst (session_follow bufflen (se_pc s, se_ends s) r) \<and> asked_for lg i (snd (session_follow bufflen (se_pc s, se_ends s) r)) v v'"
proof -
  let ?v = "v\<lparr>infos := (infos v)(se_wait s := None)\<rparr>"
  have on: "on_ring K lg i ?v" "se_pc s \<noteq> S_close \<Longrightarrow> on_worker K lg i ?v" and a: "se_wait s \<noteq> nullptr"
    and slot: "holds_slot i (c_fixed_fd (se_conn s)) ?v" and val: "io_value (se_wait s) v = Inr (r, ?v)"
    using assms by (simp_all add: session_fit_def delivered_def [of "se_wait s"] on_worker_def)
  note parts = session_read_ok [OF on(2) a, of g bufflen h] session_write_ok [OF on(2) a, of g r h] session_close_ok [OF on(2) a slot, of g h]
  have ends: "se_ends (s\<lparr>se_pc := x\<rparr>) = se_ends s" for x by (simp add: se_ends_def)
  consider "se_pc s = S_read" | "se_pc s = S_write" | "se_pc s = S_close" "\<not> (\<not> ndebug \<and> r \<noteq> 0)" using assms by (auto simp: session_fit_def)
  then show ?thesis
  proof cases
    case 3
    then show ?thesis using connector_ends_ok [OF on(1) slot, of h] val by (auto simp: session_resume_def session_follow_def ends)
  qed (use parts val in \<open>auto simp: session_resume_def session_follow_def ends\<close>)
qed

interpretation echo: io_coroutine "session_resume ndebug K g bufflen h" "session_fit ndebug K lg i" "\<lambda>s. (se_pc s, se_ends s)"
  "session_follow bufflen" "asked_for lg i"
  by unfold_locales (rule session_obeys)

section \<open>The session echoes\<close>

text \<open>The results a session meets: exchanges of \<open>n\<close> bytes read and \<open>m\<close> bytes written, then what ends the loop: a read that gives
  nothing, or a read whose write fails. And the requests that belong to them.\<close>

definition exchanges :: "(int \<times> int) list \<Rightarrow> int list" where
  "exchanges nms = concat (map (\<lambda>(n, m). [n, m]) nms)"

definition is_talk :: "(int \<times> int) list \<Rightarrow> int list \<Rightarrow> bool" where
  "is_talk nms rs \<longleftrightarrow> (\<forall>(n, m) \<in> set nms. 0 < n \<and> 0 < m) \<and> (\<exists>r \<le> 0. rs = [r] \<or> (\<exists>n > 0. rs = [n, r]))"

definition replies :: "64 word \<Rightarrow> conn_ends \<Rightarrow> (int \<times> int) list \<Rightarrow> int list \<Rightarrow> sqe_prep list list" where
  "replies bufflen e nms rs =
     concat (map (\<lambda>(n, m). [send_request (word_of_int n) e, recv_request bufflen e]) nms) @
     map (\<lambda>n. send_request (word_of_int n) e) (butlast rs) @ [close_request e]"

lemma session_exchanges:
  "\<forall>(n, m) \<in> set nms. 0 < n \<and> 0 < m \<Longrightarrow>
   protocol (session_follow bufflen) (S_read, e) (exchanges nms) =
      concat (map (\<lambda>(n, m). [send_request (word_of_int n) e, recv_request bufflen e]) nms) \<and>
   finally_at (session_follow bufflen) (S_read, e) (exchanges nms) = (S_read, e)"
  by (induction nms) (auto simp: exchanges_def session_follow_def)

lemma session_talk:
  assumes "is_talk nms rs"
  shows "protocol (session_follow bufflen) (S_read, e) (exchanges nms @ rs) = replies bufflen e nms rs \<and>
    finally_at (session_follow bufflen) (S_read, e) (exchanges nms @ rs) = (S_close, e)"
proof -
  from assms obtain r where r: "r \<le> 0" "rs = [r] \<or> (\<exists>n > 0. rs = [n, r])" by (auto simp: is_talk_def)
  then have "protocol (session_follow bufflen) (S_read, e) rs = map (\<lambda>n. send_request (word_of_int n) e) (butlast rs) @ [close_request e] \<and>
      finally_at (session_follow bufflen) (S_read, e) rs = (S_close, e)"
    by (elim disjE exE conjE) (simp_all add: session_follow_def)
  then show ?thesis using session_exchanges [of nms bufflen e] assms by (simp add: protocol_append replies_def is_talk_def)
qed

lemma session_begins:
  assumes "on_worker K lg i w" and "pl_wait pl \<noteq> nullptr"
  shows "\<exists>s w1. session_resume ndebug K g bufflen h (new_session fd pl) w = Some (Inr (s, w1)) \<and> se_pc s = S_read \<and>
    asked_for lg i (recv_request bufflen (se_ends s)) w w1 \<and> m_original_fd (se_conn s) = fd \<and> se_buf s = pl_buf pl \<and> se_wait s = pl_wait pl \<and>
    (if que (m_fds (m_upxy (engines w i))) = [] then m_sockfd (se_conn s) = fd \<and> c_sqe_flag (se_conn s) = 0
     else 0 \<le> m_sockfd (se_conn s) \<and> m_sockfd (se_conn s) < 8 \<and> c_sqe_flag (se_conn s) = IOSQE_FIXED_FILE)"
proof -
  from new_connector_ok [OF on_workerD(1) [OF assms(1)], of fd] assms(1) obtain c p where
    c: "new_tcp_connector K fd w = Inr (c, put_proxy i p w)" "m_original_fd c = fd" "proxy_inv p" "lg (m_uring p) = lg (ring i w)"
      "if que (m_fds (m_upxy (engines w i))) = [] then m_sockfd c = fd \<and> c_sqe_flag c = 0
       else 0 \<le> m_sockfd c \<and> m_sockfd c < 8 \<and> data (m_fds p) ! nat (m_sockfd c) = fd \<and> c_sqe_flag c = IOSQE_FIXED_FILE"
      and gives: "gives_entry K (m_uring p)" by (auto simp: on_worker_def)
  let ?s = "new_session fd pl\<lparr>se_conn := c\<rparr>"
  have "on_worker K lg i (put_proxy i p w)" "se_wait ?s \<noteq> nullptr" using assms c(3) gives by (simp_all add: new_session_def)
  from session_read_ok [OF this, of g bufflen h] c(4) obtain w1 where
    "session_read K g bufflen h ?s (put_proxy i p w) = Some (Inr (?s\<lparr>se_pc := S_read\<rparr>, w1))" "asked_for lg i (recv_request bufflen (se_ends ?s)) w w1"
    by (auto simp: asked_for_def)
  then show ?thesis using c(1,2,5)
    by (intro exI [of _ "?s\<lparr>se_pc := S_read\<rparr>"] exI [of _ w1]) (simp add: session_resume_def se_ends_def new_session_def)
qed

text \<open>C13: the echo session. It begins with a read into its buffer, through a slot for registered files if one is free. However the
  rest of the program runs in between, every read of \<open>n\<close> bytes is answered by one write of the first \<open>n\<close> bytes of the same
  buffer to the same socket, every written message by the next read, and the first end of file or error by closing the
  original socket, even if a write was short: what a short write leaves is not sent. Every life of a session can go on.\<close>

theorem session_echoes:
  fixes w :: "('k, 'z) ioworld_scheme"
  assumes "on_worker K lg i w" and "pl_wait pl \<noteq> nullptr"
  shows "\<exists>s w1. session_resume ndebug K g bufflen h (new_session fd pl) w = Some (Inr (s, w1)) \<and> m_original_fd (se_conn s) = fd \<and>
    se_buf s = pl_buf pl \<and> (que (m_fds (m_upxy (engines w i))) = [] \<longrightarrow> m_sockfd (se_conn s) = fd) \<and>
    asked_for lg i (recv_request bufflen (se_ends s)) w w1 \<and>
    (\<forall>(tr :: ('k, 'z) ioworld_scheme life) s' nms rs. lives (session_resume ndebug K g bufflen h) (session_fit ndebug K lg i) s tr s' \<and>
      map fst tr = exchanges nms @ rs \<and> is_talk nms rs \<longrightarrow>
        se_pc s' = S_close \<and> list_all2 (\<lambda>(r, v, v') q. asked_for lg i q v v') tr (replies bufflen (se_ends s) nms rs)) \<and>
    (\<forall>(tr :: ('k, 'z) ioworld_scheme life) s' r v. lives (session_resume ndebug K g bufflen h) (session_fit ndebug K lg i) s tr s' \<and> session_fit ndebug K lg i s' r v \<longrightarrow>
      (\<exists>v' s''. lives (session_resume ndebug K g bufflen h) (session_fit ndebug K lg i) s (tr @ [(r, v, v')]) s''))"
proof -
  from session_begins [OF assms, of ndebug g bufflen h fd] obtain s w1 where
    s: "session_resume ndebug K g bufflen h (new_session fd pl) w = Some (Inr (s, w1))" "se_pc s = S_read"
      "asked_for lg i (recv_request bufflen (se_ends s)) w w1" "m_original_fd (se_conn s) = fd" "se_buf s = pl_buf pl"
      "if que (m_fds (m_upxy (engines w i))) = [] then m_sockfd (se_conn s) = fd \<and> c_sqe_flag (se_conn s) = 0
       else 0 \<le> m_sockfd (se_conn s) \<and> m_sockfd (se_conn s) < 8 \<and> c_sqe_flag (se_conn s) = IOSQE_FIXED_FILE" by blast
  have "se_pc s' = S_close \<and> list_all2 (\<lambda>(r, v, v') q. asked_for lg i q v v') tr (replies bufflen (se_ends s) nms rs)"
    if "lives (session_resume ndebug K g bufflen h) (session_fit ndebug K lg i) s tr s'" "map fst tr = exchanges nms @ rs" "is_talk nms rs"
    for tr :: "('k, 'z) ioworld_scheme life" and s' nms rs
    using echo.life_obeys [OF that(1)] session_talk [OF that(3)] by (simp add: that(2) s(2))
  moreover have "que (m_fds (m_upxy (engines w i))) = [] \<longrightarrow> m_sockfd (se_conn s) = fd" using s(6) by simp
  ultimately show ?thesis using s(1,3,4,5) echo.life_goes_on by (intro exI [of _ s] exI [of _ w1]) blast
qed

text \<open>A client sends ten bytes and closes; three of the ten are sent back.\<close>

definition sample_places :: places where
  "sample_places = \<lparr>pl_frame = 8, pl_task = 9, pl_buf = 1000, pl_wait = 40\<rparr>"

lemma session_keeps_connection:
  assumes "session_resume ndebug K g bufflen h s v = Some (Inr (s', v'))" and "delivered (se_wait s) r v" and "0 < r"
    and "se_pc s \<in> {S_read, S_write}"
  shows "se_conn s' = se_conn s \<and> se_wait s' = se_wait s \<and> se_pc s' \<in> {S_read, S_write}"
proof -
  let ?v = "v\<lparr>infos := (infos v)(se_wait s := None)\<rparr>"
  have "session_write K g r h s ?v = Some (Inr (s', v')) \<or> session_read K g bufflen h s ?v = Some (Inr (s', v'))"
    using assms by (auto simp: session_resume_def)
  then show ?thesis by (auto simp: session_write_def session_read_def bindO_eq_Inr)
qed

abbreviation echo_world :: "int \<Rightarrow> (nat \<times> sqe_prep list, nat, coroutine) pworld" where
  "echo_world r \<equiv> tape_world_with r"

theorem session_echoes_witness:
  "\<exists>s v1 v2 v3 s'. lives (session_128 False tape_kernel garbage_info 8) (session_fit False tape_kernel snd 0) s
      [(10, echo_world 10, v1), (3, echo_world 3, v2), (0, echo_world 0, v3)] s' \<and>
    se_pc s' = S_close \<and> asked_for snd 0 (send_request 10 (se_ends s)) (echo_world 10) v1 \<and>
    asked_for snd 0 (recv_request 144 (se_ends s)) (echo_world 3) v2 \<and> asked_for snd 0 (close_request (se_ends s)) (echo_world 0) v3"
proof -
  let ?body = "session_resume False tape_kernel garbage_info 144 8" and ?fit = "session_fit False tape_kernel snd 0"
  have "pl_wait sample_places \<noteq> nullptr" by (simp add: sample_places_def)
  from session_echoes [of _ _ _ "tape_world :: (_, nat, coroutine) pworld", OF tape_worker(1) this, of False garbage_info 144 8 42] obtain s w1 where
    b: "?body (new_session 42 sample_places) (tape_world :: (_, _, coroutine) pworld) = Some (Inr (s, w1))"
    and life: "\<forall>(tr :: (nat \<times> sqe_prep list, nat, coroutine) pworld life) s' nms rs. lives ?body ?fit s tr s' \<and> map fst tr = exchanges nms @ rs \<and> is_talk nms rs \<longrightarrow>
        se_pc s' = S_close \<and> list_all2 (\<lambda>(r, v, v') q. asked_for snd 0 q v v') tr (replies 144 (se_ends s) nms rs)"
    by (elim exE conjE)
  have s: "se_pc s = S_read" "se_wait s = 40" "c_fixed_fd (se_conn s) = invalid_item"
    using b by (auto simp: session_resume_def new_session_def session_read_def sample_places_def tape_connector bindO_eq_Inr)
  then have fit: "?fit s 10 (echo_world 10)" by (simp add: session_fit_def)
  from session_obeys [OF this] obtain s1 v1 where 1: "?body s (echo_world 10) = Some (Inr (s1, v1))" by blast
  from session_keeps_connection [OF 1, of 10] s have s1: "c_fixed_fd (se_conn s1) = invalid_item" "se_wait s1 = 40" "se_pc s1 \<in> {S_read, S_write}" by auto
  then have fit1: "?fit s1 3 (echo_world 3)" by (auto simp: session_fit_def)
  from session_obeys [OF this] obtain s2 v2 where 2: "?body s1 (echo_world 3) = Some (Inr (s2, v2))" by blast
  from session_keeps_connection [OF 2, of 3] s1 have s2: "c_fixed_fd (se_conn s2) = invalid_item" "se_wait s2 = 40" "se_pc s2 \<in> {S_read, S_write}" by auto
  then have fit2: "?fit s2 0 (echo_world 0)" by (auto simp: session_fit_def)
  from session_obeys [OF this] obtain s3 v3 where 3: "?body s2 (echo_world 0) = Some (Inr (s3, v3))" by blast
  let ?tr = "[(10 :: int, echo_world 10, v1), (3, echo_world 3, v2), (0, echo_world 0, v3)]"
  note step = lives.resumed [where body = ?body and fit = ?fit]
  have l: "lives ?body ?fit s ?tr s3" by (rule step [OF fit 1 step [OF fit1 2 step [OF fit2 3 lives.waits]]])
  have "map fst ?tr = exchanges [(10, 3)] @ [0]" "is_talk [(10, 3)] [0]" by (simp_all add: exchanges_def is_talk_def)
  with life [rule_format, of ?tr s3 "[(10, 3)]" "[0]"] l have "se_pc s3 = S_close \<and> list_all2 (\<lambda>(r, v, v') q. asked_for snd 0 q v v') ?tr (replies 144 (se_ends s) [(10, 3)] [0])" by blast
  then have "se_pc s3 = S_close \<and> asked_for snd 0 (send_request 10 (se_ends s)) (echo_world 10) v1 \<and>
      asked_for snd 0 (recv_request 144 (se_ends s)) (echo_world 3) v2 \<and> asked_for snd 0 (close_request (se_ends s)) (echo_world 0) v3"
    by (simp add: replies_def)
  with l show ?thesis
    by (intro exI [of _ s] exI [of _ v1] exI [of _ v2] exI [of _ v3] exI [of _ s3]) (simp add: session_128_def)
qed

section \<open>The protocol of the server\<close>

text \<open>Allocation gives a frame address that is not null and not in use.\<close>

definition alloc_fresh :: "(('k, 'z) eworld_scheme \<Rightarrow> places) \<Rightarrow> ('k, 'z) eworld_scheme \<Rightarrow> bool" where
  "alloc_fresh alloc w \<longleftrightarrow> pl_frame (alloc w) \<noteq> nullptr \<and> w_frames w (pl_frame (alloc w)) = None"

definition sv_ends :: "server \<Rightarrow> int \<times> nat \<times> addr" where
  "sv_ends s = (m_listenfd (sv_server s), s_sqe_flag (sv_server s), sv_wait s)"

fun accept_request :: "int \<times> nat \<times> addr \<Rightarrow> sqe_prep list" where
  "accept_request (sock, flag, a) = [Set_flags (int flag), Prep_accept sock 0, Set_data a]"

text \<open>The next accept, and the descriptor for which a session is started.\<close>

definition server_follow where
  "server_follow p r =
     (case p of (pc, e) \<Rightarrow> if 0 < r then ((V_accept, e), (accept_request e, Some r)) else ((V_end, e), ([], None :: int option)))"

text \<open>A session for \<open>fd\<close> was started: its frame is new, its coroutine detached and queued at the context whose turn it was.\<close>

definition started :: "int \<Rightarrow> ('k, 'n, coroutine, 'z) pworld_scheme \<Rightarrow> ('k, 'n, coroutine, 'z) pworld_scheme \<Rightarrow> bool" where
  "started fd v v' \<longleftrightarrow> (\<exists>pl. w_frames v (pl_frame pl) = None \<and> bodies v' = (bodies v)(pl_frame pl \<mapsto> Session (new_session fd pl)) \<and>
     w_frames v' = (w_frames v)(pl_frame pl \<mapsto> set_state cs_detach new_frame) \<and>
     queued (turn_of v) v' = queued (turn_of v) v @ [pl_frame pl] \<and> (\<forall>c. c \<noteq> turn_of v \<longrightarrow> queued c v' = queued c v) \<and>
     m_cur (m_dispatcher (sched v')) = m_cur (m_dispatcher (sched v)) + 1)"

definition server_made where
  "server_made lg i q v v' \<longleftrightarrow> asked_for lg i (fst q) v v' \<and>
     (case snd q of None \<Rightarrow> bodies v' = bodies v \<and> (\<forall>c. queued c v' = queued c v) | Some fd \<Rightarrow> started fd v v')"

definition server_fit where
  "server_fit K cnt lg i alloc s r v \<longleftrightarrow> on_worker K lg i v \<and> delivered (sv_wait s) r v \<and> holds_slot i (s_fixed_fd (sv_server s)) v \<and>
     sv_pc s = V_accept \<and>
     (0 < r \<longrightarrow> taking K cnt v \<and> 0 < context_room cnt (turn_of v) v \<and> alloc_fresh alloc (v\<lparr>infos := (infos v)(sv_wait s := None)\<rparr>))"

lemma server_await_ok:
  assumes "on_worker K lg i w" and "sv_wait s \<noteq> nullptr"
  shows "\<exists>w'. server_await K g h s w = Some (Inr (s\<lparr>sv_pc := V_accept\<rparr>, w')) \<and> asked_for lg i (accept_request (sv_ends s)) w w' \<and>
    bodies w' = bodies w \<and> w_frames w' = w_frames w \<and> sched w' = sched w \<and> (\<forall>c. queued c w' = queued c w)"
proof -
  have "server_accept K g (sv_server s) 0 (sv_wait s) w =
      io_request K g Io_tcp_accept Accept_cb (\<lambda>d. d) (accept_request (sv_ends s)) (sv_wait s) w"
    by (simp add: server_accept_def tcp_accept_awaiter_def sv_ends_def ioinfo_to_ptr_def)
  from co_await_request [where op = "server_accept K g (sv_server s) 0", OF assms this, of h] show ?thesis
    by (auto simp: server_await_def asked_for_def ring_def put_info_def put_engine_def)
qed

lemma server_obeys:
  assumes "server_fit K cnt lg i alloc s r v"
  shows "\<exists>s' v'. server_resume ndebug N K g alloc resume h s v = Some (Inr (s', v')) \<and>
    (sv_pc s', sv_ends s') = fst (server_follow (sv_pc s, sv_ends s) r) \<and> server_made lg i (snd (server_follow (sv_pc s, sv_ends s) r)) v v'"
proof -
  let ?v = "v\<lparr>infos := (infos v)(sv_wait s := None)\<rparr>"
  have on: "on_worker K lg i ?v" and a: "sv_wait s \<noteq> nullptr" and slot: "holds_slot i (s_fixed_fd (sv_server s)) ?v" and pc: "sv_pc s = V_accept"
    and val: "io_value (sv_wait s) v = Inr (r, ?v)"
    using assms by (simp_all add: server_fit_def delivered_def [of "sv_wait s"])
  have ends: "sv_ends (s\<lparr>sv_pc := x\<rparr>) = sv_ends s" for x by (simp add: sv_ends_def)
  show ?thesis
  proof (cases "0 < r")
    case True
    let ?pl = "alloc ?v"
    have pl: "pl_frame ?pl \<noteq> nullptr" "w_frames v (pl_frame ?pl) = None" using assms True by (simp_all add: server_fit_def alloc_fresh_def)
    have room: "context_room cnt c ?v = context_room cnt c v" for c by (simp add: context_room_def efd_count_def)
    have take: "taking K cnt ?v" "turn_of ?v = turn_of v" "0 < context_room cnt (turn_of v) ?v"
      using assms True room by (simp_all add: server_fit_def taking_def contexts_ok_def efd_open_def turn_of_def)
    have log: "ring_log_doc K lg" using on by (rule on_workerD)
    from spawn_ok [OF take(1) take(2) [symmetric] take(3) pl(1), of resume "Session (new_session r ?pl)"] obtain w1 where
      w1: "spawn K resume ?pl (Session (new_session r ?pl)) ?v = Inr w1" "queued (turn_of v) w1 = queued (turn_of v) ?v @ [pl_frame ?pl]"
        "\<forall>e. e \<noteq> turn_of v \<longrightarrow> queued e w1 = queued e ?v" "bodies w1 = (bodies ?v)(pl_frame ?pl \<mapsto> Session (new_session r ?pl))"
        "w_frames w1 = (w_frames ?v)(pl_frame ?pl \<mapsto> set_state cs_detach new_frame)" "linfo_egn w1 = linfo_egn ?v"
        "m_cur (m_dispatcher (sched w1)) = m_cur (m_dispatcher (sched ?v)) + 1"
      and ring1: "lg (ring i w1) = lg (ring i ?v)" "gives_entry K (ring i w1) = gives_entry K (ring i ?v)" "m_fds (m_upxy (engines w1 i)) = m_fds (m_upxy (engines ?v i))"
        "m_null_fds (m_upxy (engines w1 i)) = m_null_fds (m_upxy (engines ?v i))" using log by blast
    have "on_worker K lg i w1" by (rule on_worker_cong [OF on w1(6) ring1(2-4)])
    from server_await_ok [OF this a, of g h] obtain w2 where
      w2: "server_await K g h s w1 = Some (Inr (s\<lparr>sv_pc := V_accept\<rparr>, w2))" "asked_for lg i (accept_request (sv_ends s)) w1 w2"
        "bodies w2 = bodies w1" "w_frames w2 = w_frames w1" "sched w2 = sched w1" "\<forall>c. queued c w2 = queued c w1" by blast
    have "started r v w2" unfolding started_def using w1 w2(3-6) pl(2) by (intro exI [of _ ?pl]) simp
    moreover have "asked_for lg i (accept_request (sv_ends s)) v w2" using w2(2) ring1(1) by (simp add: asked_for_def ring_def)
    ultimately show ?thesis using True pc val w1(1) w2(1)
      by (intro exI [of _ "s\<lparr>sv_pc := V_accept\<rparr>"] exI [of _ w2]) (simp add: server_resume_def server_follow_def server_made_def ends)
  next
    case False
    from local_return_back_ok [OF on_workerD(1) [OF on] slot] obtain p where
      p: "server_dtor K (sv_server s) ?v = Inr (put_proxy i p ?v)" "lg (m_uring p) = lg (ring i ?v)" by (auto simp: server_dtor_def)
    let ?w = "co_return_void h (put_proxy i p ?v)"
    have "lg (ring i ?w) = lg (ring i v)" "bodies ?w = bodies v" "\<forall>c. queued c ?w = queued c v"
      using p(2) by (simp_all add: co_return_void_def ring_def put_proxy_def put_engine_def)
    then show ?thesis using False pc val p(1)
      by (intro exI [of _ "s\<lparr>sv_pc := V_end\<rparr>"] exI [of _ ?w])
        (simp add: server_resume_def server_follow_def server_made_def asked_for_def ends)
  qed
qed

interpretation accept: io_coroutine "server_resume ndebug N K g alloc resume h" "server_fit K cnt lg i alloc" "\<lambda>s. (sv_pc s, sv_ends s)"
  server_follow "server_made lg i"
  by unfold_locales (rule server_obeys)

lemma server_serves:
  "\<forall>fd \<in> set fds. 0 < fd \<Longrightarrow>
   protocol server_follow (V_accept, e) fds = map (\<lambda>fd. (accept_request e, Some fd)) fds \<and> finally_at server_follow (V_accept, e) fds = (V_accept, e)"
  by (induction fds) (simp_all add: server_follow_def)

text \<open>C14: the server. However the rest of the program runs in between, every accepted connection starts exactly one session, for its
  descriptor and with a frame of its own, on the context whose turn it is, and is followed by the next accept; the first result
  that is not positive ends the loop with no further request. Every life of the server can go on.\<close>

theorem server_one_session_each:
  fixes tr :: "('k, 'n, coroutine, 'z) pworld_scheme life"
  assumes "lives (server_resume ndebug N K g alloc resume h) (server_fit K cnt lg i alloc) s tr s'" and "sv_pc s = V_accept"
  shows "(\<forall>fds. map fst tr = fds \<and> (\<forall>fd \<in> set fds. 0 < fd) \<longrightarrow>
      sv_pc s' = V_accept \<and> list_all2 (\<lambda>(r, v, v') fd. started fd v v' \<and> asked_for lg i (accept_request (sv_ends s)) v v') tr fds) \<and>
    (\<forall>fds r. map fst tr = fds @ [r] \<and> (\<forall>fd \<in> set fds. 0 < fd) \<and> r \<le> 0 \<longrightarrow>
      sv_pc s' = V_end \<and> list_all2 (\<lambda>(r, v, v') q. server_made lg i q v v') tr
        (map (\<lambda>fd. (accept_request (sv_ends s), Some fd)) fds @ [([], None)])) \<and>
    (\<forall>r v. server_fit K cnt lg i alloc s' r v \<longrightarrow>
      (\<exists>v' s''. lives (server_resume ndebug N K g alloc resume h) (server_fit K cnt lg i alloc) s (tr @ [(r, v, v')]) s''))"
proof -
  note ob = accept.life_obeys [OF assms(1), unfolded assms(2)]
  have "sv_pc s' = V_accept \<and> list_all2 (\<lambda>(r, v, v') fd. started fd v v' \<and> asked_for lg i (accept_request (sv_ends s)) v v') tr fds"
    if "map fst tr = fds" "\<forall>fd \<in> set fds. 0 < fd" for fds
    using ob server_serves [OF that(2), of "sv_ends s"] by (auto simp: that(1) list_all2_map2 server_made_def elim!: list_all2_mono)
  moreover have "sv_pc s' = V_end \<and> list_all2 (\<lambda>(r, v, v') q. server_made lg i q v v') tr
        (map (\<lambda>fd. (accept_request (sv_ends s), Some fd)) fds @ [([], None)])"
    if "map fst tr = fds @ [r]" "\<forall>fd \<in> set fds. 0 < fd" "r \<le> 0" for fds r
    using ob server_serves [OF that(2), of "sv_ends s"] that(3) by (simp add: that(1) protocol_append server_follow_def)
  ultimately show ?thesis using accept.life_goes_on [OF assms(1)] by blast
qed

text \<open>Two clients, with descriptors 7 and 9, connect to a scheduler with two contexts; then accepting fails.\<close>

definition sample_server :: server where
  "sample_server = (new_server 8000 sample_places)\<lparr>sv_pc := V_accept\<rparr>"

theorem server_one_session_each_witness:
  "\<exists>v1 v2 v3 s'. lives (server_resume False sample_net tape_kernel garbage_info (\<lambda>w. sample_places) (\<lambda>h. Inr) 5)
      (server_fit tape_kernel (\<lambda>fd k. fst k) snd 0 (\<lambda>w. sample_places)) sample_server
      [(7, echo_world 7, v1), (9, echo_world 9, v2), (-1, echo_world (-1), v3)] s' \<and>
    sv_pc s' = V_end \<and> started 7 (echo_world 7) v1 \<and> started 9 (echo_world 9) v2 \<and> asked_for snd 0 [] (echo_world (-1)) v3"
proof -
  let ?body = "server_resume False sample_net tape_kernel garbage_info (\<lambda>w. sample_places) (\<lambda>h. Inr) 5"
  let ?fit = "server_fit tape_kernel (\<lambda>fd k. fst k) snd 0 (\<lambda>w. sample_places)"
  have fits: "?fit s r (echo_world r)" if "sv_pc s = V_accept" "sv_wait s = 40" "s_fixed_fd (sv_server s) = invalid_item" for s r
    using that by (simp add: server_fit_def tape_taking(1,2) [OF refl] alloc_fresh_def sample_places_def) (simp add: tape_world_with_def tape_world_def)
  have keeps: "sv_pc s1 = V_accept \<and> sv_wait s1 = 40 \<and> s_fixed_fd (sv_server s1) = invalid_item"
    if "?body s (echo_world r) = Some (Inr (s1, v1))" "sv_pc s = V_accept" "sv_wait s = 40" "s_fixed_fd (sv_server s) = invalid_item" "0 < r" for s s1 v1 r
  proof -
    have "\<exists>w. server_await tape_kernel garbage_info 5 s w = Some (Inr (s1, v1))"
      using that by (simp add: server_resume_def io_value_delivered [OF tape_delivered]) (auto simp: bindO_eq_Inr)
    then show ?thesis using that by (auto simp: server_await_def bindO_eq_Inr)
  qed
  have s: "sv_pc sample_server = V_accept" "sv_wait sample_server = 40" "s_fixed_fd (sv_server sample_server) = invalid_item"
    by (simp_all add: sample_server_def new_server_def sample_places_def)
  note f1 = fits [OF s, of 7]
  from server_obeys [OF f1] obtain s1 v1 where 1: "?body sample_server (echo_world 7) = Some (Inr (s1, v1))" by blast
  note k1 = keeps [OF 1 s, simplified]
  then have f2: "?fit s1 9 (echo_world 9)" by (intro fits) simp_all
  from server_obeys [OF f2] obtain s2 v2 where 2: "?body s1 (echo_world 9) = Some (Inr (s2, v2))" by blast
  have k2: "sv_pc s2 = V_accept \<and> sv_wait s2 = 40 \<and> s_fixed_fd (sv_server s2) = invalid_item" by (rule keeps [OF 2]) (use k1 in simp_all)
  then have f3: "?fit s2 (-1) (echo_world (-1))" by (intro fits) simp_all
  from server_obeys [OF f3] obtain s3 v3 where 3: "?body s2 (echo_world (-1)) = Some (Inr (s3, v3))" by blast
  let ?tr = "[(7 :: int, echo_world 7, v1), (9, echo_world 9, v2), (-1, echo_world (-1), v3)]"
  note step = lives.resumed [where body = ?body and fit = ?fit]
  have l: "lives ?body ?fit sample_server ?tr s3" by (rule step [OF f1 1 step [OF f2 2 step [OF f3 3 lives.waits]]])
  from server_one_session_each [OF l s(1)] have "\<forall>fds r. map fst ?tr = fds @ [r] \<and> (\<forall>fd \<in> set fds. 0 < fd) \<and> r \<le> 0 \<longrightarrow>
      sv_pc s3 = V_end \<and> list_all2 (\<lambda>(r, v, v') q. server_made snd 0 q v v') ?tr
        (map (\<lambda>fd. (accept_request (sv_ends sample_server), Some fd)) fds @ [([], None)])" by blast
  from this [rule_format, of "[7, 9]" "-1"] l show ?thesis
    by (intro exI [of _ v1] exI [of _ v2] exI [of _ v3] exI [of _ s3]) (simp add: server_made_def)
qed

section \<open>The program starts\<close>

text \<open>\<^verbatim>\<open>main\<close> initialises one context per processor and enters the loop of the scheduler with exactly one task: the server for
  port 8000, not yet begun and owned by nobody but the runtime, in the queue of context 0; all other queues are empty.\<close>

theorem main_starts_server:
  fixes w :: "('k, 'n, coroutine, 'z) pworld_scheme"
  assumes doc: "eventfd_new_doc K cnt" "eventfd_doc K cnt" and n: "n \<noteq> 0" "unat n < 2 ^ 31"
    and others: "\<forall>c \<ge> unat n. efd_open c w \<and> queue_inv c w" and alloc: "\<forall>w. pl_frame (alloc w) \<noteq> nullptr"
  shows "\<exists>w' pl. main_server K alloc fresh n resume workers w = scheduler_loop workers w' \<and> taking K cnt w' \<and>
    queued 0 w' = [pl_frame pl] \<and> (\<forall>c. 0 < c \<and> c < unat n \<longrightarrow> queued c w' = []) \<and>
    bodies w' (pl_frame pl) = Some (Server (new_server 8000 pl)) \<and> w_frames w' (pl_frame pl) = Some (set_state cs_detach new_frame)"
proof -
  from scheduler_init_ok [OF doc, of n 0 n fresh w] n others obtain w1 where
    w1: "scheduler_init K fresh n 0 w = Inr w1" "\<forall>c < unat n. fresh_context cnt c w1" "turn_of w1 = 0" "taking K cnt w1" by auto
  have f0: "fresh_context cnt 0 w1" using w1(2) n(1) by (simp add: unat_gt_0)
  then have room: "0 < context_room cnt 0 w1" by (simp add: fresh_context_def context_room_def eventfd_max_def del: length_aq_items)
  let ?pl = "alloc w1"
  have "pl_frame ?pl \<noteq> nullptr" using alloc by simp
  from spawn_ok [OF w1(4) w1(3) [symmetric] room this, of resume "Server (new_server 8000 ?pl)"] obtain w2 where
    w2: "spawn K resume ?pl (Server (new_server 8000 ?pl)) w1 = Inr w2" "taking K cnt w2" "queued 0 w2 = queued 0 w1 @ [pl_frame ?pl]"
      "\<forall>e. e \<noteq> 0 \<longrightarrow> queued e w2 = queued e w1" "bodies w2 = (bodies w1)(pl_frame ?pl \<mapsto> Server (new_server 8000 ?pl))"
      "w_frames w2 = (w_frames w1)(pl_frame ?pl \<mapsto> set_state cs_detach new_frame)" by blast
  have "main_server K alloc fresh n resume workers w = scheduler_loop workers w2"
    using w1(1) w2(1) by (simp add: main_server_def)
  moreover have "queued 0 w1 = []" "\<forall>c < unat n. queued c w1 = []" using f0 w1(2) by (auto simp: fresh_context_def)
  ultimately show ?thesis using w2 by (intro exI [of _ w2] exI [of _ ?pl]) auto
qed

theorem main_starts_server_witness:
  "\<exists>w' pl. main_server tape_kernel (\<lambda>w. sample_places) (\<lambda>i. ((0, []), replicate 8 0)) 4 (\<lambda>h. Inr) (\<lambda>w. w) (echo_world 0) =
      scheduler_loop (\<lambda>w. w) w' \<and>
    queued 0 w' = [pl_frame pl] \<and> queued 3 w' = [] \<and> bodies w' (pl_frame pl) = Some (Server (new_server 8000 pl))"
proof -
  have doc: "eventfd_new_doc tape_kernel (\<lambda>fd k. fst k)" "eventfd_doc tape_kernel (\<lambda>fd k. fst k)"
    by (simp_all add: eventfd_new_doc_def eventfd_doc_def tape_kernel_def)
  have ok: "contexts_ok tape_kernel (\<lambda>fd k. fst k) (echo_world 0)" using tape_taking(1) [OF refl, of 0, where ?'l = coroutine] by (simp add: taking_def)
  obtain w' pl where w': "main_server tape_kernel (\<lambda>w. sample_places) (\<lambda>i. ((0, []), replicate 8 0)) 4 (\<lambda>h. Inr) (\<lambda>w. w) (echo_world 0) =
      scheduler_loop (\<lambda>w. w) w'" "queued 0 w' = [pl_frame pl]" "\<forall>c. 0 < c \<and> c < unat (4 :: 64 word) \<longrightarrow> queued c w' = []"
      "bodies w' (pl_frame pl) = Some (Server (new_server 8000 pl))"
    using main_starts_server [OF doc, of 4 "echo_world 0" "\<lambda>w. sample_places" "\<lambda>i. ((0, []), replicate 8 0)" "\<lambda>h. Inr" "\<lambda>w. w"] ok
    by (auto simp: contexts_ok_def sample_places_def)
  have "queued 3 w' = []" using w'(3) by simp
  with w' show ?thesis by (intro exI [of _ w'] exI [of _ pl] conjI)
qed

end
