(* ===== verification/Client_Programs.thy ===== *)
theory Client_Programs
  imports Echo_Server
begin

text \<open>
  The example programs \<^verbatim>\<open>examples/stdin_client.cpp\<close> (a client that sends what it reads from the standard input and logs what it
  receives) and \<^verbatim>\<open>examples/timer.cpp\<close>, cut at their \<^verbatim>\<open>co_await\<close>s like the echo servers. The logging calls are left out.
\<close>

definition client_bufflen :: "64 word" where "client_bufflen = 10240"

section \<open>Sending the standard input\<close>

datatype typist_pc = T_begin | T_stdin | T_write

record typist =
  ty_pc :: typist_pc
  ty_fd :: int
  ty_conn :: tcp_connector
  ty_buf :: addr
  ty_wait :: addr

text \<open>A call of \<^verbatim>\<open>echo(sockfd)\<close>.\<close>

definition new_typist :: "int \<Rightarrow> places \<Rightarrow> typist" where
  "new_typist fd pl = \<lparr>ty_pc = T_begin, ty_fd = fd, ty_conn = no_connector, ty_buf = pl_buf pl, ty_wait = pl_wait pl\<rparr>"

definition typist_read where
  "typist_read K g h s w =
     bindO (co_await_io (stdin_awaiter K g (ty_buf s) client_bufflen 0 0) (ty_wait s) h w) (\<lambda>w1. Some (Inr (s\<lparr>ty_pc := T_stdin\<rparr>, w1)))"

definition typist_write where
  "typist_write K g ret h s w =
     bindO (co_await_io (connector_write K g (ty_conn s) (ty_buf s) (word_of_int ret) 0) (ty_wait s) h w) (\<lambda>w1. Some (Inr (s\<lparr>ty_pc := T_write\<rparr>, w1)))"

definition typist_resume where
  "typist_resume K g h s w =
     (case ty_pc s of
        T_begin \<Rightarrow> bindO (Some (new_tcp_connector K (ty_fd s) w)) (\<lambda>(c, w1). typist_read K g h (s\<lparr>ty_conn := c\<rparr>) w1)
      | T_stdin \<Rightarrow> bindO (Some (io_value (ty_wait s) w)) (\<lambda>(ret, w1). typist_write K g ret h s w1)
      | T_write \<Rightarrow> bindO (Some (io_value (ty_wait s) w)) (\<lambda>(ret, w1). typist_read K g h s w1))"

section \<open>The client\<close>

datatype client_pc = K_begin | K_connect | K_read | K_close | K_end

record client =
  cl_pc :: client_pc
  cl_addr :: string
  cl_port :: int
  cl_client :: tcp_client
  cl_conn :: tcp_connector
  cl_buf :: addr
  cl_wait :: addr

datatype client_coroutine = Typist typist | Client client

definition new_client :: "string \<Rightarrow> int \<Rightarrow> places \<Rightarrow> client" where
  "new_client addr port pl =
     \<lparr>cl_pc = K_begin, cl_addr = addr, cl_port = port,
      cl_client = \<lparr>m_clientfd = 0, c_serveraddr = \<lparr>sin_family = 0, sin_port = 0, s_addr = 0\<rparr>\<rparr>, cl_conn = no_connector,
      cl_buf = pl_buf pl, cl_wait = pl_wait pl\<rparr>"

definition client_read where
  "client_read K g h s w =
     bindO (co_await_io (connector_read K g (cl_conn s) (cl_buf s) client_bufflen 0) (cl_wait s) h w) (\<lambda>w1. Some (Inr (s\<lparr>cl_pc := K_read\<rparr>, w1)))"

text \<open>\<open>sa\<close> is the address of the member \<^verbatim>\<open>m_serveraddr\<close>.\<close>

definition client_resume where
  "client_resume ndebug N K g sa alloc resume h s w =
     (case cl_pc s of
        K_begin \<Rightarrow> bindO (Some (new_tcp_client ndebug N (Some (cl_addr s)) (cl_port s) (net w))) (\<lambda>(c, n).
          bindO (co_await_io (client_connect K g c sa) (cl_wait s) h (w\<lparr>net := n\<rparr>)) (\<lambda>w1.
          Some (Inr (s\<lparr>cl_pc := K_connect, cl_client := c\<rparr>, w1))))
      | K_connect \<Rightarrow> bindO (Some (io_value (cl_wait s) w)) (\<lambda>(sockfd, w1).
          if \<not> ndebug \<and> \<not> sockfd > 0 then Some (Inl Assert_failed)
          else if sockfd \<le> 0 then Some (Inr (s\<lparr>cl_pc := K_end\<rparr>, co_return_void h w1))
          else
            bindO (Some (spawn K resume (alloc w1) (Typist (new_typist sockfd (alloc w1))) w1)) (\<lambda>w2.
            bindO (Some (new_tcp_connector K sockfd w2)) (\<lambda>(c, w3). client_read K g h (s\<lparr>cl_conn := c\<rparr>) w3)))
      | K_read \<Rightarrow> bindO (Some (io_value (cl_wait s) w)) (\<lambda>(ret, w1).
          if ret > 0 then client_read K g h s w1
          else
            bindO (connector_close K g (cl_conn s) (cl_wait s) w1) (\<lambda>(c, w2).
            bindO (Some (io_await_suspend (cl_wait s) h w2)) (\<lambda>w3. Some (Inr (s\<lparr>cl_pc := K_close, cl_conn := c\<rparr>, w3)))))
      | K_close \<Rightarrow> bindO (Some (io_value (cl_wait s) w)) (\<lambda>(ret, w1).
          if \<not> ndebug \<and> ret \<noteq> 0 then Some (Inl Assert_failed)
          else bindO (Some (connector_dtor K (cl_conn s) w1)) (\<lambda>w2. Some (Inr (s\<lparr>cl_pc := K_end\<rparr>, co_return_void h w2))))
      | K_end \<Rightarrow> Some (Inl Assert_failed))"

definition client_program_resume where
  "client_program_resume ndebug N K g sa alloc resume h w =
     (case bodies w h of
        None \<Rightarrow> Inl Use_after_free
      | Some (Typist s) \<Rightarrow> (case typist_resume K g h s w of
          None \<Rightarrow> Inl Blocks | Some r \<Rightarrow> bindE r (\<lambda>(s1, w1). Inr (w1\<lparr>bodies := (bodies w1)(h \<mapsto> Typist s1)\<rparr>)))
      | Some (Client s) \<Rightarrow> (case client_resume ndebug N K g sa alloc resume h s w of
          None \<Rightarrow> Inl Blocks | Some r \<Rightarrow> bindE r (\<lambda>(s1, w1). Inr (w1\<lparr>bodies := (bodies w1)(h \<mapsto> Client s1)\<rparr>))))"

definition main_client where
  "main_client K alloc fresh hardware_concurrency resume workers w =
     bindE (scheduler_init K fresh hardware_concurrency 0 w) (\<lambda>w1.
     bindE (spawn K resume (alloc w1) (Client (new_client ''localhost'' 8000 (alloc w1))) w1) (\<lambda>w2.
     scheduler_loop workers w2))"

section \<open>The timer example\<close>

datatype sleeper_pc = W_begin | W_timer | W_end

record sleeper =
  sl_pc :: sleeper_pc
  sl_wait :: addr

text \<open>\<open>sec\<close> and \<open>nsec\<close> are what \<^verbatim>\<open>timer()\<close> leaves in its uninitialised time.\<close>

definition timer_func where
  "timer_func K g sec nsec h s w =
     (case sl_pc s of
        W_begin \<Rightarrow> bindO (co_await_io (timer_co_await K g (add_seconds 2 (new_timer sec nsec 0))) (sl_wait s) h w) (\<lambda>w1.
          Some (Inr (s\<lparr>sl_pc := W_timer\<rparr>, w1)))
      | W_timer \<Rightarrow> bindO (Some (io_value (sl_wait s) w)) (\<lambda>(result, w1). Some (Inr (s\<lparr>sl_pc := W_end\<rparr>, co_return_void h w1)))
      | W_end \<Rightarrow> Some (Inl Assert_failed))"

definition main_timer where
  "main_timer K alloc fresh hardware_concurrency resume workers w =
     bindE (scheduler_init K fresh hardware_concurrency 0 w) (\<lambda>w1.
     bindE (spawn K resume (alloc w1) \<lparr>sl_pc = W_begin, sl_wait = pl_wait (alloc w1)\<rparr> w1) (\<lambda>w2.
     scheduler_loop workers w2))"


section \<open>The protocols\<close>

definition ty_ends :: "typist \<Rightarrow> conn_ends" where
  "ty_ends s = ends_of (ty_conn s) (ty_buf s) (ty_wait s)"

fun stdin_request :: "conn_ends \<Rightarrow> sqe_prep list" where
  "stdin_request (sock, flag, fd, buf, a) = [Set_flags 0, Prep_read 0 buf client_bufflen 0, Set_data a]"

definition typist_follow where
  "typist_follow p r =
     (case p of (pc, e) \<Rightarrow> if pc = T_stdin then ((T_write, e), send_request (word_of_int r) e) else ((T_stdin, e), stdin_request e))"

definition typist_fit where
  "typist_fit K lg i s r v \<longleftrightarrow> on_worker K lg i v \<and> delivered (ty_wait s) r v \<and> ty_pc s \<in> {T_stdin, T_write}"

lemma typist_read_ok:
  assumes "on_worker K lg i w" and "ty_wait s \<noteq> nullptr"
  shows "\<exists>w'. typist_read K g h s w = Some (Inr (s\<lparr>ty_pc := T_stdin\<rparr>, w')) \<and> asked_for lg i (stdin_request (ty_ends s)) w w'"
proof -
  have "stdin_awaiter K g (ty_buf s) client_bufflen 0 0 (ty_wait s) w =
      io_request K g Io_stdin Stdin_cb (\<lambda>d. d) (stdin_request (ty_ends s)) (ty_wait s) w"
    by (simp add: stdin_awaiter_def ty_ends_def ends_of_def ioinfo_to_ptr_def)
  from co_await_request [where op = "stdin_awaiter K g (ty_buf s) client_bufflen 0 0", OF assms this, of h] show ?thesis
    by (auto simp: typist_read_def asked_for_def ring_def)
qed

lemma typist_obeys:
  assumes "typist_fit K lg i s r v"
  shows "\<exists>s' v'. typist_resume K g h s v = Some (Inr (s', v')) \<and> (ty_pc s', ty_ends s') = fst (typist_follow (ty_pc s, ty_ends s) r) \<and>
    asked_for lg i (snd (typist_follow (ty_pc s, ty_ends s) r)) v v'"
proof -
  let ?v = "v\<lparr>infos := (infos v)(ty_wait s := None)\<rparr>"
  have on: "on_worker K lg i ?v" and a: "ty_wait s \<noteq> nullptr" and val: "io_value (ty_wait s) v = Inr (r, ?v)"
    using assms by (simp_all add: typist_fit_def delivered_def [of "ty_wait s"])
  have ends: "ty_ends (s\<lparr>ty_pc := x\<rparr>) = ty_ends s" for x by (simp add: ty_ends_def)
  have "ty_pc s = T_stdin \<or> ty_pc s = T_write" using assms by (simp add: typist_fit_def)
  then show ?thesis
    using typist_read_ok [OF on a, of g h] await_write_ok [OF on a, of g "ty_conn s" "ty_buf s" "word_of_int r" h] val
    by (auto simp: typist_resume_def typist_write_def typist_follow_def ends ty_ends_def [of s])
qed

interpretation typing: io_coroutine "typist_resume K g h" "typist_fit K lg i" "\<lambda>s. (ty_pc s, ty_ends s)" typist_follow "asked_for lg i"
  by unfold_locales (rule typist_obeys)

lemma typist_talk:
  "protocol typist_follow (T_stdin, e) (exchanges nms) = concat (map (\<lambda>(n, m). [send_request (word_of_int n) e, stdin_request e]) nms) \<and>
   finally_at typist_follow (T_stdin, e) (exchanges nms) = (T_stdin, e)"
  by (induction nms) (auto simp: exchanges_def typist_follow_def)

text \<open>A negative \<^verbatim>\<open>int\<close> becomes a huge \<^verbatim>\<open>size_t\<close>.\<close>

lemma negative_length:
  assumes "r < 0" and "- (2 ^ 63) \<le> r"
  shows "unat (word_of_int r :: 64 word) = 2 ^ 64 - nat (- r)"
proof -
  have "uint (word_of_int r :: 64 word) = r + 2 ^ 64"
    using assms mod_pos_pos_trivial [of "r + 2 ^ 64" "2 ^ 64"] by (simp add: uint_word_of_int)
  then show ?thesis using assms by (simp add: unat_eq_nat_uint nat_diff_distrib')
qed

text \<open>C31: the coroutine that sends the standard input never ends and ignores every error: whatever its reads and writes give,
  it answers each read by a write and each write by the next read. A failed read with the negative result \<open>n\<close> is
  sent on as a write of \<open>2 ^ 64 - |n|\<close> bytes of the buffer of 10240.\<close>

theorem stdin_echo_never_ends:
  fixes tr :: "('k, 'z) ioworld_scheme life"
  assumes "lives (typist_resume K g h) (typist_fit K lg i) s tr s'" and "ty_pc s = T_stdin" and "map fst tr = exchanges nms"
  shows "ty_pc s' = T_stdin \<and>
    list_all2 (\<lambda>(r, v, v') q. asked_for lg i q v v') tr
      (concat (map (\<lambda>(n, m). [send_request (word_of_int n) (ty_ends s), stdin_request (ty_ends s)]) nms)) \<and>
    (\<forall>(n, m) \<in> set nms. - (2 ^ 31) \<le> n \<and> n < 0 \<longrightarrow> unat (word_of_int n :: 64 word) = 2 ^ 64 - nat (- n) \<and> unat client_bufflen < 2 ^ 64 - nat (- n)) \<and>
    (\<forall>r v. typist_fit K lg i s' r v \<longrightarrow> (\<exists>v' s''. lives (typist_resume K g h) (typist_fit K lg i) s (tr @ [(r, v, v')]) s''))"
proof -
  have "ty_pc s' = T_stdin \<and> list_all2 (\<lambda>(r, v, v') q. asked_for lg i q v v') tr
      (concat (map (\<lambda>(n, m). [send_request (word_of_int n) (ty_ends s), stdin_request (ty_ends s)]) nms))"
    using typing.life_obeys [OF assms(1), unfolded assms(2,3)] typist_talk [of "ty_ends s" nms] by simp
  moreover have "unat (word_of_int n :: 64 word) = 2 ^ 64 - nat (- n) \<and> unat client_bufflen < 2 ^ 64 - nat (- n)"
    if "- (2 ^ 31) \<le> n" "n < 0" for n
    using negative_length [of n] that by (simp add: client_bufflen_def)
  ultimately show ?thesis using typing.life_goes_on [OF assms(1)] by auto
qed

theorem stdin_echo_never_ends_witness:
  "\<exists>v1 v2 s'. lives (typist_resume tape_kernel garbage_info 8) (typist_fit tape_kernel snd 0)
      ((new_typist 42 sample_places)\<lparr>ty_pc := T_stdin\<rparr>) [(-5, echo_world (-5), v1), (-9, echo_world (-9), v2)] s' \<and> ty_pc s' = T_stdin \<and>
    unat (word_of_int (-5) :: 64 word) = 2 ^ 64 - 5"
proof -
  let ?s = "(new_typist 42 sample_places)\<lparr>ty_pc := T_stdin\<rparr>"
  let ?body = "typist_resume tape_kernel garbage_info 8" and ?fit = "typist_fit tape_kernel snd 0"
  have s: "ty_pc ?s = T_stdin" "ty_wait ?s = 40" by (simp_all add: new_typist_def sample_places_def)
  then have f1: "?fit ?s (-5) (echo_world (-5))" by (simp add: typist_fit_def)
  from typist_obeys [OF f1] obtain s1 v1 where 1: "?body ?s (echo_world (-5)) = Some (Inr (s1, v1))" by blast
  have "ty_pc s1 = T_write" "ty_wait s1 = 40"
    using 1 s by (auto simp: typist_resume_def io_value_delivered [OF tape_delivered] typist_write_def bindO_eq_Inr)
  then have f2: "?fit s1 (-9) (echo_world (-9))" by (simp add: typist_fit_def)
  from typist_obeys [OF f2] obtain s2 v2 where 2: "?body s1 (echo_world (-9)) = Some (Inr (s2, v2))" by blast
  let ?tr = "[(-5 :: int, echo_world (-5), v1), (-9, echo_world (-9), v2)]"
  note step = lives.resumed [where body = ?body and fit = ?fit]
  have l: "lives ?body ?fit ?s ?tr s2" by (rule step [OF f1 1 step [OF f2 2 lives.waits]])
  have "map fst ?tr = exchanges [(-5, -9)]" by (simp add: exchanges_def)
  from stdin_echo_never_ends [OF l s(1) this] l show ?thesis
    by (intro exI [of _ v1] exI [of _ v2] exI [of _ s2]) simp
qed

section \<open>The client receives\<close>

definition cl_ends :: "client \<Rightarrow> conn_ends" where
  "cl_ends s = ends_of (cl_conn s) (cl_buf s) (cl_wait s)"

definition client_follow where
  "client_follow p r =
     (case p of (pc, e) \<Rightarrow>
        if pc = K_read \<and> r > 0 then ((K_read, e), recv_request client_bufflen e)
        else if pc = K_read then ((K_close, e), close_request e)
        else ((K_end, e), []))"

definition client_fit where
  "client_fit ndebug K lg i s r v \<longleftrightarrow> on_worker K lg i v \<and> delivered (cl_wait s) r v \<and> holds_slot i (c_fixed_fd (cl_conn s)) v \<and>
     cl_pc s \<in> {K_read, K_close} \<and> (cl_pc s = K_close \<and> \<not> ndebug \<longrightarrow> r = 0)"

lemma client_read_ok:
  assumes "on_worker K lg i w" and "cl_wait s \<noteq> nullptr"
  shows "\<exists>w'. client_read K g h s w = Some (Inr (s\<lparr>cl_pc := K_read\<rparr>, w')) \<and> asked_for lg i (recv_request client_bufflen (cl_ends s)) w w'"
  using await_read_ok [OF assms, of g "cl_conn s" "cl_buf s" client_bufflen h] by (auto simp: client_read_def cl_ends_def)

lemma client_obeys:
  assumes "client_fit ndebug K lg i s r v"
  shows "\<exists>s' v'. client_resume ndebug N K g sa alloc resume h s v = Some (Inr (s', v')) \<and>
    (cl_pc s', cl_ends s') = fst (client_follow (cl_pc s, cl_ends s) r) \<and> asked_for lg i (snd (client_follow (cl_pc s, cl_ends s) r)) v v'"
proof -
  let ?v = "v\<lparr>infos := (infos v)(cl_wait s := None)\<rparr>"
  have on: "on_worker K lg i ?v" and a: "cl_wait s \<noteq> nullptr" and slot: "holds_slot i (c_fixed_fd (cl_conn s)) ?v"
    and val: "io_value (cl_wait s) v = Inr (r, ?v)"
    using assms by (simp_all add: client_fit_def delivered_def [of "cl_wait s"])
  have ends: "cl_ends (s\<lparr>cl_pc := x\<rparr>) = cl_ends s" for x by (simp add: cl_ends_def)
  consider "cl_pc s = K_read" "0 < r" | "cl_pc s = K_read" "\<not> 0 < r" | "cl_pc s = K_close" "\<not> (\<not> ndebug \<and> r \<noteq> 0)"
    using assms by (auto simp: client_fit_def)
  then show ?thesis
  proof cases
    case 1
    then show ?thesis using client_read_ok [OF on a, of g h] val by (auto simp: client_resume_def client_follow_def ends)
  next
    case 2
    then show ?thesis using await_close_ok [OF on a slot, of g h "cl_buf s"] val by (auto simp: client_resume_def client_follow_def cl_ends_def)
  next
    case 3
    then show ?thesis using connector_ends_ok [OF on_workerD(1) [OF on] slot, of h] val by (auto simp: client_resume_def client_follow_def ends)
  qed
qed

interpretation receiving: io_coroutine "client_resume ndebug N K g sa alloc resume h" "client_fit ndebug K lg i" "\<lambda>s. (cl_pc s, cl_ends s)"
  client_follow "asked_for lg i"
  by unfold_locales (rule client_obeys)

text \<open>A connected client: the typist is started for the same socket, and the client reads.\<close>

lemma client_connected:
  assumes "on_worker K lg i v" and "delivered (cl_wait s) fd v" and "cl_pc s = K_connect" and "0 < fd"
    and "taking K cnt v" and "0 < context_room cnt (turn_of v) v" and "\<forall>w. pl_frame (alloc w) \<noteq> nullptr"
  shows "\<exists>s' v' pl. client_resume ndebug N K g sa alloc resume h s v = Some (Inr (s', v')) \<and> cl_pc s' = K_read \<and>
    m_original_fd (cl_conn s') = fd \<and> asked_for lg i (recv_request client_bufflen (cl_ends s')) v v' \<and>
    bodies v' = (bodies v)(pl_frame pl \<mapsto> Typist (new_typist fd pl)) \<and> queued (turn_of v) v' = queued (turn_of v) v @ [pl_frame pl]"
proof -
  let ?v = "v\<lparr>infos := (infos v)(cl_wait s := None)\<rparr>"
  let ?pl = "alloc ?v"
  have val: "io_value (cl_wait s) v = Inr (fd, ?v)" and a: "cl_wait s \<noteq> nullptr" using assms(2) by (simp_all add: delivered_def [of "cl_wait s"])
  have "context_room cnt c ?v = context_room cnt c v" for c by (simp add: context_room_def efd_count_def)
  then have take: "taking K cnt ?v" "turn_of v = turn_of ?v" "0 < context_room cnt (turn_of v) ?v" "pl_frame ?pl \<noteq> nullptr"
    and log: "ring_log_doc K lg"
    using assms by (simp_all add: taking_def contexts_ok_def efd_open_def turn_of_def on_workerD)
  from spawn_ok [OF take, of resume "Typist (new_typist fd ?pl)"] obtain w1 where
    w1: "spawn K resume ?pl (Typist (new_typist fd ?pl)) ?v = Inr w1" "queued (turn_of v) w1 = queued (turn_of v) ?v @ [pl_frame ?pl]"
      "bodies w1 = (bodies ?v)(pl_frame ?pl \<mapsto> Typist (new_typist fd ?pl))" "linfo_egn w1 = linfo_egn ?v"
    and ring1: "lg (ring i w1) = lg (ring i ?v)" "gives_entry K (ring i w1) = gives_entry K (ring i ?v)" "m_fds (m_upxy (engines w1 i)) = m_fds (m_upxy (engines ?v i))"
      "m_null_fds (m_upxy (engines w1 i)) = m_null_fds (m_upxy (engines ?v i))" using log by blast
  have "on_worker K lg i ?v" using assms(1) by simp
  then have on1: "on_worker K lg i w1" using w1(4) ring1(2-4) by (rule on_worker_cong)
  from new_connector_ok [OF on_workerD(1) [OF this], of fd] this obtain c p where
    c: "new_tcp_connector K fd w1 = Inr (c, put_proxy i p w1)" "m_original_fd c = fd" "proxy_inv p" "lg (m_uring p) = lg (ring i w1)"
      "gives_entry K (m_uring p)" by (auto simp: on_worker_def)
  let ?s = "s\<lparr>cl_conn := c\<rparr>"
  have op: "connector_read K g c (cl_buf s) client_bufflen 0 (cl_wait s) (put_proxy i p w1) =
      io_request K g Io_tcp_read Read_cb (\<lambda>d. d) (recv_request client_bufflen (cl_ends ?s)) (cl_wait s) (put_proxy i p w1)"
    by (simp add: connector_read_def tcp_read_awaiter_def cl_ends_def ends_of_def ioinfo_to_ptr_def)
  have "on_worker K lg i (put_proxy i p w1)" using on1 c(3,5) by simp
  from co_await_request [where op = "connector_read K g c (cl_buf s) client_bufflen 0", OF this a op, of h] obtain w2 where
    w2: "co_await_io (connector_read K g c (cl_buf s) client_bufflen 0) (cl_wait s) h (put_proxy i p w1) = Some (Inr w2)"
      "asked_for lg i (recv_request client_bufflen (cl_ends ?s)) v w2" "bodies w2 = bodies w1" "queued (turn_of v) w2 = queued (turn_of v) w1"
    using c(4) ring1(1) by (auto simp: asked_for_def ring_def put_info_def put_engine_def put_proxy_def)
  then have "client_resume ndebug N K g sa alloc resume h s v = Some (Inr (?s\<lparr>cl_pc := K_read\<rparr>, w2))"
    using assms(3,4) val w1(1) c(1) by (simp add: client_resume_def client_read_def)
  then show ?thesis using c(2) w1(2,3) w2(2,3,4)
    by (intro exI [of _ "?s\<lparr>cl_pc := K_read\<rparr>"] exI [of _ w2] exI [of _ ?pl]) (simp add: cl_ends_def)
qed

section \<open>The timer example waits\<close>

definition sleeper_follow where
  "sleeper_follow sec nsec p r =
     (case p of (pc, a) \<Rightarrow> if pc = W_begin then ((W_timer, a), [Prep_timeout (sec + 2) nsec 1 0, Set_data a]) else ((W_end, a), []))"

definition sleeper_fit where
  "sleeper_fit K lg i s r v \<longleftrightarrow> on_worker K lg i v \<and> sl_wait s \<noteq> nullptr \<and> (sl_pc s = W_begin \<or> sl_pc s = W_timer \<and> delivered (sl_wait s) r v)"

lemma sleeper_obeys:
  assumes "sleeper_fit K lg i s r v"
  shows "\<exists>s' v'. timer_func K g sec nsec h s v = Some (Inr (s', v')) \<and>
    (sl_pc s', sl_wait s') = fst (sleeper_follow sec nsec (sl_pc s, sl_wait s) r) \<and> asked_for lg i (snd (sleeper_follow sec nsec (sl_pc s, sl_wait s) r)) v v'"
proof (cases "sl_pc s = W_begin")
  case True
  let ?t = "timer_co_await K g (add_seconds 2 (new_timer sec nsec 0))"
  have "?t (sl_wait s) v = io_request K g Io_timer Timer_cb (\<lambda>d. d) [Prep_timeout (sec + 2) nsec 1 0, Set_data (sl_wait s)] (sl_wait s) v"
    by (simp add: timer_co_await_def timer_awaiter_def add_seconds_def new_timer_def ioinfo_to_ptr_def)
  from co_await_request [where op = ?t, OF _ _ this, of lg i h] assms True show ?thesis
    by (auto simp: sleeper_fit_def timer_func_def sleeper_follow_def asked_for_def ring_def)
next
  case False
  then show ?thesis using assms io_value_delivered [of "sl_wait s" r v]
    by (auto simp: sleeper_fit_def timer_func_def sleeper_follow_def asked_for_def co_return_void_def ring_def)
qed

interpretation sleeping: io_coroutine "timer_func K g sec nsec h" "sleeper_fit K lg i" "\<lambda>s. (sl_pc s, sl_wait s)"
  "sleeper_follow sec nsec" "asked_for lg i"
  by unfold_locales (rule sleeper_obeys)

end
