(* ===== verification/Completion.thy ===== *)
theory Completion
  imports Io_Awaiter
begin

text \<open>
  A completion and the worker it wakes: one \<^verbatim>\<open>poll_work\<close> of \<^verbatim>\<open>context.cpp\<close>, from the read of the eventfd through the completion queue and the
  callback of \<^verbatim>\<open>io_awaiter.cpp\<close> to the queue of ready coroutines, with everything it leaves alone.
\<close>

text \<open>The kernel has completed one request: after submitting what was waiting, the read of the eventfd reports a completion and
  exactly this one is ready.\<close>

definition kernel_completes :: "'k kernel_ops \<Rightarrow> nat \<Rightarrow> addr \<Rightarrow> int \<Rightarrow> ('k, 'z) eworld_scheme \<Rightarrow> bool" where
  "kernel_completes K i a r w \<longleftrightarrow>
     (let u = m_upxy (engines (do_io_submit K i w) i) in
      \<exists>v k. k_eventfd_read K (m_efd u) (m_uring u) = Some (0, v, k) \<and> wake_by_cqe v \<and>
        (\<forall>n>0. k_peek_batch_cqe K n k = [\<lparr>user_data = ioinfo_to_ptr a, res = r\<rparr>]))"

lemma completion_room:
  assumes "eventfd_doc K cnt" and "efd_open i w" and "k_eventfd_read K (m_efd (m_upxy (engines w i))) (m_uring (m_upxy (engines w i))) = Some (0, v, k)"
    and "length (queued i w) < queue_size i w"
    and w': "m_task_queue (engines w' i) = m_task_queue (engines w i)" "m_upxy (engines w' i) = (m_upxy (engines w i))\<lparr>m_uring := k\<rparr>"
  shows "0 < context_room cnt i w'"
proof -
  let ?u = "m_upxy (engines w i)"
  have fd: "m_efd ?u \<ge> 0" using assms(2) by (simp add: efd_open_def)
  have read: "if cnt (m_efd ?u) (m_uring ?u) = 0 then k_eventfd_read K (m_efd ?u) (m_uring ?u) = None
      else \<exists>k'. k_eventfd_read K (m_efd ?u) (m_uring ?u) = Some (0, of_nat (cnt (m_efd ?u) (m_uring ?u)), k') \<and> cnt (m_efd ?u) k' = 0"
    using assms(1) fd unfolding eventfd_doc_def by blast
  then have "cnt (m_efd ?u) k = 0" using assms(3) by (auto split: if_splits)
  then show ?thesis using assms(4) by (simp add: context_room_def efd_count_def w' eventfd_max_def)
qed

text \<open>The slots for registered files: submissions, wake-ups and completions do not touch them.\<close>

definition slots :: "nat \<Rightarrow> ('k, 'z) eworld_scheme \<Rightarrow> int marked_buffer \<times> int list" where
  "slots i w = (m_fds (m_upxy (engines w i)), m_null_fds (m_upxy (engines w i)))"

text \<open>The requests in flight and those not yet submitted.\<close>

definition io_counts :: "nat \<Rightarrow> ('k, 'z) eworld_scheme \<Rightarrow> 64 word \<times> 64 word" where
  "io_counts i w = (m_num_io_running (engines w i), m_num_io_wait_submit (engines w i))"

lemma submit_task_slots:
  assumes "submit_task K resume i h w = Inr w'" and "queue_inv i w" and "length (queued i w) < queue_size i w"
  shows "slots j w' = slots j w \<and> io_counts j w' = io_counts j w"
proof -
  obtain q where "try_push h (m_task_queue (engines w i)) = Inr (True, q)"
    using try_push_room [OF assms(2), of h] assms(3) unfolding length_aq_items by blast
  then show ?thesis using assms(1)
    by (auto simp: submit_task_def wake_up_def write_eventfd_def slots_def io_counts_def put_engine_def split: if_splits option.splits prod.splits)
qed

lemma complete_with_rest:
  fixes w :: "('k, 'z) ioworld_scheme"
  assumes "complete_with K resume a r w = Inr w'" and "a \<noteq> nullptr" "infos w a = Some x" and "linfo_ctx w = Some i"
    and ok: "contexts_ok K cnt w" "0 < context_room cnt i w" and "io_handle x \<noteq> nullptr"
  shows "context_rest w' = context_rest (put_info a (x\<lparr>io_result := r\<rparr>) w)" and "slots j w' = slots j w \<and> io_counts j w' = io_counts j w"
proof -
  let ?w = "put_info a (x\<lparr>io_result := r\<rparr>) w"
  have eq: "context_submit K resume i (io_handle x) ?w = Inr w'"
    using assms(1-4) by (simp add: complete_with_def submit_to_context_def local_context_def)
  have "contexts_ok K cnt ?w" "0 < context_room cnt i ?w" using ok by (simp_all add: contexts_cong [of ?w w])
  from context_submit_ok [OF this assms(7), of resume] eq show "context_rest w' = context_rest ?w" by simp
  have "slots j w' = slots j ?w \<and> io_counts j w' = io_counts j ?w"
    using eq ok by (intro submit_task_slots [where i = i]) (simp_all add: context_submit_def contexts_ok_def context_room_def)
  then show "slots j w' = slots j w \<and> io_counts j w' = io_counts j w" by (simp add: slots_def io_counts_def)
qed

lemma rest_put_info:
  "context_rest v = context_rest w \<Longrightarrow> context_rest (put_info a x v) = context_rest (put_info a x (w :: ('k, 'z) ioworld_scheme))"
  by (cases v; cases w) (auto simp: context_rest_def put_info_def)

lemma rest_put_engine: "context_rest (put_engine i e w) = context_rest w"
  by (simp add: context_rest_def put_engine_def)

text \<open>The poll that finds the completion: the coroutine is queued behind the ready ones and its awaiter holds the outcome.\<close>

lemma completion_polled:
  fixes w :: "('k, 'z) ioworld_scheme"
  assumes ok: "contexts_ok K cnt w" and room: "length (queued i w) < queue_size i w" and thread: "linfo_ctx w = Some i"
    and info: "a \<noteq> nullptr" "infos w a = Some x" "io_handle x \<noteq> nullptr" "io_cb x = Some cb"
    and io: "0 < unat (m_num_io_running (engines w i) + m_num_io_wait_submit (engines w i))"
      "unat (m_num_io_running (engines w i) + m_num_io_wait_submit (engines w i)) < 2 ^ 32"
    and kernel: "kernel_completes K i a r w"
  shows "\<exists>w'. poll_work K (io_callback K resume) i w = Inr w' \<and> infos w' = (infos w)(a \<mapsto> x\<lparr>io_result := io_outcome cb (io_data x) r\<rparr>) \<and>
    contexts_ok K cnt w' \<and> queued i w' = queued i w @ [io_handle x] \<and> (\<forall>d. d \<noteq> i \<longrightarrow> queued d w' = queued d w) \<and>
    context_rest w' = context_rest (put_info a (x\<lparr>io_result := io_outcome cb (io_data x) r\<rparr>) w) \<and> slots i w' = slots i w \<and>
    io_counts i w' = (m_num_io_running (engines w i) + m_num_io_wait_submit (engines w i) - 1, 0)"
proof -
  let ?w1 = "do_io_submit K i w" and ?n = "m_num_io_running (engines w i) + m_num_io_wait_submit (engines w i)" and ?r = "io_outcome cb (io_data x) r"
  have w1: "m_task_queue (engines ?w1 i) = m_task_queue (engines w i)" "m_num_io_running (engines ?w1 i) = ?n"
      "\<forall>d. d \<noteq> i \<longrightarrow> engines ?w1 d = engines w d" "m_efd (m_upxy (engines ?w1 i)) = m_efd (m_upxy (engines w i))"
      "linfo_ctx ?w1 = linfo_ctx w" "infos ?w1 = infos w" "context_rest ?w1 = context_rest w" "slots i ?w1 = slots i w"
      "m_num_io_wait_submit (engines ?w1 i) = 0"
    by (auto simp: do_io_submit_def Let_def submit_def word_gt_0 context_rest_def slots_def put_engine_def split: prod.split)
  let ?u = "m_upxy (engines ?w1 i)"
  from kernel obtain v k where
    k: "k_eventfd_read K (m_efd ?u) (m_uring ?u) = Some (0, v, k)" "wake_by_cqe v"
      "\<forall>n>0. k_peek_batch_cqe K n k = [\<lparr>user_data = ioinfo_to_ptr a, res = r\<rparr>]" by (auto simp: kernel_completes_def Let_def)
  let ?e = "(engines ?w1 i)\<lparr>m_upxy := ?u\<lparr>m_uring := k\<rparr>, m_urc := [\<lparr>user_data = ioinfo_to_ptr a, res = r\<rparr>]\<rparr>"
  let ?w2 = "put_engine i ?e ?w1"
  have "unat (ucast ?n :: 32 word) = unat ?n" using io(2) by (simp add: unsigned_ucast_eq take_bit_nat_eq_self)
  then have num: "0 < unat (ucast (m_num_io_running (engines ?w1 i)) :: 32 word)" using io(1) by (simp add: w1(2))
  have ok2: "contexts_ok K cnt ?w2" using ok w1 by (auto simp: contexts_ok_def efd_open_def)
  have room2: "0 < context_room cnt i ?w2"
    by (rule completion_room [OF _ _ k(1)]) (use ok room w1 in \<open>simp_all add: contexts_ok_def efd_open_def\<close>)
  have info2: "infos ?w2 a = Some x" "linfo_ctx ?w2 = Some i" using info thread w1 by simp_all
  from complete_with_ok [OF info(1) info2 ok2 room2 info(3), of resume ?r] obtain w3 where
    w3: "complete_with K resume a ?r ?w2 = Inr w3" "contexts_ok K cnt w3" "queued i w3 = queued i ?w2 @ [io_handle x]"
      "\<forall>d. d \<noteq> i \<longrightarrow> queued d w3 = queued d ?w2" "infos w3 = (infos ?w2)(a \<mapsto> x\<lparr>io_result := ?r\<rparr>)" by blast
  note rest = complete_with_rest [OF w3(1) info(1) info2 ok2 room2 info(3)]
  have cb: "io_callback K resume a r ?w2 = Inr w3" using w3(1) io_callback_eq [OF info(1) info2(1) info(4), of K resume r] by simp
  let ?w4 = "put_engine i ((engines w3 i)\<lparr>m_upxy := cq_advance K 1 (m_upxy (engines w3 i)), m_num_io_running := m_num_io_running (engines w3 i) - 1\<rparr>) w3"
  have "poll_work K (io_callback K resume) i w = Inr ?w4"
    using k num cb by (simp add: poll_work_def poll_submit_def Let_def wait_eventfd_def peek_batch_cqe_def handle_cqe_entry_def
        ioinfo_to_ptr_def kQueCap_def)
  moreover have "contexts_ok K cnt ?w4" using w3(2) by (auto simp: contexts_ok_def efd_open_def cq_advance_def)
  moreover have "context_rest ?w4 = context_rest (put_info a (x\<lparr>io_result := ?r\<rparr>) w)"
    using rest(1) w1(7) rest_put_info [of ?w2 w a] by (simp add: rest_put_engine)
  moreover have "slots i ?w4 = slots i w" using rest(2) [of i] w1(8) by (simp add: slots_def cq_advance_def)
  moreover have "io_counts i ?w4 = (?n - 1, 0)" using rest(2) [of i] w1(2,9) by (simp add: io_counts_def)
  ultimately show ?thesis using w3 w1 by (intro exI [of _ ?w4]) simp
qed

end
