(* ===== verification/Echo_Turn.thy ===== *)
theory Echo_Turn
  imports Echo_Server Completion
begin

text \<open>
  An echo session on its worker, turn by turn: the worker sleeps on its eventfd, the kernel completes the session's request, the poll finds
  the completion and queues the session, and the worker's next round of ready coroutines runs it until it has made its next request. The whole path is
  that of the code: eventfd, completion queue, callback, task queue, coroutine frame, connector, ring.
\<close>

section \<open>What one resumption changes\<close>

text \<open>A request was made on ring \<open>i\<close> by the awaiter at \<open>a\<close>.\<close>

definition request_made :: "nat \<Rightarrow> 'k uring_proxy \<Rightarrow> addr \<Rightarrow> io_info \<Rightarrow> ('k, 'z) ioworld_scheme \<Rightarrow> ('k, 'z) ioworld_scheme" where
  "request_made i p a x w =
     put_engine i ((engines w i)\<lparr>m_upxy := p, m_num_io_wait_submit := m_num_io_wait_submit (engines w i) + 1\<rparr>) (put_info a x w)"

definition cb_of :: "session_pc \<Rightarrow> cb_type" where
  "cb_of pc = (case pc of S_read \<Rightarrow> Read_cb | S_write \<Rightarrow> Write_cb | _ \<Rightarrow> Close_cb)"

lemma proxy_uring [simp]: "proxy_inv (p\<lparr>m_uring := k\<rparr>) = proxy_inv p"
  by (simp add: proxy_inv_def)

lemma request_made_drop: "put_info a x (w\<lparr>infos := (infos w)(a := None)\<rparr>) = put_info a x w"
  by (simp add: put_info_def)

lemma bodies_put [simp]: "bodies (put_engine i e w) = bodies w" "bodies (put_proxy i p w) = bodies w"
  by (simp_all add: put_engine_def put_proxy_def)

lemma put_proxy_inj: "put_proxy i p w = put_proxy i q w \<Longrightarrow> p = q"
proof -
  assume "put_proxy i p w = put_proxy i q w"
  then have "m_upxy (engines (put_proxy i p w) i) = m_upxy (engines (put_proxy i q w) i)" by simp
  then show "p = q" by simp
qed

lemma return_back_efd:
  assumes "local_return_back K it w = Inr (it', put_proxy i p w)" and "linfo_egn w = Some i"
  shows "m_efd p = m_efd (m_upxy (engines w i))"
proof (cases "valid it")
  case True
  then show ?thesis using assms
    by (auto simp: local_return_back_def local_engine_def fixed_fds_return_back_def back_fixed_fd_def update_register_fixed_fds_def
        split: if_splits prod.splits dest!: put_proxy_inj)
next
  case False
  then have "engines (put_proxy i p w) = engines w" using assms(1) by (simp add: local_return_back_def)
  then have "m_upxy (engines (put_proxy i p w) i) = m_upxy (engines w i)" by simp
  then show ?thesis by simp
qed

lemma fixed_fds_efd:
  "fixed_fds_ctor p = (it, p1) \<Longrightarrow> m_efd p1 = m_efd p"
  "fixed_fds_assign K it fd flag p = Inr (fd', flag', p2) \<Longrightarrow> m_efd p2 = m_efd p"
  by (auto simp: fixed_fds_ctor_def get_fixed_fd_def fixed_fds_assign_def update_register_fixed_fds_def split: prod.splits if_splits option.splits)

lemma new_connector_efd:
  assumes "new_tcp_connector K fd w = Inr (c, w')" and "linfo_egn w = Some i"
  shows "m_efd (m_upxy (engines w' i)) = m_efd (m_upxy (engines w i))"
proof -
  obtain it p1 where ctor: "fixed_fds_ctor (m_upxy (engines w i)) = (it, p1)" by (rule prod.exhaust)
  then obtain fd' flag' where "local_assign K it fd 0 (put_proxy i p1 w) = Inr (fd', flag', w')"
    using assms by (auto simp: new_tcp_connector_def local_fixed_fd_def local_engine_def)
  then have "m_efd (m_upxy (engines w' i)) = m_efd p1"
    using assms(2) fixed_fds_efd(2) by (cases "valid it") (fastforce simp: local_assign_def local_engine_def)+
  then show ?thesis using fixed_fds_efd(1) [OF ctor] by simp
qed

text \<open>Resumed at \<open>v\<close>, the session \<open>s\<close> in frame \<open>h\<close> makes the request \<open>req\<close>, waits for it as \<open>s'\<close>, and owns the slot it uses.\<close>

definition makes_request where
  "makes_request ndebug K g bufflen lg i h s v s' req \<longleftrightarrow>
     (\<exists>p x. session_resume ndebug K g bufflen h s v = Some (Inr (s', request_made i p (se_wait s') x v)) \<and>
       lg (m_uring p) = lg (ring i v) @ req \<and> proxy_inv p \<and> m_efd p = m_efd (m_upxy (engines v i)) \<and>
       io_handle x = h \<and> io_cb x = Some (cb_of (se_pc s')) \<and> se_wait s' \<noteq> nullptr \<and> se_pc s' \<in> {S_read, S_write, S_close} \<and>
       (valid (c_fixed_fd (se_conn s')) \<longrightarrow> idx (c_fixed_fd (se_conn s')) \<in> lent (m_fds p)))"

text \<open>The first resumption constructs the connector and reads.\<close>

lemma session_first:
  assumes on: "on_worker K lg i v" and a: "pl_wait pl \<noteq> nullptr"
  shows "\<exists>s'. makes_request ndebug K g bufflen lg i h (new_session fd pl) v s' (recv_request bufflen (se_ends s')) \<and>
    se_pc s' = S_read \<and> m_original_fd (se_conn s') = fd \<and> se_wait s' = pl_wait pl"
proof -
  from new_connector_ok [OF on_workerD(1) [OF on], of fd] on obtain c p where
    c: "new_tcp_connector K fd v = Inr (c, put_proxy i p v)" "m_original_fd c = fd" "proxy_inv p"
      "valid (c_fixed_fd c) \<longrightarrow> idx (c_fixed_fd c) \<in> lent (m_fds p)" "lg (m_uring p) = lg (ring i v)" and gives: "gives_entry K (m_uring p)"
    by (auto simp: on_worker_def)
  have efd: "m_efd p = m_efd (m_upxy (engines v i))" using new_connector_efd [OF c(1)] on_workerD(3) [OF on] by simp
  let ?s = "(new_session fd pl)\<lparr>se_conn := c, se_pc := S_read\<rparr>" and ?v = "put_proxy i p v"
  have rd: "connector_read K g c (pl_buf pl) bufflen 0 (pl_wait pl) ?v =
      io_request K g Io_tcp_read Read_cb (\<lambda>d. d) (recv_request bufflen (se_ends ?s)) (pl_wait pl) ?v"
    by (simp add: connector_read_def tcp_read_awaiter_def se_ends_def ends_of_def new_session_def ioinfo_to_ptr_def)
  have "on_worker K lg i ?v" using on c(3) gives by simp
  from co_await_request [OF this a, of "connector_read K g c (pl_buf pl) bufflen 0", OF rd, of h] c(5) obtain k x where
    "co_await_io (connector_read K g c (pl_buf pl) bufflen 0) (pl_wait pl) h ?v = Some (Inr (request_made i (p\<lparr>m_uring := k\<rparr>) (pl_wait pl) x v))"
    "lg k = lg (ring i v) @ recv_request bufflen (se_ends ?s)" "io_handle x = h" "io_cb x = Some Read_cb"
    by (auto simp: request_made_def put_info_def put_proxy_def put_engine_def ring_def)
  then have "makes_request ndebug K g bufflen lg i h (new_session fd pl) v ?s (recv_request bufflen (se_ends ?s))" unfolding makes_request_def
    using c efd a by (intro exI [of _ "p\<lparr>m_uring := k\<rparr>"] exI [of _ x]) (simp add: session_resume_def session_read_def new_session_def cb_of_def)
  then show ?thesis using c(2) by (intro exI [of _ ?s]) (simp add: new_session_def)
qed

lemma session_next:
  fixes s :: session
  assumes fit: "session_fit ndebug K lg i s r v" and pc: "se_pc s \<in> {S_read, S_write}"
  shows "\<exists>s'. makes_request ndebug K g bufflen lg i h s v s' (snd (session_follow bufflen (se_pc s, se_ends s) r)) \<and>
    (se_pc s', se_ends s') = fst (session_follow bufflen (se_pc s, se_ends s) r) \<and> se_wait s' = se_wait s"
proof -
  let ?a = "se_wait s" and ?c = "se_conn s" and ?e = "se_ends s" and ?p = "m_upxy (engines v i)"
  let ?v = "v\<lparr>infos := (infos v)(?a := None)\<rparr>"
  have on: "on_worker K lg i ?v" and a: "?a \<noteq> nullptr" and slot: "holds_slot i (c_fixed_fd ?c) ?v" and inv: "proxy_inv ?p"
    and val: "io_value ?a v = Inr (r, ?v)"
    using fit pc by (auto simp: session_fit_def delivered_def [of "se_wait s"] on_worker_def on_ring_def)
  have rd: "connector_read K g ?c (se_buf s) bufflen 0 ?a ?v = io_request K g Io_tcp_read Read_cb (\<lambda>d. d) (recv_request bufflen ?e) ?a ?v"
    and wr: "connector_write K g ?c (se_buf s) (word_of_int r) 0 ?a ?v = io_request K g Io_tcp_write Write_cb (\<lambda>d. d) (send_request (word_of_int r) ?e) ?a ?v"
    by (simp_all add: connector_read_def connector_write_def tcp_read_awaiter_def tcp_write_awaiter_def se_ends_def ends_of_def ioinfo_to_ptr_def)
  note made = co_await_request [OF on a, of "connector_read K g ?c (se_buf s) bufflen 0", OF rd, of h]
    co_await_request [OF on a, of "connector_write K g ?c (se_buf s) (word_of_int r) 0", OF wr, of h]
  have ends: "se_ends (s\<lparr>se_pc := q\<rparr>) = ?e" for q by (simp add: se_ends_def)
  consider "se_pc s = S_read" "0 < r" | "se_pc s = S_write" "0 < r" | "r \<le> 0" using pc by force
  then show ?thesis
  proof cases
    case 1
    from made(2) obtain k x where
      "co_await_io (connector_write K g ?c (se_buf s) (word_of_int r) 0) ?a h ?v = Some (Inr (request_made i (?p\<lparr>m_uring := k\<rparr>) ?a x v))"
      "lg k = lg (ring i v) @ send_request (word_of_int r) ?e" "io_handle x = h" "io_cb x = Some Write_cb"
      by (auto simp: request_made_def request_made_drop)
    then show ?thesis using 1 val slot inv a unfolding makes_request_def
      by (intro exI [of _ "s\<lparr>se_pc := S_write\<rparr>"] conjI exI [of _ "?p\<lparr>m_uring := k\<rparr>"] exI [of _ x])
        (simp_all add: session_resume_def session_write_def session_follow_def ends cb_of_def holds_slot_def)
  next
    case 2
    from made(1) obtain k x where
      "co_await_io (connector_read K g ?c (se_buf s) bufflen 0) ?a h ?v = Some (Inr (request_made i (?p\<lparr>m_uring := k\<rparr>) ?a x v))"
      "lg k = lg (ring i v) @ recv_request bufflen ?e" "io_handle x = h" "io_cb x = Some Read_cb"
      by (auto simp: request_made_def request_made_drop)
    then show ?thesis using 2 val slot inv a unfolding makes_request_def
      by (intro exI [of _ "s\<lparr>se_pc := S_read\<rparr>"] conjI exI [of _ "?p\<lparr>m_uring := k\<rparr>"] exI [of _ x])
        (simp_all add: session_resume_def session_read_def session_follow_def ends cb_of_def holds_slot_def)
  next
    case 3
    let ?it = "c_fixed_fd ?c"
    let ?it' = "if valid ?it then set_invalid ?it else ?it"
    from local_return_back_ok [OF on_workerD(1) [OF on] slot] on obtain p where
      p: "local_return_back K ?it ?v = Inr (?it', put_proxy i p ?v)" "proxy_inv p" "lg (m_uring p) = lg (ring i v)" "gives_entry K (m_uring p)"
      by (auto simp: on_worker_def)
    have efd: "m_efd p = m_efd ?p" using return_back_efd [OF p(1)] on_workerD(3) [OF on] by simp
    have op: "tcp_close_awaiter K g (m_original_fd ?c) ?a (put_proxy i p ?v) =
        io_request K g Io_tcp_close Close_cb (\<lambda>d. d) (close_request ?e) ?a (put_proxy i p ?v)"
      by (simp add: tcp_close_awaiter_def se_ends_def ends_of_def ioinfo_to_ptr_def)
    have "on_worker K lg i (put_proxy i p ?v)" using on p(2,4) by simp
    from co_await_request [OF this a, of "tcp_close_awaiter K g (m_original_fd ?c)", OF op, of h] p(3) obtain k x where
      x: "co_await_io (tcp_close_awaiter K g (m_original_fd ?c)) ?a h (put_proxy i p ?v) = Some (Inr (request_made i (p\<lparr>m_uring := k\<rparr>) ?a x v))"
        "lg k = lg (ring i v) @ close_request ?e" "io_handle x = h" "io_cb x = Some Close_cb"
      by (auto simp: request_made_def put_info_def put_proxy_def put_engine_def ring_def)
    have "session_close K g h s ?v = Some (Inr (s\<lparr>se_pc := S_close, se_conn := ?c\<lparr>c_fixed_fd := ?it'\<rparr>\<rparr>, request_made i (p\<lparr>m_uring := k\<rparr>) ?a x v))"
      using p(1) x(1) by (auto simp: session_close_def connector_close_def co_await_io_def bindO_eq_Inr)
    then show ?thesis using 3 pc val x p(2) efd a unfolding makes_request_def
      by (intro exI [of _ "s\<lparr>se_pc := S_close, se_conn := ?c\<lparr>c_fixed_fd := ?it'\<rparr>\<rparr>"] conjI exI [of _ "p\<lparr>m_uring := k\<rparr>"] exI [of _ x])
        (auto simp: session_resume_def session_follow_def cb_of_def se_ends_def ends_of_def valid_def set_invalid_def)
  qed
qed

text \<open>The last resumption: the connector ends and the coroutine returns.\<close>

lemma session_last:
  fixes s :: session
  assumes fit: "session_fit ndebug K lg i s r v" and pc: "se_pc s = S_close"
  shows "\<exists>p. session_resume ndebug K g bufflen h s v =
      Some (Inr (s\<lparr>se_pc := S_end\<rparr>, co_return_void h (put_proxy i p (v\<lparr>infos := (infos v)(se_wait s := None)\<rparr>)))) \<and>
    lg (m_uring p) = lg (ring i v) \<and> proxy_inv p \<and> m_efd p = m_efd (m_upxy (engines v i))"
proof -
  let ?v = "v\<lparr>infos := (infos v)(se_wait s := None)\<rparr>"
  have on: "on_ring K lg i ?v" and slot: "holds_slot i (c_fixed_fd (se_conn s)) ?v" and val: "io_value (se_wait s) v = Inr (r, ?v)"
    and r: "\<not> (\<not> ndebug \<and> r \<noteq> 0)"
    using fit pc by (auto simp: session_fit_def)
  from local_return_back_ok [OF on slot] obtain p where
    p: "local_return_back K (c_fixed_fd (se_conn s)) ?v = Inr (if valid (c_fixed_fd (se_conn s)) then set_invalid (c_fixed_fd (se_conn s)) else c_fixed_fd (se_conn s), put_proxy i p ?v)"
      "proxy_inv p" "lg (m_uring p) = lg (ring i v)" by auto
  have "m_efd p = m_efd (m_upxy (engines v i))" using return_back_efd [OF p(1)] on by (simp add: on_ring_def)
  then show ?thesis using p r val pc by (intro exI [of _ p]) (auto simp: session_resume_def connector_dtor_def)
qed

section \<open>One turn\<close>

text \<open>The worker of context \<open>i\<close> has nothing to do but the session \<open>s\<close>, which is suspended in frame \<open>h\<close> and waits for its one request.\<close>

definition session_waits :: "'k kernel_ops \<Rightarrow> (int \<Rightarrow> 'k \<Rightarrow> nat) \<Rightarrow> ('k \<Rightarrow> sqe_prep list) \<Rightarrow> nat \<Rightarrow> handle \<Rightarrow> session \<Rightarrow>
    ('k, 'n, coroutine, 'z) pworld_scheme \<Rightarrow> bool" where
  "session_waits K cnt lg i h s w \<longleftrightarrow>
     contexts_ok K cnt w \<and> on_ring K lg i w \<and> linfo_ctx w = Some i \<and> queued i w = [] \<and>
     m_num_io_running (engines w i) + m_num_io_wait_submit (engines w i) = 1 \<and>
     bodies w h = Some (Session s) \<and> se_pc s \<in> {S_read, S_write, S_close} \<and> h \<noteq> nullptr \<and> se_wait s \<noteq> nullptr \<and>
     (\<exists>f. w_frames w h = Some f \<and> \<not> f_done f \<and> is_detach f) \<and>
     (\<exists>x. infos w (se_wait s) = Some x \<and> io_handle x = h \<and> io_cb x = Some (cb_of (se_pc s))) \<and> holds_slot i (c_fixed_fd (se_conn s)) w"

lemma rest_bodies:
  fixes w w' :: "('k, 'n, 'l, 'z) pworld_scheme"
  assumes "context_rest w' = context_rest (put_info a x w)"
  shows "w_frames w' = w_frames w" "linfo_ctx w' = linfo_ctx w" "linfo_egn w' = linfo_egn w" "bodies w' = bodies w"
proof -
  have "eworld.more w' = eworld.more (put_info a x w)" using assms by (simp add: context_rest_def)
  then show "bodies w' = bodies w" by (cases w; cases w') (simp add: put_info_def)
qed (use assms in \<open>simp_all add: context_rest_def put_info_def\<close>)

text \<open>With one ready coroutine the round is its execution.\<close>

lemma process_work_one:
  assumes "queue_inv i w" and "queued i w = [h]" and "h \<noteq> nullptr"
  shows "\<exists>q. process_work resume i w = exec_task resume h (put_engine i ((engines w i)\<lparr>m_task_queue := q\<rparr>) w) \<and> aq_inv q \<and> aq_items q = []"
proof -
  have "num_task_schedule i w = 1" using was_size_count(2) [OF assms(1)] assms(2) length_aq_items [of "m_task_queue (engines w i)"]
    by (simp add: num_task_schedule_def)
  moreover from schedule_head [OF assms(1,2,3)] obtain q where
    "schedule i w = Inr (h, put_engine i ((engines w i)\<lparr>m_task_queue := q\<rparr>) w)" "aq_inv q" "aq_items q = []" by blast
  moreover have "bindE m (forE [] f) = m" for f and m :: "('a, 'b) cworld_scheme result" by (cases m) simp_all
  ultimately show ?thesis by (intro exI [of _ q]) (simp add: process_work_def exec_one_task_def)
qed

text \<open>The poll brings the session to the state in which its body may be resumed, provided the ring has an entry for its next request.\<close>

lemma session_polled:
  assumes waits: "session_waits K cnt lg i h s w" and kernel: "kernel_completes K i (se_wait s) r w"
    and closing: "se_pc s = S_close \<and> \<not> ndebug \<longrightarrow> r = 0"
  shows "\<exists>w1. poll_work K (io_callback K resume) i w = Inr w1 \<and> queued i w1 = [h] \<and> contexts_ok K cnt w1 \<and>
    ((se_pc s \<noteq> S_close \<longrightarrow> sqe_free K i w1) \<longrightarrow> session_fit ndebug K lg i s r w1) \<and> bodies w1 = bodies w \<and> w_frames w1 = w_frames w \<and>
    linfo_ctx w1 = Some i \<and> io_counts i w1 = (0, 0)"
proof -
  from waits obtain x where
    x: "infos w (se_wait s) = Some x" "io_handle x = h" "io_cb x = Some (cb_of (se_pc s))" by (auto simp: session_waits_def)
  have ok: "contexts_ok K cnt w" and q: "queued i w = []" and c: "linfo_ctx w = Some i" and h: "h \<noteq> nullptr" "se_wait s \<noteq> nullptr"
    and n: "m_num_io_running (engines w i) + m_num_io_wait_submit (engines w i) = 1" using waits by (auto simp: session_waits_def)
  have room: "length (queued i w) < queue_size i w" using ok q aq_sizes(2) [of "m_task_queue (engines w i)"] by (simp add: contexts_ok_def)
  have out: "io_outcome (cb_of (se_pc s)) (io_data x) r = r" by (simp add: io_outcome_def cb_of_def split: session_pc.split)
  from completion_polled [OF ok room c h(2) x(1) _ x(3) _ _ kernel, of resume] x(2) h(1) n q out obtain w1 where
    w1: "poll_work K (io_callback K resume) i w = Inr w1" "infos w1 = (infos w)(se_wait s \<mapsto> x\<lparr>io_result := r\<rparr>)" "contexts_ok K cnt w1"
      "queued i w1 = [h]" "context_rest w1 = context_rest (put_info (se_wait s) (x\<lparr>io_result := r\<rparr>) w)" "slots i w1 = slots i w"
      "io_counts i w1 = (0, 0)" by auto
  note rest = rest_bodies [OF w1(5)]
  have "(se_pc s \<noteq> S_close \<longrightarrow> sqe_free K i w1) \<longrightarrow> session_fit ndebug K lg i s r w1"
    using waits w1(2,6) rest(3) closing h(2)
    by (auto simp: session_fit_def session_waits_def on_ring_def delivered_def holds_slot_def slots_def proxy_inv_def)
  then show ?thesis using w1 rest c by (intro exI [of _ w1]) simp
qed

lemma contexts_ok_engine:
  assumes "contexts_ok K cnt w" and "\<forall>d. d \<noteq> i \<longrightarrow> engines w' d = engines w d"
    and "m_efd (m_upxy (engines w' i)) = m_efd (m_upxy (engines w i))" and "queue_inv i w'"
  shows "contexts_ok K cnt w'"
proof -
  have "efd_open d w' \<and> queue_inv d w'" for d using assms by (cases "d = i") (auto simp: contexts_ok_def efd_open_def)
  then show ?thesis using assms(1) by (simp add: contexts_ok_def)
qed

text \<open>Running the ready session until it has made its next request leaves it waiting.\<close>

lemma session_suspends:
  fixes w :: "('k, 'n, coroutine, 'z) pworld_scheme"
  assumes ready: "queue_inv i w" "queued i w = [h]" "h \<noteq> nullptr" and b: "bodies w h = Some (Session s)"
    and f: "w_frames w h = Some f" "\<not> f_done f" "is_detach f"
    and w: "contexts_ok K cnt w" "on_ring K lg i w" "linfo_ctx w = Some i" "io_counts i w = (0, 0)"
    and next_request: "\<And>q. \<exists>s'. makes_request ndebug K g bufflen lg i h s (put_engine i ((engines w i)\<lparr>m_task_queue := q\<rparr>) w) s' (R s') \<and> P s'"
  shows "\<exists>w' s'. process_work (echo_resume ndebug N K g alloc bufflen resume) i w = Inr w' \<and> session_waits K cnt lg i h s' w' \<and> P s' \<and>
    asked_for lg i (R s') w w'"
proof -
  let ?body = "echo_resume ndebug N K g alloc bufflen resume"
  from process_work_one [OF ready, of ?body] obtain q where
    q: "process_work ?body i w = exec_task ?body h (put_engine i ((engines w i)\<lparr>m_task_queue := q\<rparr>) w)" "aq_inv q" "aq_items q = []" by blast
  let ?v = "put_engine i ((engines w i)\<lparr>m_task_queue := q\<rparr>) w"
  from next_request [of q] obtain s' p x where
    n: "session_resume ndebug K g bufflen h s ?v = Some (Inr (s', request_made i p (se_wait s') x ?v))" "P s'" "se_wait s' \<noteq> nullptr"
      "se_pc s' \<in> {S_read, S_write, S_close}" "lg (m_uring p) = lg (ring i ?v) @ R s'" "proxy_inv p" "m_efd p = m_efd (m_upxy (engines ?v i))"
      "io_handle x = h" "io_cb x = Some (cb_of (se_pc s'))" "valid (c_fixed_fd (se_conn s')) \<longrightarrow> idx (c_fixed_fd (se_conn s')) \<in> lent (m_fds p)"
    unfolding makes_request_def by blast
  let ?u = "request_made i p (se_wait s') x ?v"
  let ?w = "?u\<lparr>bodies := (bodies ?u)(h \<mapsto> Session s')\<rparr>"
  have "bodies ?v h = Some (Session s)" and fr: "w_frames ?w = w_frames w" using b by (simp_all add: request_made_def)
  then have "?body h ?v = Inr ?w" using n(1) by (simp add: echo_resume_def)
  then have run: "process_work ?body i w = Inr ?w" using q(1) f ready(3) fr by (simp add: exec_task_def is_done_def)
  have e: "engines ?w i = (engines w i)\<lparr>m_task_queue := q, m_upxy := p, m_num_io_wait_submit := m_num_io_wait_submit (engines w i) + 1\<rparr>"
    by (simp add: request_made_def)
  have "contexts_ok K cnt ?w" using q(2) n(7) by (intro contexts_ok_engine [OF w(1), of i]) (simp_all add: request_made_def)
  moreover have "on_ring K lg i ?w" using w(2) n(6) e by (simp add: on_ring_def request_made_def)
  ultimately have "session_waits K cnt lg i h s' ?w"
    using q(3) w(3,4) n(3,4,8-) e ready(3) f fr by (simp add: session_waits_def io_counts_def holds_slot_def request_made_def)
  moreover have "asked_for lg i (R s') w ?w" using n(5) e by (simp add: asked_for_def ring_def)
  ultimately show ?thesis using run n(2) by blast
qed

lemma session_turn:
  assumes waits: "session_waits K cnt lg i h s w" and kernel: "kernel_completes K i (se_wait s) r w" and pc: "se_pc s \<in> {S_read, S_write}"
  shows "\<exists>w1. poll_work K (io_callback K resume) i w = Inr w1 \<and> (sqe_free K i w1 \<longrightarrow> (\<exists>w2 s'.
    process_work (echo_resume ndebug N K g alloc bufflen resume) i w1 = Inr w2 \<and> session_waits K cnt lg i h s' w2 \<and> se_wait s' = se_wait s \<and>
    (se_pc s', se_ends s') = fst (session_follow bufflen (se_pc s, se_ends s) r) \<and>
    asked_for lg i (snd (session_follow bufflen (se_pc s, se_ends s) r)) w1 w2))"
proof -
  let ?f = "session_follow bufflen (se_pc s, se_ends s) r"
  from session_polled [OF waits kernel, of ndebug resume] pc obtain w1 where
    w1: "poll_work K (io_callback K resume) i w = Inr w1" "queued i w1 = [h]" "contexts_ok K cnt w1" "sqe_free K i w1 \<longrightarrow> session_fit ndebug K lg i s r w1"
      "bodies w1 = bodies w" "w_frames w1 = w_frames w" "linfo_ctx w1 = Some i" "io_counts i w1 = (0, 0)" by auto
  obtain f where f: "w_frames w1 h = Some f" "\<not> f_done f" "is_detach f" and h: "h \<noteq> nullptr" "se_wait s \<noteq> nullptr" and b: "bodies w1 h = Some (Session s)"
    using waits w1(5,6) by (auto simp: session_waits_def)
  have "\<exists>w2 s'. process_work (echo_resume ndebug N K g alloc bufflen resume) i w1 = Inr w2 \<and> session_waits K cnt lg i h s' w2 \<and>
      (se_wait s' = se_wait s \<and> (se_pc s', se_ends s') = fst ?f) \<and> asked_for lg i (snd ?f) w1 w2" if free: "sqe_free K i w1"
  proof -
    have fit: "session_fit ndebug K lg i s r w1" using w1(4) free by blast
    then have on: "queue_inv i w1" "on_ring K lg i w1" using w1(3) by (simp_all add: contexts_ok_def session_fit_def)
    show ?thesis
    proof (rule session_suspends [where R = "\<lambda>_. snd ?f", OF on(1) w1(2) h(1) b f w1(3) on(2) w1(7,8)])
      fix q
      let ?v = "put_engine i ((engines w1 i)\<lparr>m_task_queue := q\<rparr>) w1"
      have "session_fit ndebug K lg i s r ?v" using fit by (simp add: session_fit_def on_ring_def sqe_free_def delivered_def holds_slot_def)
      from session_next [OF this pc, of g bufflen h]
      show "\<exists>s'. makes_request ndebug K g bufflen lg i h s ?v s' (snd ?f) \<and> se_wait s' = se_wait s \<and> (se_pc s', se_ends s') = fst ?f" by blast
    qed
  qed
  then show ?thesis using w1(1) by blast
qed

text \<open>A session that the server has just submitted to the context, as the context's worker finds it.\<close>

definition session_ready :: "'k kernel_ops \<Rightarrow> (int \<Rightarrow> 'k \<Rightarrow> nat) \<Rightarrow> ('k \<Rightarrow> sqe_prep list) \<Rightarrow> nat \<Rightarrow> int \<Rightarrow> places \<Rightarrow>
    ('k, 'n, coroutine, 'z) pworld_scheme \<Rightarrow> bool" where
  "session_ready K cnt lg i fd pl w \<longleftrightarrow>
     contexts_ok K cnt w \<and> on_worker K lg i w \<and> linfo_ctx w = Some i \<and> queued i w = [pl_frame pl] \<and> io_counts i w = (0, 0) \<and>
     bodies w (pl_frame pl) = Some (Session (new_session fd pl)) \<and> pl_frame pl \<noteq> nullptr \<and> pl_wait pl \<noteq> nullptr \<and> w_frames w (pl_frame pl) = Some (set_state cs_detach new_frame)"

lemma started_ready:
  fixes v v' :: "('k, 'n, coroutine, 'z) pworld_scheme"
  assumes "started fd v v'" and "contexts_ok K cnt v'" and "queued c v = []" "io_counts c v' = (0, 0)" and c: "c = turn_of v"
    and "on_worker K lg c (v'\<lparr>linfo_ctx := Some c, linfo_egn := Some c\<rparr>)"
  shows "\<exists>pl. w_frames v (pl_frame pl) = None \<and>
    (pl_frame pl \<noteq> nullptr \<and> pl_wait pl \<noteq> nullptr \<longrightarrow> session_ready K cnt lg c fd pl (v'\<lparr>linfo_ctx := Some c, linfo_egn := Some c\<rparr>))"
proof -
  from assms(1) obtain pl where pl: "w_frames v (pl_frame pl) = None" "bodies v' = (bodies v)(pl_frame pl \<mapsto> Session (new_session fd pl))"
      "w_frames v' = (w_frames v)(pl_frame pl \<mapsto> set_state cs_detach new_frame)" "queued (turn_of v) v' = queued (turn_of v) v @ [pl_frame pl]"
    by (auto simp: started_def)
  have "contexts_ok K cnt (v'\<lparr>linfo_ctx := Some c, linfo_egn := Some c\<rparr>)" using assms(2) by (simp add: contexts_ok_def efd_open_def)
  then show ?thesis using assms(3,4,6) pl c by (intro exI [of _ pl]) (simp add: session_ready_def io_counts_def)
qed

lemma session_first_turn:
  assumes "session_ready K cnt lg i fd pl w"
  shows "\<exists>w' s. process_work (echo_resume ndebug N K g alloc bufflen resume) i w = Inr w' \<and> session_waits K cnt lg i (pl_frame pl) s w' \<and>
    (se_pc s = S_read \<and> m_original_fd (se_conn s) = fd \<and> se_wait s = pl_wait pl) \<and> asked_for lg i (recv_request bufflen (se_ends s)) w w'"
proof -
  have w: "contexts_ok K cnt w" "on_worker K lg i w" "linfo_ctx w = Some i" "queued i w = [pl_frame pl]" "io_counts i w = (0, 0)"
    "bodies w (pl_frame pl) = Some (Session (new_session fd pl))" "pl_frame pl \<noteq> nullptr" "pl_wait pl \<noteq> nullptr" "w_frames w (pl_frame pl) = Some (set_state cs_detach new_frame)"
    using assms by (simp_all add: session_ready_def)
  have f: "\<not> f_done (set_state cs_detach new_frame)" "is_detach (set_state cs_detach new_frame)" by (simp_all add: new_frame_def set_state_def is_detach_def)
  have q: "queue_inv i w" using w(1) by (simp add: contexts_ok_def)
  show ?thesis
  proof (rule session_suspends [where R = "\<lambda>s. recv_request bufflen (se_ends s)", OF q w(4,7,6,9) f w(1) on_workerD(1) [OF w(2)] w(3,5)])
    fix q
    let ?v = "put_engine i ((engines w i)\<lparr>m_task_queue := q\<rparr>) w"
    have "on_worker K lg i ?v" using w(2) by (simp add: on_worker_def on_ring_def sqe_free_def)
    from session_first [OF this w(8), of ndebug g bufflen "pl_frame pl" fd] show "\<exists>s'.
        makes_request ndebug K g bufflen lg i (pl_frame pl) (new_session fd pl) ?v s' (recv_request bufflen (se_ends s')) \<and>
        se_pc s' = S_read \<and> m_original_fd (se_conn s') = fd \<and> se_wait s' = pl_wait pl" .
  qed
qed

text \<open>The turn that ends the session: its frame is destroyed, its context has nothing in flight.\<close>

lemma session_ends_turn:
  assumes waits: "session_waits K cnt lg i h s w" and kernel: "kernel_completes K i (se_wait s) r w" and pc: "se_pc s = S_close"
    and closed: "ndebug \<or> r = 0"
  shows "\<exists>w1 w2. poll_work K (io_callback K resume) i w = Inr w1 \<and>
    process_work (echo_resume ndebug N K g alloc bufflen resume) i w1 = Inr w2 \<and> asked_for lg i [] w1 w2 \<and>
    w_frames w2 = (w_frames w)(h := None) \<and> queued i w2 = [] \<and> io_counts i w2 = (0, 0)"
proof -
  let ?body = "echo_resume ndebug N K g alloc bufflen resume"
  from session_polled [OF waits kernel, of ndebug resume] closed pc obtain w1 where
    w1: "poll_work K (io_callback K resume) i w = Inr w1" "queued i w1 = [h]" "contexts_ok K cnt w1" "session_fit ndebug K lg i s r w1"
      "bodies w1 = bodies w" "w_frames w1 = w_frames w" "io_counts i w1 = (0, 0)" by auto
  obtain f where f: "w_frames w h = Some f" "is_detach f" and h: "h \<noteq> nullptr" and b: "bodies w h = Some (Session s)"
    using waits by (auto simp: session_waits_def)
  have "queue_inv i w1" using w1(3) by (simp add: contexts_ok_def)
  from process_work_one [OF this w1(2) h, of ?body] obtain q where
    q: "process_work ?body i w1 = exec_task ?body h (put_engine i ((engines w1 i)\<lparr>m_task_queue := q\<rparr>) w1)" "aq_inv q" "aq_items q = []" by blast
  let ?v = "put_engine i ((engines w1 i)\<lparr>m_task_queue := q\<rparr>) w1"
  have fit: "session_fit ndebug K lg i s r ?v" using w1(4)
    using pc by (simp add: session_fit_def on_ring_def delivered_def holds_slot_def)
  from session_last [OF fit pc, of g bufflen h] obtain p where
    p: "session_resume ndebug K g bufflen h s ?v =
        Some (Inr (s\<lparr>se_pc := S_end\<rparr>, co_return_void h (put_proxy i p (?v\<lparr>infos := (infos ?v)(se_wait s := None)\<rparr>))))"
      "lg (m_uring p) = lg (ring i ?v)" by blast
  let ?u = "co_return_void h (put_proxy i p (?v\<lparr>infos := (infos ?v)(se_wait s := None)\<rparr>))"
  let ?w2 = "?u\<lparr>bodies := (bodies ?u)(h \<mapsto> Session (s\<lparr>se_pc := S_end\<rparr>))\<rparr>"
  have "?body h ?v = Inr ?w2" using p(1) b w1(5) by (simp add: echo_resume_def)
  moreover have fr: "w_frames ?w2 = (w_frames w)(h \<mapsto> f\<lparr>f_done := True\<rparr>)" using f w1(6) by (simp add: co_return_void_def)
  moreover have "is_detach (f\<lparr>f_done := True\<rparr>)" using f(2) by (simp add: is_detach_def)
  ultimately have run: "process_work ?body i w1 = Inr (?w2\<lparr>w_frames := (w_frames w)(h := None)\<rparr>)"
    using q(1) h by (simp add: exec_task_def is_done_def clean_eq)
  have e: "engines ?w2 i = (engines w1 i)\<lparr>m_task_queue := q, m_upxy := p\<rparr>" by (simp add: co_return_void_def)
  show ?thesis using w1(1,7) q(3) run e p(2)
    by (intro exI [of _ w1] exI [of _ "?w2\<lparr>w_frames := (w_frames w)(h := None)\<rparr>"]) (simp add: asked_for_def ring_def io_counts_def)
qed

section \<open>A conversation\<close>

text \<open>The kernel goes on working between two turns.\<close>

definition kernel_moves :: "nat \<Rightarrow> 'k \<Rightarrow> ('k, 'z) eworld_scheme \<Rightarrow> ('k, 'z) eworld_scheme" where
  "kernel_moves i k w = put_proxy i ((m_upxy (engines w i))\<lparr>m_uring := k\<rparr>) w"

text \<open>Turns of the worker, each begun by a completion for the awaiter at \<open>a\<close>: its result, the worlds before and after the ready coroutines ran. The
  submission ring is not full when they are resumed; how full it is at other times is left open.\<close>

inductive worker_turns for K resume body i a where
  quiet: "worker_turns K resume body i a w [] w"
| turn: "kernel_completes K i a r w \<Longrightarrow> poll_work K (io_callback K resume) i w = Inr w1 \<Longrightarrow> sqe_free K i w1 \<Longrightarrow> process_work body i w1 = Inr w2 \<Longrightarrow>
    worker_turns K resume body i a (kernel_moves i k w2) tr w' \<Longrightarrow> worker_turns K resume body i a w ((r, w1, w2) # tr) w'"

lemma session_waits_moves: "session_waits K cnt lg i h s (kernel_moves i k w) = session_waits K cnt lg i h s w"
proof -
  have "contexts_ok K cnt (kernel_moves i k w) = contexts_ok K cnt w"
    by (auto simp: contexts_ok_def efd_open_def kernel_moves_def put_proxy_def)
  then show ?thesis
    by (simp add: session_waits_def kernel_moves_def on_ring_def holds_slot_def)
qed

text \<open>The session is open, neither closing nor ended, at every result.\<close>

primrec stays_open :: "64 word \<Rightarrow> session_pc \<times> conn_ends \<Rightarrow> int list \<Rightarrow> bool" where
  "stays_open bufflen p [] = True"
| "stays_open bufflen p (r # rs) = (fst p \<in> {S_read, S_write} \<and> stays_open bufflen (fst (session_follow bufflen p r)) rs)"

lemma stays_open_snoc:
  "stays_open bufflen p (rs @ [r]) \<longleftrightarrow> stays_open bufflen p rs \<and> fst (finally_at (session_follow bufflen) p rs) \<in> {S_read, S_write}"
  by (induction rs arbitrary: p) auto

lemma talk_stays_open:
  assumes "is_talk nms rs"
  shows "stays_open bufflen (S_read, e) (exchanges nms @ rs)"
proof -
  have "\<forall>(n, m) \<in> set nms. 0 < n \<and> 0 < m" using assms by (simp add: is_talk_def)
  moreover have "stays_open bufflen (S_read, e) rs" using assms by (auto simp: is_talk_def session_follow_def)
  ultimately show ?thesis by (induction nms) (auto simp: exchanges_def session_follow_def)
qed

lemma conversation_follows:
  assumes "worker_turns K resume (echo_resume ndebug N K g alloc bufflen resume) i a w tr w'"
    and "session_waits K cnt lg i h s w" and "a = se_wait s" and "stays_open bufflen (se_pc s, se_ends s) (map fst tr)"
  shows "list_all2 (\<lambda>(r, w1, w2) q. asked_for lg i q w1 w2) tr (protocol (session_follow bufflen) (se_pc s, se_ends s) (map fst tr)) \<and>
    (\<exists>s'. session_waits K cnt lg i h s' w' \<and> se_wait s' = a \<and> (se_pc s', se_ends s') = finally_at (session_follow bufflen) (se_pc s, se_ends s) (map fst tr))"
  using assms
proof (induction arbitrary: s rule: worker_turns.induct)
  case (turn r w w1 w2 k tr w')
  let ?p = "session_follow bufflen (se_pc s, se_ends s) r"
  have kernel: "kernel_completes K i (se_wait s) r w" and pc: "se_pc s \<in> {S_read, S_write}" using turn.hyps(1) turn.prems by auto
  from session_turn [OF turn.prems(1) kernel pc, of resume ndebug N g alloc bufflen] turn.hyps(2,3,4) obtain s' where
    s': "session_waits K cnt lg i h s' w2" "se_wait s' = se_wait s" "(se_pc s', se_ends s') = fst ?p" "asked_for lg i (snd ?p) w1 w2" by auto
  have "session_waits K cnt lg i h s' (kernel_moves i k w2)" using s'(1) by (simp add: session_waits_moves)
  from turn.IH [OF this] s'(2,3) turn.prems(2,3) have
    "list_all2 (\<lambda>(r, w1, w2) q. asked_for lg i q w1 w2) tr (protocol (session_follow bufflen) (fst ?p) (map fst tr)) \<and>
    (\<exists>s'. session_waits K cnt lg i h s' w' \<and> se_wait s' = a \<and> (se_pc s', se_ends s') = finally_at (session_follow bufflen) (fst ?p) (map fst tr))"
    by simp
  then show ?case using s'(4) by (cases ?p) simp
qed auto

text \<open>The worker does not hang: an open session's turn returns.\<close>

lemma conversation_goes_on:
  assumes waits: "session_waits K cnt lg i h s w" and pc: "se_pc s = S_read"
    and v: "worker_turns K resume (echo_resume ndebug N K g alloc bufflen resume) i (se_wait s) w tr v"
      "stays_open bufflen (S_read, se_ends s) (map fst tr @ [r])" "kernel_completes K i (se_wait s) r v"
  shows "\<exists>w1. poll_work K (io_callback K resume) i v = Inr w1 \<and>
    (sqe_free K i w1 \<longrightarrow> (\<exists>w2. process_work (echo_resume ndebug N K g alloc bufflen resume) i w1 = Inr w2))"
proof -
  from conversation_follows [OF v(1) waits refl] v(2) pc obtain s1 where
    s1: "session_waits K cnt lg i h s1 v" "se_wait s1 = se_wait s" "se_pc s1 \<in> {S_read, S_write}" by (auto simp: stays_open_snoc) (metis fst_conv)+
  show ?thesis using session_turn [OF s1(1) _ s1(3), unfolded s1(2), OF v(3)] by blast
qed

lemma worker_turns_snoc:
  assumes "worker_turns K resume body i a w tr v" and "kernel_completes K i a r v" and "poll_work K (io_callback K resume) i v = Inr w1"
    and "sqe_free K i w1" and "process_work body i w1 = Inr w2"
  shows "worker_turns K resume body i a w (tr @ [(r, w1, w2)]) (kernel_moves i k w2)"
  using assms by (induction rule: worker_turns.induct) (auto intro: worker_turns.intros)

text \<open>A whole talk of a waiting session: its answers, and the turn that ends it.\<close>

lemma talk_answered:
  fixes w :: "('k, 'n, coroutine, 'z) pworld_scheme"
  assumes waits: "session_waits K cnt lg i h s w" and pc: "se_pc s = S_read"
    and run: "worker_turns K resume (echo_resume ndebug N K g alloc bufflen resume) i (se_wait s) w tr w'"
    and talk: "map fst tr = exchanges nms @ rs" "is_talk nms rs"
  shows "list_all2 (\<lambda>(r, w1, w2) q. asked_for lg i q w1 w2) tr (replies bufflen (se_ends s) nms rs)"
    and "kernel_completes K i (se_wait s) r w' \<Longrightarrow> ndebug \<or> r = 0 \<Longrightarrow>
      \<exists>w1 w2. poll_work K (io_callback K resume) i w' = Inr w1 \<and>
        process_work (echo_resume ndebug N K g alloc bufflen resume) i w1 = Inr w2 \<and> asked_for lg i [] w1 w2 \<and>
        w_frames w2 = (w_frames w')(h := None) \<and> queued i w2 = [] \<and> io_counts i w2 = (0, 0)"
proof -
  have "stays_open bufflen (se_pc s, se_ends s) (map fst tr)" using talk_stays_open [OF talk(2)] pc by (simp add: talk(1))
  from conversation_follows [OF run waits refl this] session_talk [OF talk(2), of bufflen "se_ends s"] pc obtain s' where
    l: "list_all2 (\<lambda>(r, w1, w2) q. asked_for lg i q w1 w2) tr (replies bufflen (se_ends s) nms rs)" and
    s': "session_waits K cnt lg i h s' w'" "se_wait s' = se_wait s" "se_pc s' = S_close" by (auto simp: talk(1))
  show "list_all2 (\<lambda>(r, w1, w2) q. asked_for lg i q w1 w2) tr (replies bufflen (se_ends s) nms rs)" by (rule l)
  show "\<exists>w1 w2. poll_work K (io_callback K resume) i w' = Inr w1 \<and>
      process_work (echo_resume ndebug N K g alloc bufflen resume) i w1 = Inr w2 \<and> asked_for lg i [] w1 w2 \<and>
      w_frames w2 = (w_frames w')(h := None) \<and> queued i w2 = [] \<and> io_counts i w2 = (0, 0)"
    if "kernel_completes K i (se_wait s) r w'" "ndebug \<or> r = 0" using session_ends_turn [OF s'(1) _ s'(3), unfolded s'(2), OF that] .
qed

text \<open>C12: an echo session on its worker, end to end. The worker finds the session that the server has started for a connection; its round of ready
  coroutines runs the session to its first read of that connection. The kernel then completes, turn after turn, reads of \<open>n\<close> bytes
  and writes. In each turn the worker wakes, finds the completion, runs the session and the session
  answers as \<open>replies\<close> says: every message by one write of its \<open>n\<close> bytes, every write by the next read, the end by closing the socket.
  When the socket has been closed, the worker's next turn ends the session: its frame is destroyed, no request is in flight
  and nothing is queued. No turn fails or hangs: as long as the session is open, whatever the kernel completes, the poll returns and,
  unless the submission ring is full just then, so does the round of ready coroutines.\<close>

theorem echo_conversation:
  fixes w :: "('k, 'n, coroutine, 'z) pworld_scheme"
  assumes ready: "session_ready K cnt lg i fd pl w"
  shows "\<exists>w' s. process_work (echo_resume ndebug N K g alloc bufflen resume) i w = Inr w' \<and> m_original_fd (se_conn s) = fd \<and>
    asked_for lg i (recv_request bufflen (se_ends s)) w w' \<and>
    (\<forall>k tr v. worker_turns K resume (echo_resume ndebug N K g alloc bufflen resume) i (pl_wait pl) (kernel_moves i k w') tr v \<longrightarrow>
      (\<forall>nms rs. map fst tr = exchanges nms @ rs \<and> is_talk nms rs \<longrightarrow>
        list_all2 (\<lambda>(r, w1, w2) q. asked_for lg i q w1 w2) tr (replies bufflen (se_ends s) nms rs) \<and>
        (\<forall>r. kernel_completes K i (pl_wait pl) r v \<and> (ndebug \<or> r = 0) \<longrightarrow>
          (\<exists>w1 w2. poll_work K (io_callback K resume) i v = Inr w1 \<and>
            process_work (echo_resume ndebug N K g alloc bufflen resume) i w1 = Inr w2 \<and> asked_for lg i [] w1 w2 \<and>
            w_frames w2 = (w_frames v)(pl_frame pl := None) \<and> queued i w2 = [] \<and> io_counts i w2 = (0, 0)))) \<and>
      (\<forall>r. stays_open bufflen (S_read, se_ends s) (map fst tr @ [r]) \<and> kernel_completes K i (pl_wait pl) r v \<longrightarrow>
        (\<exists>w1. poll_work K (io_callback K resume) i v = Inr w1 \<and>
          (sqe_free K i w1 \<longrightarrow> (\<exists>w2. process_work (echo_resume ndebug N K g alloc bufflen resume) i w1 = Inr w2)))))"
proof -
  from session_first_turn [OF ready, of ndebug N g alloc bufflen resume] obtain w' s where
    w': "process_work (echo_resume ndebug N K g alloc bufflen resume) i w = Inr w'" "session_waits K cnt lg i (pl_frame pl) s w'" "se_pc s = S_read"
      "m_original_fd (se_conn s) = fd" "se_wait s = pl_wait pl" "asked_for lg i (recv_request bufflen (se_ends s)) w w'" by blast
  have waits: "session_waits K cnt lg i (pl_frame pl) s (kernel_moves i k w')" for k using w'(2) by (simp add: session_waits_moves)
  note talk = talk_answered [OF waits w'(3), unfolded w'(5)] and goes_on = conversation_goes_on [OF waits w'(3), unfolded w'(5)]
  show ?thesis
    by (rule exI [of _ w'], rule exI [of _ s], intro conjI allI impI w'(1,4,6); elim conjE; (rule talk(1) | rule talk(2) | rule goes_on); assumption)
qed

text \<open>A kernel that completes the request of the awaiter at address 40: with 10 bytes when the ring has seen nothing, with 3 after one preparation,
  with 0 later.\<close>

definition talk_kernel :: "(nat \<times> sqe_prep list) kernel_ops" where
  "talk_kernel = tape_kernel\<lparr>k_peek_batch_cqe := (\<lambda>n k. take n
     [\<lparr>user_data = 40, res = if length (snd k) = 0 then 10 else if length (snd k) = 1 then 3 else 0\<rparr>])\<rparr>"

definition talk_places :: places where
  "talk_places = sample_places\<lparr>pl_frame := 8, pl_wait := 40\<rparr>"

text \<open>The session for descriptor 42 is in the queue.\<close>

definition talk_queue :: "nat atomic_queue" where
  "talk_queue = (case try_push 8 (AtomicQueue nullptr) of Inr (_, q) \<Rightarrow> q)"

definition talk_world :: "(nat \<times> sqe_prep list, nat, coroutine) pworld" where
  "talk_world = tape_world\<lparr>engines := (\<lambda>_. tape_engine)(0 := tape_engine\<lparr>m_task_queue := talk_queue\<rparr>),
     w_frames := [8 \<mapsto> set_state cs_detach new_frame], bodies := [8 \<mapsto> Session (new_session 42 talk_places)]\<rparr>"

lemma talk_ready: "session_ready talk_kernel (\<lambda>fd k. fst k) snd 0 42 talk_places talk_world"
proof -
  have e: "aq_inv (AtomicQueue nullptr)" "aq_items (AtomicQueue nullptr) = []" "aq_count (AtomicQueue nullptr) < unat (aq_size (AtomicQueue nullptr))"
    using sample_queue [of 0] length_aq_items [of "m_task_queue (engines sample_world 0)"] by (simp_all add: sample_world_def sample_engine_def)
  obtain q where "try_push 8 (AtomicQueue nullptr) = Inr (True, q)" "aq_inv q" "aq_items q = aq_items (AtomicQueue nullptr) @ [8]"
    by (rule try_push_room [OF e(1,3), of 8])
  then have q: "aq_inv talk_queue" "aq_items talk_queue = [8]" by (simp_all add: talk_queue_def e(2))
  have "queue_inv c talk_world" for c using q(1) e(1) by (simp add: talk_world_def tape_engine_def)
  then have "contexts_ok talk_kernel (\<lambda>fd k. fst k) talk_world"
    by (simp add: contexts_ok_def eventfd_doc_def efd_open_def talk_kernel_def tape_kernel_def talk_world_def tape_engine_def)
  moreover have "on_worker talk_kernel snd 0 talk_world"
    by (simp add: on_worker_def on_ring_def sqe_free_def gives_entry_def talk_world_def talk_kernel_def tape_kernel_def ring_log_doc_def files_update_doc_def tape_world_def tape_engine_def
        proxy_inv_def mb_inv_def split: if_splits)
  ultimately show ?thesis
    using q(2) by (simp add: session_ready_def talk_world_def tape_world_def tape_engine_def talk_places_def io_counts_def)
qed

lemma talk_completes:
  "kernel_completes talk_kernel 0 40 (if length l = 0 then 10 else if length l = 1 then 3 else 0) (kernel_moves 0 (1, l) v)"
proof -
  have "wake_by_cqe 1" by code_simp
  then show ?thesis
    by (simp add: kernel_completes_def kernel_moves_def do_io_submit_def Let_def submit_def talk_kernel_def tape_kernel_def ioinfo_to_ptr_def)
qed

abbreviation talk_program where
  "talk_program \<equiv> echo_resume False sample_net talk_kernel garbage_info (\<lambda>w. sample_places) 144 (\<lambda>h. Inr)"

theorem echo_conversation_witness:
  "\<exists>w s w1 w2 v1 v2 u1 u2 x1 x2. process_work talk_program 0 talk_world = Inr w \<and> m_original_fd (se_conn s) = 42 \<and>
     asked_for snd 0 (recv_request 144 (se_ends s)) talk_world w \<and>
     worker_turns talk_kernel (\<lambda>h. Inr) talk_program 0 40
       (kernel_moves 0 (1, []) w) [(10, w1, w2), (3, v1, v2), (0, u1, u2)] (kernel_moves 0 (1, [Set_data 0, Set_data 0]) u2) \<and>
     asked_for snd 0 (send_request 10 (se_ends s)) w1 w2 \<and> asked_for snd 0 (recv_request 144 (se_ends s)) v1 v2 \<and>
     asked_for snd 0 (close_request (se_ends s)) u1 u2 \<and>
     poll_work talk_kernel (io_callback talk_kernel (\<lambda>h. Inr)) 0 (kernel_moves 0 (1, [Set_data 0, Set_data 0]) u2) = Inr x1 \<and>
     process_work talk_program 0 x1 = Inr x2 \<and> asked_for snd 0 [] x1 x2 \<and> w_frames x2 8 = None"
proof -
  let ?e = "[Set_data 0, Set_data 0] :: sqe_prep list" and ?poll = "poll_work talk_kernel (io_callback talk_kernel (\<lambda>h. Inr)) 0"
  let ?turns = "worker_turns talk_kernel (\<lambda>h. Inr) talk_program 0 40"
  have pl: "pl_wait talk_places = 40" "pl_frame talk_places = 8" by (simp_all add: talk_places_def)
  from echo_conversation [OF talk_ready, of False sample_net garbage_info "\<lambda>w. sample_places" 144 "\<lambda>h. Inr", unfolded pl] obtain w s where
    w: "process_work talk_program 0 talk_world = Inr w" "m_original_fd (se_conn s) = 42" "asked_for snd 0 (recv_request 144 (se_ends s)) talk_world w" and
    talk: "\<And>k tr v nms rs. ?turns (kernel_moves 0 k w) tr v \<Longrightarrow> map fst tr = exchanges nms @ rs \<Longrightarrow> is_talk nms rs \<Longrightarrow>
      list_all2 (\<lambda>(r, w1, w2) q. asked_for snd 0 q w1 w2) tr (replies 144 (se_ends s) nms rs) \<and>
      (\<forall>r. kernel_completes talk_kernel 0 40 r v \<and> (False \<or> r = 0) \<longrightarrow>
        (\<exists>w1 w2. ?poll v = Inr w1 \<and> process_work talk_program 0 w1 = Inr w2 \<and> asked_for snd 0 [] w1 w2 \<and>
          w_frames w2 = (w_frames v)(8 := None) \<and> queued 0 w2 = [] \<and> io_counts 0 w2 = (0, 0)))" and
    goes_on: "\<And>k tr v r. ?turns (kernel_moves 0 k w) tr v \<Longrightarrow> stays_open 144 (S_read, se_ends s) (map fst tr @ [r]) \<Longrightarrow>
      kernel_completes talk_kernel 0 40 r v \<Longrightarrow> \<exists>w1. ?poll v = Inr w1 \<and> (sqe_free talk_kernel 0 w1 \<longrightarrow> (\<exists>w2. process_work talk_program 0 w1 = Inr w2))" by blast
  have free: "sqe_free talk_kernel 0 v" for v :: "(nat \<times> sqe_prep list, nat, coroutine) pworld" by (simp add: sqe_free_def talk_kernel_def tape_kernel_def)
  let ?w = "kernel_moves 0 (1, []) w"
  have more: "\<exists>w1 w2. \<forall>l'. ?turns ?w (tr @ [(r, w1, w2)]) (kernel_moves 0 (1, l') w2)"
    if "?turns ?w tr (kernel_moves 0 (1, l) v)" "stays_open 144 (S_read, se_ends s) (map fst tr @ [r])"
      "r = (if length l = 0 then 10 else if length l = 1 then 3 else 0)" for tr l v r
  proof -
    have c: "kernel_completes talk_kernel 0 40 r (kernel_moves 0 (1, l) v)" unfolding that(3) by (rule talk_completes)
    from goes_on [OF that(1,2) c] show ?thesis using worker_turns_snoc [OF that(1) c _ free] free by blast
  qed
  have open0: "stays_open 144 (S_read, se_ends s) [10, 3, 0]" using talk_stays_open [of "[(10, 3)]" "[0]"] by (simp add: is_talk_def exchanges_def)
  have "?turns ?w [] ?w" by (rule worker_turns.quiet)
  from more [OF this, of 10] open0 obtain w1 w2 where 1: "?turns ?w [(10, w1, w2)] (kernel_moves 0 (1, [Set_data 0]) w2)" by auto
  from more [OF 1, of 3] open0 obtain v1 v2 where 2: "?turns ?w [(10, w1, w2), (3, v1, v2)] (kernel_moves 0 (1, ?e) v2)" by auto
  from more [OF 2, of 0] open0 obtain u1 u2 where 3: "?turns ?w [(10, w1, w2), (3, v1, v2), (0, u1, u2)] (kernel_moves 0 (1, ?e) u2)" by auto
  have c: "kernel_completes talk_kernel 0 40 0 (kernel_moves 0 (1, ?e) u2)" using talk_completes [of ?e u2] by simp
  note conv = talk [OF 3, of "[(10, 3)]" "[0]", simplified exchanges_def is_talk_def, simplified]
  have asked: "asked_for snd 0 (send_request 10 (se_ends s)) w1 w2" "asked_for snd 0 (recv_request 144 (se_ends s)) v1 v2"
    "asked_for snd 0 (close_request (se_ends s)) u1 u2" using conv [THEN conjunct1] by (simp_all add: replies_def)
  obtain x1 x2 where x: "?poll (kernel_moves 0 (1, ?e) u2) = Inr x1" "process_work talk_program 0 x1 = Inr x2" "asked_for snd 0 [] x1 x2"
      "w_frames x2 8 = None"
    using conv [THEN conjunct2] c by auto
  show ?thesis using w 3 asked x by (iprover intro: exI conjI)
qed

end
