(* ===== verification/Monitor.thy ===== *)
theory Monitor
  imports Prelude
begin

text \<open>
  The reference implementation of a channel in \<^verbatim>\<open>benchtests/channel_bench.cpp\<close>, which the library's channel is measured against: a
  \<^verbatim>\<open>std::queue\<close> with a \<^verbatim>\<open>std::mutex\<close> and one \<^verbatim>\<open>std::condition_variable\<close>, a producer and a consumer. The two run concurrently; a step is what
  one of them does between acquiring or waiting for the mutex and giving it up. \<^verbatim>\<open>wait\<close> with a predicate may be woken
  for no reason, which is the label \<open>True\<close> of a step.
\<close>

section \<open>The machine\<close>

definition mo_capacity :: nat where "mo_capacity = 16"

text \<open>\<open>M_loop\<close> is about to test \<^verbatim>\<open>total_num > 0\<close> and to lock, \<open>M_check\<close> holds the mutex before the predicate, \<open>M_asleep\<close> waits on the condition
  variable, \<open>M_woken\<close> has been notified and waits for the mutex, \<open>M_done\<close> has returned.\<close>

datatype mo_pc = M_loop | M_check | M_asleep | M_woken | M_done

text \<open>\<open>mo_todo\<close> are the values the producer still has to send, as many as its \<^verbatim>\<open>total_num\<close>; \<open>mo_left\<close> is the consumer's \<^verbatim>\<open>total_num\<close>, \<open>mo_got\<close> what
  it has received.\<close>

record 'a monitor =
  mo_que :: "'a list"
  mo_todo :: "'a list"
  mo_left :: int
  mo_got :: "'a list"
  mo_prod :: mo_pc
  mo_cons :: mo_pc

definition mo_start :: "'a list \<Rightarrow> 'a monitor" where
  "mo_start xs = \<lparr>mo_que = [], mo_todo = xs, mo_left = int (length xs), mo_got = [], mo_prod = M_loop, mo_cons = M_loop\<rparr>"

definition mo_free :: "'a monitor \<Rightarrow> bool" where
  "mo_free s \<longleftrightarrow> mo_prod s \<noteq> M_check \<and> mo_cons s \<noteq> M_check"

definition notified :: "mo_pc \<Rightarrow> mo_pc" where
  "notified p = (if p = M_asleep then M_woken else p)"

text \<open>The producer's body: \<^verbatim>\<open>cnt\<close> values go into the queue, everybody asleep is notified, the mutex is given up.\<close>

definition fill :: "'a monitor \<Rightarrow> 'a monitor" where
  "fill s =
     (let cnt = mo_capacity - length (mo_que s); cnt = (if length (mo_todo s) < cnt then length (mo_todo s) else cnt)
      in s\<lparr>mo_que := mo_que s @ take cnt (mo_todo s), mo_todo := drop cnt (mo_todo s), mo_prod := M_loop, mo_cons := notified (mo_cons s)\<rparr>)"

text \<open>The consumer's body empties the queue.\<close>

definition drain :: "'a monitor \<Rightarrow> 'a monitor" where
  "drain s = s\<lparr>mo_got := mo_got s @ mo_que s, mo_que := [], mo_left := mo_left s - int (length (mo_que s)),
               mo_cons := M_loop, mo_prod := notified (mo_prod s)\<rparr>"

inductive monitor_step :: "bool \<Rightarrow> 'a monitor \<Rightarrow> 'a monitor \<Rightarrow> bool" where
  p_lock: "mo_prod s = M_loop \<Longrightarrow> mo_todo s \<noteq> [] \<Longrightarrow> mo_free s \<Longrightarrow> monitor_step False s (s\<lparr>mo_prod := M_check\<rparr>)"
| p_end: "mo_prod s = M_loop \<Longrightarrow> mo_todo s = [] \<Longrightarrow> monitor_step False s (s\<lparr>mo_prod := M_done\<rparr>)"
| p_sleep: "mo_prod s = M_check \<Longrightarrow> \<not> length (mo_que s) < mo_capacity \<Longrightarrow> monitor_step False s (s\<lparr>mo_prod := M_asleep\<rparr>)"
| p_fill: "mo_prod s = M_check \<Longrightarrow> length (mo_que s) < mo_capacity \<Longrightarrow> monitor_step False s (fill s)"
| p_relock: "mo_prod s = M_woken \<Longrightarrow> mo_free s \<Longrightarrow> monitor_step False s (s\<lparr>mo_prod := M_check\<rparr>)"
| p_spurious: "mo_prod s = M_asleep \<Longrightarrow> monitor_step True s (s\<lparr>mo_prod := M_woken\<rparr>)"
| c_lock: "mo_cons s = M_loop \<Longrightarrow> mo_left s > 0 \<Longrightarrow> mo_free s \<Longrightarrow> monitor_step False s (s\<lparr>mo_cons := M_check\<rparr>)"
| c_end: "mo_cons s = M_loop \<Longrightarrow> \<not> mo_left s > 0 \<Longrightarrow> monitor_step False s (s\<lparr>mo_cons := M_done\<rparr>)"
| c_sleep: "mo_cons s = M_check \<Longrightarrow> mo_que s = [] \<Longrightarrow> monitor_step False s (s\<lparr>mo_cons := M_asleep\<rparr>)"
| c_drain: "mo_cons s = M_check \<Longrightarrow> mo_que s \<noteq> [] \<Longrightarrow> monitor_step False s (drain s)"
| c_relock: "mo_cons s = M_woken \<Longrightarrow> mo_free s \<Longrightarrow> monitor_step False s (s\<lparr>mo_cons := M_check\<rparr>)"
| c_spurious: "mo_cons s = M_asleep \<Longrightarrow> monitor_step True s (s\<lparr>mo_cons := M_woken\<rparr>)"

definition monitor_moves :: "'a monitor \<Rightarrow> 'a monitor \<Rightarrow> bool" where
  "monitor_moves s t \<longleftrightarrow> (\<exists>b. monitor_step b s t)"

section \<open>What stays true\<close>

definition monitor_inv :: "'a list \<Rightarrow> 'a monitor \<Rightarrow> bool" where
  "monitor_inv xs s \<longleftrightarrow>
     mo_got s @ mo_que s @ mo_todo s = xs \<and> length (mo_que s) \<le> mo_capacity \<and> mo_left s = int (length (mo_que s) + length (mo_todo s)) \<and>
     \<not> (mo_prod s = M_check \<and> mo_cons s = M_check) \<and>
     (mo_prod s \<in> {M_check, M_asleep, M_woken} \<longrightarrow> mo_todo s \<noteq> []) \<and> (mo_prod s = M_asleep \<longrightarrow> length (mo_que s) = mo_capacity) \<and>
     (mo_prod s = M_done \<longrightarrow> mo_todo s = []) \<and>
     (mo_cons s \<in> {M_check, M_asleep, M_woken} \<longrightarrow> mo_left s > 0) \<and> (mo_cons s = M_asleep \<longrightarrow> mo_que s = []) \<and>
     (mo_cons s = M_done \<longrightarrow> mo_left s = 0)"

lemma fill_simps:
  assumes "length (mo_que s) < mo_capacity"
  shows "mo_que (fill s) @ mo_todo (fill s) = mo_que s @ mo_todo s" and "length (mo_que (fill s)) \<le> mo_capacity"
    and "mo_todo s \<noteq> [] \<Longrightarrow> mo_que (fill s) \<noteq> [] \<and> length (mo_todo (fill s)) < length (mo_todo s)"
    and "length (mo_que (fill s)) + length (mo_todo (fill s)) = length (mo_que s) + length (mo_todo s)"
    and "mo_left (fill s) = mo_left s" "mo_got (fill s) = mo_got s" "mo_prod (fill s) = M_loop" "mo_cons (fill s) = notified (mo_cons s)"
  using assms by (auto simp: fill_def Let_def)

lemma monitor_inv_step: "monitor_step b s t \<Longrightarrow> monitor_inv xs s \<Longrightarrow> monitor_inv xs t"
proof (induction rule: monitor_step.induct)
  case (p_fill s)
  have todo: "mo_todo s \<noteq> []" and left: "mo_left s = int (length (mo_que s) + length (mo_todo s))"
    using p_fill by (simp_all add: monitor_inv_def)
  then have "0 < mo_left s" by (cases "mo_todo s") simp_all
  then have "mo_cons s \<noteq> M_done" "mo_cons s \<noteq> M_check" using p_fill(1,3) by (auto simp: monitor_inv_def)
  moreover have "mo_got s @ mo_que (fill s) @ mo_todo (fill s) = xs" using fill_simps(1) [OF p_fill(2)] p_fill(3) by (simp add: monitor_inv_def)
  ultimately show ?case
    using fill_simps [OF p_fill(2)] \<open>0 < mo_left s\<close> left by (simp add: monitor_inv_def notified_def)
next
  case (c_drain s)
  then show ?case by (auto simp: monitor_inv_def drain_def notified_def split: if_splits)
qed (auto simp: monitor_inv_def mo_free_def mo_capacity_def)

interpretation mon: step_system "\<lambda>s. s = mo_start xs" monitor_moves "monitor_inv xs"
proof unfold_locales
  show "monitor_inv xs s" if "s = mo_start xs" for s using that by (simp add: monitor_inv_def mo_start_def mo_capacity_def)
  show "monitor_inv xs t" if "monitor_inv xs s" "monitor_moves s t" for s t
    using that by (auto simp: monitor_moves_def intro: monitor_inv_step)
qed

definition monitor_finished :: "'a list \<Rightarrow> 'a monitor \<Rightarrow> bool" where
  "monitor_finished xs s \<longleftrightarrow> mo_prod s = M_done \<and> mo_cons s = M_done \<and> mo_got s = xs"

lemma monitor_progress:
  assumes "monitor_inv xs s" and "\<not> monitor_finished xs s"
  shows "\<exists>t. monitor_step False s t"
proof (rule ccontr)
  assume stuck: "\<nexists>t. monitor_step False s t"
  have "mo_prod s \<noteq> M_check" using stuck p_sleep p_fill by blast
  moreover have "mo_cons s \<noteq> M_check" using stuck c_sleep c_drain by blast
  ultimately have free: "mo_free s" by (simp add: mo_free_def)
  have "mo_prod s \<noteq> M_loop" "mo_prod s \<noteq> M_woken" using stuck free p_lock p_end p_relock by blast+
  moreover have "mo_cons s \<noteq> M_loop" "mo_cons s \<noteq> M_woken" using stuck free c_lock c_end c_relock by blast+
  ultimately have "mo_prod s \<in> {M_asleep, M_done}" "mo_cons s \<in> {M_asleep, M_done}"
    using \<open>mo_prod s \<noteq> M_check\<close> \<open>mo_cons s \<noteq> M_check\<close> mo_pc.exhaust by blast+
  moreover have "mo_prod s = M_asleep \<longrightarrow> length (mo_que s) = 16" "mo_cons s = M_asleep \<longrightarrow> mo_que s = [] \<and> mo_left s > 0"
    "mo_prod s = M_done \<longrightarrow> mo_todo s = []" "mo_cons s = M_done \<longrightarrow> mo_left s = 0" "mo_left s = int (length (mo_que s) + length (mo_todo s))"
    "mo_got s @ mo_que s @ mo_todo s = xs"
    using assms(1) unfolding monitor_inv_def mo_capacity_def by blast+
  ultimately show False using assms(2) by (auto simp: monitor_finished_def)
qed

section \<open>Every run ends\<close>

definition pc_weight :: "mo_pc \<Rightarrow> nat" where
  "pc_weight p = (case p of M_done \<Rightarrow> 0 | M_asleep \<Rightarrow> 1 | M_check \<Rightarrow> 2 | M_woken \<Rightarrow> 3 | M_loop \<Rightarrow> 4)"

definition monitor_left :: "'a monitor \<Rightarrow> nat" where
  "monitor_left s = 5 * length (mo_todo s) + 5 * nat (mo_left s) + pc_weight (mo_prod s) + pc_weight (mo_cons s)"

lemma notified_weight: "pc_weight (notified p) \<le> pc_weight p + 2"
  by (cases p) (simp_all add: notified_def pc_weight_def)

lemma monitor_step_left:
  "monitor_step b s t \<Longrightarrow> monitor_inv xs s \<Longrightarrow> if b then monitor_left t = monitor_left s + 2 else monitor_left t < monitor_left s"
proof (induction rule: monitor_step.induct)
  case (p_fill s)
  then have "mo_todo s \<noteq> []" by (simp add: monitor_inv_def)
  then have "length (mo_todo (fill s)) < length (mo_todo s)" using p_fill(2) by (auto simp: fill_def Let_def)
  moreover have "mo_left (fill s) = mo_left s" "mo_prod (fill s) = M_loop" "mo_cons (fill s) = notified (mo_cons s)"
    by (simp_all add: fill_def Let_def)
  ultimately show ?case using p_fill(1) notified_weight [of "mo_cons s"] by (simp add: monitor_left_def pc_weight_def)
next
  case (c_drain s)
  then have "mo_left s = int (length (mo_que s) + length (mo_todo s))" "0 < length (mo_que s)" by (simp_all add: monitor_inv_def)
  then have "nat (mo_left (drain s)) < nat (mo_left s)" by (simp add: drain_def nat_int_add)
  moreover have "mo_todo (drain s) = mo_todo s" "mo_cons (drain s) = M_loop" "mo_prod (drain s) = notified (mo_prod s)"
    by (simp_all add: drain_def)
  moreover have "pc_weight M_loop = pc_weight (mo_cons s) + 2" using c_drain(1) by (simp add: pc_weight_def)
  ultimately show ?case using notified_weight [of "mo_prod s"] unfolding monitor_left_def if_False by (simp only:)
qed (simp_all add: monitor_left_def pc_weight_def)

text \<open>C28: the monitor of the channel benchmark, the yardstick of the library's channel. Under every interleaving and any spurious wake-ups the
  consumer receives the producer's values in order, each once, and the queue holds sixteen at most. As long as something is
  missing one of the two can go on without a spurious wake-up; without them at most ten steps per value and eight more are
  possible, and each of them adds two; when both have returned everything has been received.\<close>

theorem monitor_delivers:
  assumes "reachable (\<lambda>s. s = mo_start xs) monitor_moves s"
  shows "mo_got s @ mo_que s @ mo_todo s = xs \<and> length (mo_que s) \<le> 16 \<and> (mo_prod s = M_done \<and> mo_cons s = M_done \<longrightarrow> mo_got s = xs) \<and>
    (monitor_finished xs s \<or> (\<exists>t. monitor_step False s t)) \<and> monitor_left (mo_start xs) = 10 * length xs + 8 \<and>
    (\<forall>b t. monitor_step b s t \<longrightarrow> (if b then monitor_left t = monitor_left s + 2 else monitor_left t < monitor_left s))"
proof -
  have inv: "monitor_inv xs s" using mon.reachable_inv [OF assms] .
  have "monitor_left (mo_start xs) = 10 * length xs + 8" by (simp add: monitor_left_def mo_start_def pc_weight_def)
  moreover have "mo_got s @ mo_que s @ mo_todo s = xs" "length (mo_que s) \<le> 16" "mo_prod s = M_done \<and> mo_cons s = M_done \<longrightarrow> mo_got s = xs"
    using inv by (auto simp: monitor_inv_def mo_capacity_def)
  moreover have "monitor_finished xs s \<or> (\<exists>t. monitor_step False s t)" using monitor_progress [OF inv] by blast
  moreover have "\<forall>b t. monitor_step b s t \<longrightarrow> (if b then monitor_left t = monitor_left s + 2 else monitor_left t < monitor_left s)"
    using monitor_step_left [OF _ inv] by blast
  ultimately show ?thesis by (intro conjI)
qed

text \<open>Seventeen values: the producer fills the queue and then waits for the consumer.\<close>

definition full_monitor :: "nat monitor" where
  "full_monitor = (mo_start [0..<17])\<lparr>mo_que := [0..<16], mo_todo := [16], mo_prod := M_asleep\<rparr>"

lemma full_monitor_reachable: "reachable (\<lambda>s. s = mo_start [0..<17]) monitor_moves full_monitor"
proof -
  let ?s = "mo_start [0..<17]"
  have fill: "fill (?s\<lparr>mo_prod := M_check\<rparr>) = ?s\<lparr>mo_que := [0..<16], mo_todo := [16]\<rparr>"
    by (simp add: fill_def mo_start_def mo_capacity_def notified_def Let_def upt_rec_numeral)
  have m1: "monitor_moves ?s (?s\<lparr>mo_prod := M_check\<rparr>)"
    unfolding monitor_moves_def by (rule exI, rule p_lock) (simp_all add: mo_start_def mo_free_def)
  have m2: "monitor_moves (?s\<lparr>mo_prod := M_check\<rparr>) (?s\<lparr>mo_que := [0..<16], mo_todo := [16]\<rparr>)"
    unfolding monitor_moves_def fill [symmetric] by (rule exI, rule p_fill) (simp_all add: mo_start_def mo_capacity_def)
  have m3: "monitor_moves (?s\<lparr>mo_que := [0..<16], mo_todo := [16]\<rparr>) (?s\<lparr>mo_que := [0..<16], mo_todo := [16], mo_prod := M_check\<rparr>)"
    unfolding monitor_moves_def using p_lock [of "?s\<lparr>mo_que := [0..<16], mo_todo := [16]\<rparr>"] by (auto simp: mo_start_def mo_free_def)
  have m4: "monitor_moves (?s\<lparr>mo_que := [0..<16], mo_todo := [16], mo_prod := M_check\<rparr>) full_monitor"
    unfolding monitor_moves_def full_monitor_def
    using p_sleep [of "?s\<lparr>mo_que := [0..<16], mo_todo := [16], mo_prod := M_check\<rparr>"] by (auto simp: mo_start_def mo_capacity_def)
  note step = reach_step [where start = "\<lambda>s. s = ?s" and step = monitor_moves]
  have "reachable (\<lambda>s. s = ?s) monitor_moves ?s" by (rule reach_start) simp
  from step [OF step [OF step [OF step [OF this m1] m2] m3] m4] show ?thesis .
qed

theorem monitor_delivers_witness:
  "length (mo_que full_monitor) = 16 \<and> mo_got full_monitor @ mo_que full_monitor @ mo_todo full_monitor = [0..<17] \<and>
   (\<exists>t. monitor_step False full_monitor t)"
proof -
  have "\<not> monitor_finished [0..<17] full_monitor" by (simp add: monitor_finished_def full_monitor_def)
  then show ?thesis using monitor_delivers [OF full_monitor_reachable] by (auto simp: full_monitor_def)
qed

end
