(* ===== verification/Turns.thy ===== *)
theory Turns
  imports Monitor
begin

text \<open>
  The condition variable benchmark on the standard library, \<^verbatim>\<open>benchtests/condition_variable_bench.cpp\<close>: two coroutines, each on a thread of its
  own, take turns with a \<^verbatim>\<open>std::mutex\<close> and a \<^verbatim>\<open>std::condition_variable\<close>, \<^verbatim>\<open>gid\<close> saying whose turn it is. The machine has the program
  counters and the labels of \<open>Monitor\<close>; here only one sleeper is notified.
\<close>

section \<open>The machine\<close>

text \<open>\<open>tu_left\<close> is the \<^verbatim>\<open>run_cnt\<close> of each participant; \<open>tu_log\<close> records who took the turns.\<close>

record turns =
  tu_gid :: int
  tu_left :: "nat \<Rightarrow> int"
  tu_pc :: "nat \<Rightarrow> mo_pc"
  tu_log :: "nat list"

definition turn_start :: "nat \<Rightarrow> turns" where
  "turn_start run_cnt = \<lparr>tu_gid = 0, tu_left = (\<lambda>_. int run_cnt), tu_pc = (\<lambda>_. M_loop), tu_log = []\<rparr>"

definition tu_free :: "turns \<Rightarrow> bool" where
  "tu_free s \<longleftrightarrow> (\<forall>j<2. tu_pc s j \<noteq> M_check)"

text \<open>\<^verbatim>\<open>notify_one\<close> wakes some sleeper if there is one.\<close>

definition notifies_one :: "(nat \<Rightarrow> mo_pc) \<Rightarrow> (nat \<Rightarrow> mo_pc) \<Rightarrow> bool" where
  "notifies_one p p' \<longleftrightarrow>
     (if \<exists>j<2. p j = M_asleep then \<exists>j<2. p j = M_asleep \<and> p' = p(j := M_woken) else p' = p)"

text \<open>One turn: \<^verbatim>\<open>gid\<close> goes on, \<^verbatim>\<open>run_cnt\<close> is counted down, the end of the scope gives the mutex up.\<close>

definition take_turn :: "nat \<Rightarrow> turns \<Rightarrow> (nat \<Rightarrow> mo_pc) \<Rightarrow> turns" where
  "take_turn i s p' =
     s\<lparr>tu_gid := (tu_gid s + 1) mod 2, tu_left := (tu_left s)(i := tu_left s i - 1), tu_pc := p'(i := M_loop), tu_log := tu_log s @ [i]\<rparr>"

inductive turn_step :: "bool \<Rightarrow> turns \<Rightarrow> turns \<Rightarrow> bool" where
  t_lock: "i < 2 \<Longrightarrow> tu_pc s i = M_loop \<Longrightarrow> tu_left s i > 0 \<Longrightarrow> tu_free s \<Longrightarrow> turn_step False s (s\<lparr>tu_pc := (tu_pc s)(i := M_check)\<rparr>)"
| t_end: "i < 2 \<Longrightarrow> tu_pc s i = M_loop \<Longrightarrow> \<not> tu_left s i > 0 \<Longrightarrow> turn_step False s (s\<lparr>tu_pc := (tu_pc s)(i := M_done)\<rparr>)"
| t_sleep: "i < 2 \<Longrightarrow> tu_pc s i = M_check \<Longrightarrow> int i \<noteq> tu_gid s \<Longrightarrow> turn_step False s (s\<lparr>tu_pc := (tu_pc s)(i := M_asleep)\<rparr>)"
| t_turn: "i < 2 \<Longrightarrow> tu_pc s i = M_check \<Longrightarrow> int i = tu_gid s \<Longrightarrow> notifies_one (tu_pc s) p' \<Longrightarrow> turn_step False s (take_turn i s p')"
| t_relock: "i < 2 \<Longrightarrow> tu_pc s i = M_woken \<Longrightarrow> tu_free s \<Longrightarrow> turn_step False s (s\<lparr>tu_pc := (tu_pc s)(i := M_check)\<rparr>)"
| t_spurious: "i < 2 \<Longrightarrow> tu_pc s i = M_asleep \<Longrightarrow> turn_step True s (s\<lparr>tu_pc := (tu_pc s)(i := M_woken)\<rparr>)"

definition turn_moves :: "turns \<Rightarrow> turns \<Rightarrow> bool" where
  "turn_moves s t \<longleftrightarrow> (\<exists>b. turn_step b s t)"

section \<open>What stays true\<close>

text \<open>The \<open>k\<close>-th turn is taken by participant \<open>k mod 2\<close>; after \<open>l\<close> turns participant \<open>i\<close> has had \<open>(l + 1 - i) div 2\<close> of them.\<close>

definition alternating :: "nat \<Rightarrow> nat list" where
  "alternating l = map (\<lambda>k. k mod 2) [0..<l]"

definition turns_of :: "nat \<Rightarrow> nat \<Rightarrow> int" where
  "turns_of i l = int ((l + 1 - i) div 2)"

definition turn_inv :: "nat \<Rightarrow> turns \<Rightarrow> bool" where
  "turn_inv n s \<longleftrightarrow>
     tu_log s = alternating (length (tu_log s)) \<and> int (length (tu_log s) mod 2) = tu_gid s \<and>
     (\<forall>i<2. tu_left s i + turns_of i (length (tu_log s)) = int n \<and> 0 \<le> tu_left s i \<and>
       (tu_pc s i \<in> {M_check, M_asleep, M_woken} \<longrightarrow> 0 < tu_left s i) \<and> (tu_pc s i = M_done \<longrightarrow> tu_left s i = 0) \<and>
       (tu_pc s i = M_asleep \<longrightarrow> tu_gid s \<noteq> int i)) \<and>
     \<not> (tu_pc s 0 = M_check \<and> tu_pc s 1 = M_check)"

lemma all_less_2: "(\<forall>i<2::nat. P i) \<longleftrightarrow> P 0 \<and> P 1"
  by (auto simp: less_2_cases_iff)

lemma ex_less_2: "(\<exists>i<2::nat. P i) \<longleftrightarrow> P 0 \<or> P 1"
  using all_less_2 [of "\<lambda>i. \<not> P i"] by blast

lemma less_2E [consumes 1, case_names zero one]: "i < (2::nat) \<Longrightarrow> (i = 0 \<Longrightarrow> P) \<Longrightarrow> (i = 1 \<Longrightarrow> P) \<Longrightarrow> P"
  by (auto simp: less_2_cases_iff)

lemma length_alternating [simp]: "length (alternating l) = l"
  by (simp add: alternating_def)

lemma alternating_snoc: "alternating (Suc l) = alternating l @ [l mod 2]"
  by (simp add: alternating_def)

lemma turns_of_Suc: "i < 2 \<Longrightarrow> turns_of i (Suc l) = turns_of i l + (if l mod 2 = i then 1 else 0)"
  unfolding turns_of_def by (erule less_2E; presburger)

text \<open>With two participants \<^verbatim>\<open>notify_one\<close> wakes the other one when it sleeps.\<close>

lemma notifies_other:
  assumes "notifies_one p p'" and "i < 2" and "p i = M_check"
  shows "p' = p(1 - i := notified (p (1 - i)))"
  using assms(2)
proof (cases rule: less_2E)
  case zero with assms show ?thesis by (cases "p 1 = M_asleep") (simp_all add: notifies_one_def ex_less_2 notified_def)
next
  case one with assms show ?thesis by (cases "p 0 = M_asleep") (simp_all add: notifies_one_def ex_less_2 notified_def)
qed

lemma notifies_one_total: "\<exists>p'. notifies_one p p'"
  by (auto simp: notifies_one_def)

lemma turn_inv_step: "turn_step b s t \<Longrightarrow> turn_inv n s \<Longrightarrow> turn_inv n t"
proof (induction rule: turn_step.induct)
  case (t_turn i s p')
  let ?l = "length (tu_log s)"
  have l: "tu_log s = alternating ?l" "?l mod 2 = i" using t_turn(3,5) by (auto simp: turn_inv_def)
  then have log: "tu_log s @ [i] = alternating (Suc ?l)" by (simp add: alternating_snoc)
  note of_Suc = turns_of_Suc [of 0 ?l] turns_of_Suc [of 1 ?l]
  show ?case using t_turn(1)
  proof (cases rule: less_2E)
    case zero
    then have "Suc ?l mod 2 = 1" using l(2) by presburger
    then show ?thesis using t_turn(2,3,5) zero l(2) log notifies_other [OF t_turn(4,1,2)] of_Suc
      by (auto simp: turn_inv_def take_turn_def notified_def all_less_2)
  next
    case one
    then have "Suc ?l mod 2 = 0" using l(2) by presburger
    then show ?thesis using t_turn(2,3,5) one l(2) log notifies_other [OF t_turn(4,1,2)] of_Suc
      by (auto simp: turn_inv_def take_turn_def notified_def all_less_2)
  qed
qed (erule less_2E; simp add: turn_inv_def tu_free_def all_less_2)+

interpretation tur: step_system "\<lambda>s. s = turn_start n" turn_moves "turn_inv n"
proof unfold_locales
  show "turn_inv n s" if "s = turn_start n" for s using that by (simp add: turn_inv_def turn_start_def alternating_def turns_of_def all_less_2)
  show "turn_inv n t" if "turn_inv n s" "turn_moves s t" for s t using that by (auto simp: turn_moves_def intro: turn_inv_step)
qed

definition turns_finished :: "nat \<Rightarrow> turns \<Rightarrow> bool" where
  "turns_finished n s \<longleftrightarrow> tu_pc s 0 = M_done \<and> tu_pc s 1 = M_done \<and> tu_log s = alternating (2 * n)"

lemma turn_progress:
  assumes inv: "turn_inv n s" and "\<not> turns_finished n s"
  shows "\<exists>t. turn_step False s t"
proof (rule ccontr)
  assume stuck: "\<nexists>t. turn_step False s t"
  have no: "tu_pc s i \<noteq> M_check" if "i < 2" for i
    using stuck t_sleep [OF that, of s] t_turn [OF that, of s] notifies_one_total [of "tu_pc s"] by blast
  then have free: "tu_free s" by (simp add: tu_free_def)
  have "tu_pc s i \<in> {M_asleep, M_done}" if "i < 2" for i
    using stuck no [OF that] free t_lock [OF that, of s] t_end [OF that, of s] t_relock [OF that, of s] mo_pc.exhaust [of "tu_pc s i"] by blast
  then have pc: "tu_pc s 0 \<in> {M_asleep, M_done}" "tu_pc s 1 \<in> {M_asleep, M_done}" by simp_all
  let ?l = "length (tu_log s)"
  have i: "int (?l mod 2) = tu_gid s" "tu_log s = alternating ?l" "tu_left s 0 + turns_of 0 ?l = int n" "tu_left s 1 + turns_of 1 ?l = int n"
    "0 \<le> tu_left s 0" "0 \<le> tu_left s 1"
    "tu_pc s 0 = M_asleep \<longrightarrow> 0 < tu_left s 0 \<and> tu_gid s \<noteq> 0" "tu_pc s 1 = M_asleep \<longrightarrow> 0 < tu_left s 1 \<and> tu_gid s \<noteq> 1"
    "tu_pc s 0 = M_done \<longrightarrow> tu_left s 0 = 0" "tu_pc s 1 = M_done \<longrightarrow> tu_left s 1 = 0" using inv unfolding turn_inv_def all_less_2 by simp_all
  have l: "turns_of 0 ?l = int ((?l + 1) div 2)" "turns_of 1 ?l = int (?l div 2)" by (simp_all add: turns_of_def)
  have "?l mod 2 = 0 \<or> ?l mod 2 = 1" by presburger
  then have "?l = 2 * n \<and> tu_pc s 0 = M_done \<and> tu_pc s 1 = M_done"
  proof
    assume e: "?l mod 2 = 0"
    then have "tu_pc s 0 = M_done" using i(1,7) pc by simp
    then have "?l = 2 * n" "tu_left s 1 = 0" using i(3,4,9) l e by presburger+
    then show ?thesis using i(8) pc \<open>tu_pc s 0 = M_done\<close> by simp
  next
    assume e: "?l mod 2 = 1"
    then have "tu_pc s 1 = M_done" using i(1,8) pc by simp
    then show ?thesis using i(3,4,5,10) l e by presburger
  qed
  then show False using assms(2) i(2) by (simp add: turns_finished_def)
qed

section \<open>Every run ends\<close>

definition turn_left :: "turns \<Rightarrow> nat" where
  "turn_left s = 5 * nat (tu_left s 0 + tu_left s 1) + pc_weight (tu_pc s 0) + pc_weight (tu_pc s 1)"

lemma turn_step_left:
  "turn_step b s t \<Longrightarrow> turn_inv n s \<Longrightarrow> if b then turn_left t = turn_left s + 2 else turn_left t < turn_left s"
proof (induction rule: turn_step.induct)
  case (t_turn i s p')
  show ?case using t_turn(1)
  proof (cases rule: less_2E)
    case zero
    have "0 < tu_left s 0" "0 \<le> tu_left s 1" using t_turn(2,5) zero by (simp_all add: turn_inv_def all_less_2)
    then show ?thesis using t_turn(2) zero notifies_other [OF t_turn(4,1,2)] notified_weight [of "tu_pc s 1"]
      by (simp add: turn_left_def take_turn_def pc_weight_def [of M_loop] pc_weight_def [of M_check])
  next
    case one
    have "0 < tu_left s 1" "0 \<le> tu_left s 0" using t_turn(2,5) one by (simp_all add: turn_inv_def all_less_2)
    then show ?thesis using t_turn(2) one notifies_other [OF t_turn(4,1,2)] notified_weight [of "tu_pc s 0"]
      by (simp add: turn_left_def take_turn_def pc_weight_def [of M_loop] pc_weight_def [of M_check])
  qed
qed (erule less_2E; simp add: turn_left_def pc_weight_def)+

text \<open>The two participants take turns: under every interleaving and any spurious wake-ups they never are in the critical section
  together, the turns alternate beginning with participant 0, and each has as many turns left as \<^verbatim>\<open>run_cnt\<close> says. No
  notification is lost: until both have had all their turns one of them can go on without a spurious wake-up, and without them at most
  ten steps per round and eight more are possible.\<close>

theorem turns_alternate:
  assumes "reachable (\<lambda>s. s = turn_start n) turn_moves s"
  shows "tu_log s = alternating (length (tu_log s)) \<and> (\<forall>i<2. tu_left s i + turns_of i (length (tu_log s)) = int n) \<and>
    \<not> (tu_pc s 0 = M_check \<and> tu_pc s 1 = M_check) \<and> (turns_finished n s \<or> (\<exists>t. turn_step False s t)) \<and>
    turn_left (turn_start n) = 10 * n + 8 \<and>
    (\<forall>b t. turn_step b s t \<longrightarrow> (if b then turn_left t = turn_left s + 2 else turn_left t < turn_left s))"
proof -
  have inv: "turn_inv n s" using tur.reachable_inv [OF assms] .
  have "turn_left (turn_start n) = 10 * n + 8" by (simp add: turn_left_def turn_start_def pc_weight_def)
  moreover have "turns_finished n s \<or> (\<exists>t. turn_step False s t)" using turn_progress [OF inv] by blast
  moreover have "\<forall>b t. turn_step b s t \<longrightarrow> (if b then turn_left t = turn_left s + 2 else turn_left t < turn_left s)"
    using turn_step_left [OF _ inv] by blast
  ultimately show ?thesis using inv by (simp add: turn_inv_def)
qed

text \<open>Participant 1 has come first and sleeps; participant 0 takes its turn and wakes it.\<close>

definition first_turn :: turns where
  "first_turn = \<lparr>tu_gid = 1, tu_left = (\<lambda>_. 2)(0 := 1), tu_pc = (\<lambda>_. M_loop)(1 := M_woken), tu_log = [0]\<rparr>"

lemma first_turn_reachable: "reachable (\<lambda>s. s = turn_start 2) turn_moves first_turn"
proof -
  let ?s = "turn_start 2"
  have pcs: "tu_pc ?s = (\<lambda>_. M_loop)" by (simp add: turn_start_def)
  have m1: "turn_moves ?s (?s\<lparr>tu_pc := (tu_pc ?s)(1 := M_check)\<rparr>)"
    unfolding turn_moves_def by (rule exI, rule t_lock) (simp_all add: turn_start_def tu_free_def)
  have m2: "turn_moves (?s\<lparr>tu_pc := (tu_pc ?s)(1 := M_check)\<rparr>) (?s\<lparr>tu_pc := (tu_pc ?s)(1 := M_asleep)\<rparr>)"
    unfolding turn_moves_def using t_sleep [of 1 "?s\<lparr>tu_pc := (tu_pc ?s)(1 := M_check)\<rparr>"] by (auto simp: turn_start_def)
  have m3: "turn_moves (?s\<lparr>tu_pc := (tu_pc ?s)(1 := M_asleep)\<rparr>) (?s\<lparr>tu_pc := (tu_pc ?s)(1 := M_asleep, 0 := M_check)\<rparr>)"
    unfolding turn_moves_def using t_lock [of 0 "?s\<lparr>tu_pc := (tu_pc ?s)(1 := M_asleep)\<rparr>"] by (auto simp: turn_start_def tu_free_def all_less_2)
  let ?p = "(tu_pc ?s)(1 := M_asleep, 0 := M_check)"
  have "notifies_one ?p (?p(1 := M_woken))" by (auto simp: notifies_one_def)
  then have "turn_step False (?s\<lparr>tu_pc := ?p\<rparr>) (take_turn 0 (?s\<lparr>tu_pc := ?p\<rparr>) (?p(1 := M_woken)))"
    by (intro t_turn) (simp_all add: turn_start_def)
  moreover have "take_turn 0 (?s\<lparr>tu_pc := ?p\<rparr>) (?p(1 := M_woken)) = first_turn"
    by (simp add: take_turn_def first_turn_def turn_start_def fun_eq_iff)
  ultimately have m4: "turn_moves (?s\<lparr>tu_pc := ?p\<rparr>) first_turn" by (auto simp: turn_moves_def)
  note step = reach_step [where start = "\<lambda>s. s = ?s" and step = turn_moves]
  have "reachable (\<lambda>s. s = ?s) turn_moves ?s" by (rule reach_start) simp
  from step [OF step [OF step [OF step [OF this m1] m2] m3] m4] show ?thesis .
qed

theorem turns_alternate_witness:
  "tu_log first_turn = alternating 1 \<and> tu_left first_turn 0 + turns_of 0 1 = 2 \<and> (\<exists>t. turn_step False first_turn t)"
proof -
  have "\<not> turns_finished 2 first_turn" by (simp add: turns_finished_def first_turn_def)
  moreover have "length (tu_log first_turn) = 1" by (simp add: first_turn_def)
  ultimately show ?thesis using turns_alternate [OF first_turn_reachable] by auto
qed

end
