(* ===== verification/Thread_Pool.thy ===== *)
theory Thread_Pool
  imports Prelude
begin

text \<open>
  The thread pool of \<^verbatim>\<open>benchtests/bench_helper.hpp\<close> and the benchmarks that run on it with the blocking primitives of the standard
  library: \<^verbatim>\<open>event_bench.cpp\<close>, \<^verbatim>\<open>latch_bench.cpp\<close>, \<^verbatim>\<open>waitgroup_bench.cpp\<close> and \<^verbatim>\<open>mutex_bench.cpp\<close>. The pool is modelled operation by
  operation; its threads, which run their queues concurrently, as the step relation \<open>pool_step\<close>, one access to a
  primitive at a time. A task blocks its whole thread, so the question is whether every task ever gets its turn.
\<close>

section \<open>The pool\<close>

record 'a thread_pool =
  tp_thread_num :: nat
  tp_cur_pos :: nat
  tp_ques :: "'a list list"

definition new_thread_pool :: "nat \<Rightarrow> 'a thread_pool" where
  "new_thread_pool thread_num = \<lparr>tp_thread_num = thread_num, tp_cur_pos = 0, tp_ques = replicate thread_num []\<rparr>"

text \<open>Without threads the queue at the current position does not exist.\<close>

definition pool_submit_task :: "'a \<Rightarrow> 'a thread_pool \<Rightarrow> 'a thread_pool result" where
  "pool_submit_task t p =
     (let i = tp_cur_pos p in
      if i \<ge> length (tp_ques p) then Inl Out_of_bounds
      else Inr (p\<lparr>tp_ques := (tp_ques p)[i := tp_ques p ! i @ [t]], tp_cur_pos := (i + 1) mod tp_thread_num p\<rparr>))"

text \<open>The macro \<^verbatim>\<open>loop_add\<close>, the work of every benchmark task.\<close>

definition loop_add :: "nat \<Rightarrow> 64 word" where
  "loop_add loop_num = fold (\<lambda>i cnt. cnt + 1) [0..<loop_num] 0"

section \<open>Tasks and their threads\<close>

text \<open>\<open>Count_task\<close> is \<^verbatim>\<open>set_tp\<close>, \<^verbatim>\<open>countdown_tp\<close> and their coroutine versions: \<open>loop_add\<close>, then a promise is fulfilled or a latch counted down;
  \<open>Wait_task\<close> waits for it, then adds; \<open>Add_task\<close> locks a \<^verbatim>\<open>std::mutex\<close>, adds and unlocks, with \<open>Add_locked\<close> its part inside.\<close>

datatype task_pc = Count_task | Wait_task | Add_task | Add_locked

record pool_machine =
  pm_ques :: "nat \<Rightarrow> task_pc list"
  pm_run :: "nat \<Rightarrow> task_pc option"
  pm_count :: nat
  pm_holder :: "nat option"

text \<open>\<^verbatim>\<open>start\<close>: thread \<open>i\<close> runs \<^verbatim>\<open>run(i)\<close>; a latch counts as many tasks as count it down, a promise one.\<close>

definition pool_start :: "task_pc thread_pool \<Rightarrow> pool_machine" where
  "pool_start p =
     \<lparr>pm_ques = (\<lambda>i. if i < length (tp_ques p) then tp_ques p ! i else []), pm_run = (\<lambda>i. None),
      pm_count = count_list (concat (tp_ques p)) Count_task, pm_holder = None\<rparr>"

definition pool_end_task :: "nat \<Rightarrow> pool_machine \<Rightarrow> pool_machine" where
  "pool_end_task i s = s\<lparr>pm_run := (pm_run s)(i := None)\<rparr>"

text \<open>\<^verbatim>\<open>run(i)\<close> takes the front task off the queue and then runs it.\<close>

inductive pool_step :: "nat \<Rightarrow> pool_machine \<Rightarrow> pool_machine \<Rightarrow> bool" for N :: nat where
  take: "i < N \<Longrightarrow> pm_run s i = None \<Longrightarrow> pm_ques s i = t # ts \<Longrightarrow>
    pool_step N s (s\<lparr>pm_run := (pm_run s)(i := Some t), pm_ques := (pm_ques s)(i := ts)\<rparr>)"
| count_down: "i < N \<Longrightarrow> pm_run s i = Some Count_task \<Longrightarrow> 0 < pm_count s \<Longrightarrow>
    pool_step N s (pool_end_task i (s\<lparr>pm_count := pm_count s - 1\<rparr>))"
| waited: "i < N \<Longrightarrow> pm_run s i = Some Wait_task \<Longrightarrow> pm_count s = 0 \<Longrightarrow> pool_step N s (pool_end_task i s)"
| lock: "i < N \<Longrightarrow> pm_run s i = Some Add_task \<Longrightarrow> pm_holder s = None \<Longrightarrow>
    pool_step N s (s\<lparr>pm_run := (pm_run s)(i := Some Add_locked), pm_holder := Some i\<rparr>)"
| unlock: "i < N \<Longrightarrow> pm_run s i = Some Add_locked \<Longrightarrow> pm_holder s = Some i \<Longrightarrow>
    pool_step N s (pool_end_task i (s\<lparr>pm_holder := None\<rparr>))"

section \<open>The benchmarks\<close>

text \<open>The submissions of the drivers, in their order: \<^verbatim>\<open>threadpool_stl_future\<close>, \<^verbatim>\<open>threadpool_stl_latch\<close> (the same twice), \<^verbatim>\<open>threadpool_stl_mutex\<close>.\<close>

definition stl_future_tasks :: "nat \<Rightarrow> task_pc list" where
  "stl_future_tasks thread_num = replicate (thread_num - 1) Wait_task @ [Count_task]"

definition stl_latch_tasks :: "nat \<Rightarrow> task_pc list" where
  "stl_latch_tasks thread_num =
     (let countdown_num = thread_num div 2; wait_num = thread_num - countdown_num in replicate countdown_num Count_task @ replicate wait_num Wait_task)"

definition stl_waitgroup_tasks :: "nat \<Rightarrow> task_pc list" where
  "stl_waitgroup_tasks thread_num =
     (let countdown_num = thread_num div 2; wait_num = thread_num - countdown_num in replicate countdown_num Count_task @ replicate wait_num Wait_task)"

definition stl_mutex_tasks :: "nat \<Rightarrow> task_pc list" where
  "stl_mutex_tasks thread_num = replicate thread_num Add_task"

text \<open>The pool of a driver with one thread per processor, when it calls \<^verbatim>\<open>start\<close>.\<close>

definition benchmark_pool :: "nat \<Rightarrow> task_pc list \<Rightarrow> task_pc thread_pool result" where
  "benchmark_pool thread_num ts = forE ts pool_submit_task (new_thread_pool thread_num)"

section \<open>Dealing out\<close>

text \<open>The tasks thread \<open>c\<close> gets when \<open>k\<close> tasks were submitted before.\<close>

primrec dealt :: "nat \<Rightarrow> nat \<Rightarrow> 'a list \<Rightarrow> nat \<Rightarrow> 'a list" where
  "dealt n k [] c = []"
| "dealt n k (t # ts) c = (if k mod n = c then [t] else []) @ dealt n (Suc k) ts c"

text \<open>Of at most \<open>n\<close> tasks each goes to a thread of its own.\<close>

lemma dealt_once:
  "k + length ts \<le> n \<Longrightarrow> c < n \<Longrightarrow> dealt n k ts c = (if k \<le> c \<and> c < k + length ts then [ts ! (c - k)] else [])"
proof (induction ts arbitrary: k)
  case (Cons t ts)
  have "k mod n = k" using Cons.prems by simp
  then show ?case using Cons by (cases "c = k") (auto simp: nth_Cons')
qed simp

lemma pool_submits:
  assumes "tp_thread_num p = n" "length (tp_ques p) = n" "tp_cur_pos p = k mod n" "0 < n"
  shows "\<exists>p'. forE ts pool_submit_task p = Inr p' \<and> length (tp_ques p') = n \<and> (\<forall>c < n. tp_ques p' ! c = tp_ques p ! c @ dealt n k ts c)"
  using assms
proof (induction ts arbitrary: p k)
  case (Cons t ts)
  let ?i = "k mod n"
  let ?p = "p\<lparr>tp_ques := (tp_ques p)[?i := tp_ques p ! ?i @ [t]], tp_cur_pos := Suc ?i mod n\<rparr>"
  have i: "?i < n" using Cons.prems(4) by simp
  have sub: "pool_submit_task t p = Inr ?p" using Cons.prems i by (simp add: pool_submit_task_def Let_def)
  from Cons.IH [of ?p "Suc k"] Cons.prems obtain p' where
    p': "forE ts pool_submit_task ?p = Inr p'" "length (tp_ques p') = n" "\<forall>c < n. tp_ques p' ! c = tp_ques ?p ! c @ dealt n (Suc k) ts c"
    by (auto simp: mod_Suc_eq)
  have "tp_ques p' ! c = tp_ques p ! c @ dealt n k (t # ts) c" if "c < n" for c
    using p'(3) that i Cons.prems(2) by (cases "c = ?i") (auto simp: nth_list_update)
  then show ?case using sub p'(1,2) by (intro exI [of _ p']) simp
qed simp

section \<open>Every task gets its turn\<close>

text \<open>What thread \<open>i\<close> still has to do; no thread waits before it counts down.\<close>

definition pm_work :: "pool_machine \<Rightarrow> nat \<Rightarrow> task_pc list" where
  "pm_work s i = (case pm_run s i of None \<Rightarrow> [] | Some t \<Rightarrow> [t]) @ pm_ques s i"

definition counts_first :: "task_pc list \<Rightarrow> bool" where
  "counts_first ts \<longleftrightarrow> sorted_wrt (\<lambda>a b. \<not> (a = Wait_task \<and> b = Count_task)) ts"

definition pool_inv :: "nat \<Rightarrow> pool_machine \<Rightarrow> bool" where
  "pool_inv N s \<longleftrightarrow>
     (\<forall>i. counts_first (pm_work s i) \<and> Add_locked \<notin> set (pm_ques s i)) \<and>
     (\<Sum>i<N. count_list (pm_work s i) Count_task) = pm_count s \<and>
     (\<forall>i. pm_holder s = Some i \<longleftrightarrow> i < N \<and> pm_run s i = Some Add_locked)"

definition pool_finished :: "nat \<Rightarrow> pool_machine \<Rightarrow> bool" where
  "pool_finished N s \<longleftrightarrow> (\<forall>i < N. pm_work s i = [])"

text \<open>The steps left: three per queued task at most.\<close>

definition run_weight :: "task_pc option \<Rightarrow> nat" where
  "run_weight r = (case r of None \<Rightarrow> 0 | Some Add_task \<Rightarrow> 2 | Some _ \<Rightarrow> 1)"

definition pool_left :: "nat \<Rightarrow> pool_machine \<Rightarrow> nat" where
  "pool_left N s = (\<Sum>i<N. 3 * length (pm_ques s i) + run_weight (pm_run s i))"

lemma sum_at:
  fixes f g :: "nat \<Rightarrow> nat"
  assumes "i < N" and "\<And>j. j \<noteq> i \<Longrightarrow> g j = f j"
  shows "(\<Sum>j<N. g j) + f i = (\<Sum>j<N. f j) + g i"
proof -
  have "(\<Sum>j\<in>{..<N} - {i}. g j) = (\<Sum>j\<in>{..<N} - {i}. f j)" using assms(2) by (intro sum.cong) auto
  then show ?thesis using assms(1) by (simp add: sum.remove [of "{..<N}" i])
qed

lemma pool_left_less:
  assumes "i < N" and "\<And>j. j \<noteq> i \<Longrightarrow> pm_ques t j = pm_ques s j \<and> pm_run t j = pm_run s j"
    and "3 * length (pm_ques t i) + run_weight (pm_run t i) < 3 * length (pm_ques s i) + run_weight (pm_run s i)"
  shows "pool_left N t < pool_left N s"
  using assms(3) sum_at [OF assms(1), of "\<lambda>j. 3 * length (pm_ques t j) + run_weight (pm_run t j)" "\<lambda>j. 3 * length (pm_ques s j) + run_weight (pm_run s j)"]
    assms(2) by (simp add: pool_left_def)

lemma pool_step_left: "pool_step N s t \<Longrightarrow> pool_left N t < pool_left N s"
proof (induction rule: pool_step.induct)
  case (take i s t ts)
  then show ?case by (intro pool_left_less [of i]) (auto simp: run_weight_def split: task_pc.split)
qed (rule pool_left_less, assumption, auto simp: run_weight_def pool_end_task_def)+

lemma pool_inv_step:
  assumes "pool_inv N s" and "pool_step N s t"
  shows "pool_inv N t"
proof -
  have inv: "\<And>j. counts_first (pm_work s j)" "\<And>j. Add_locked \<notin> set (pm_ques s j)" "(\<Sum>i<N. count_list (pm_work s i) Count_task) = pm_count s"
    "\<And>j. pm_holder s = Some j \<longleftrightarrow> j < N \<and> pm_run s j = Some Add_locked" using assms(1) by (auto simp: pool_inv_def)
  have sum: "(\<Sum>j<N. count_list (pm_work t j) Count_task) + count_list (pm_work s i) Count_task = pm_count s + count_list (pm_work t i) Count_task"
    if "i < N" "\<And>j. j \<noteq> i \<Longrightarrow> pm_work t j = pm_work s j" for i
    using sum_at [OF that(1), of "\<lambda>j. count_list (pm_work t j) Count_task" "\<lambda>j. count_list (pm_work s j) Count_task"] that(2) inv(3) by simp
  have same: "pm_work t j = pm_work s j" if "pm_ques t j = pm_ques s j" "pm_run t j = pm_run s j" for j using that by (simp add: pm_work_def)
  from assms(2) show ?thesis
  proof cases
    case (take i x ts)
    then have w: "pm_work t j = pm_work s j" for j by (cases "j = i") (auto simp: pm_work_def)
    have "x \<noteq> Add_locked" using inv(2) [of i] take by auto
    then show ?thesis using take inv unfolding pool_inv_def w by (auto split: if_splits) (metis set_subset_Cons subsetD)+
  next
    case (count_down i)
    then have w: "pm_work s i = Count_task # pm_work t i" "\<And>j. j \<noteq> i \<Longrightarrow> pm_work t j = pm_work s j"
      by (auto simp: pm_work_def pool_end_task_def)
    have "counts_first (pm_work t j)" for j using inv(1) [of j] w by (cases "j = i") (auto simp: counts_first_def)
    then show ?thesis using count_down inv(2,4) sum [OF count_down(2) w(2)] w(1) by (auto simp: pool_inv_def pool_end_task_def split: if_splits)
  next
    case (waited i)
    then have w: "pm_work s i = Wait_task # pm_work t i" "\<And>j. j \<noteq> i \<Longrightarrow> pm_work t j = pm_work s j"
      by (auto simp: pm_work_def pool_end_task_def)
    have "counts_first (pm_work t j)" for j using inv(1) [of j] w by (cases "j = i") (auto simp: counts_first_def)
    then show ?thesis using waited inv(2,4) sum [OF waited(2) w(2)] w(1) by (auto simp: pool_inv_def pool_end_task_def split: if_splits)
  next
    case (lock i)
    then have w: "pm_work s i = Add_task # pm_ques s i" "pm_work t i = Add_locked # pm_ques s i" "\<And>j. j \<noteq> i \<Longrightarrow> pm_work t j = pm_work s j"
      by (auto simp: pm_work_def)
    have "counts_first (pm_work t j)" for j using inv(1) [of j] w by (cases "j = i") (auto simp: counts_first_def)
    then show ?thesis using lock inv(2,4) sum [OF lock(2) w(3)] w(1,2) by (auto simp: pool_inv_def split: if_splits)
  next
    case (unlock i)
    then have w: "pm_work s i = Add_locked # pm_work t i" "\<And>j. j \<noteq> i \<Longrightarrow> pm_work t j = pm_work s j"
      by (auto simp: pm_work_def pool_end_task_def)
    have "counts_first (pm_work t j)" for j using inv(1) [of j] w by (cases "j = i") (auto simp: counts_first_def)
    moreover have "\<not> (j < N \<and> pm_run s j = Some Add_locked)" if "j \<noteq> i" for j using inv(4) [of j] unlock(4) that by simp
    ultimately show ?thesis using unlock inv(2) sum [OF unlock(2) w(2)] w(1) by (auto simp: pool_inv_def pool_end_task_def split: if_splits)
  qed
qed

interpretation pool: step_system "\<lambda>s. pool_inv N s" "pool_step N" "pool_inv N"
  by unfold_locales (auto intro: pool_inv_step)

text \<open>A state in which nobody can go on has nothing left to do.\<close>

lemma pool_progress:
  assumes "pool_inv N s" and "\<not> pool_finished N s"
  shows "\<exists>t. pool_step N s t"
proof (rule ccontr)
  assume stuck: "\<nexists>t. pool_step N s t"
  have inv: "\<And>j. counts_first (pm_work s j)" "(\<Sum>i<N. count_list (pm_work s i) Count_task) = pm_count s"
    "\<And>j. pm_holder s = Some j \<longleftrightarrow> j < N \<and> pm_run s j = Some Add_locked" using assms(1) by (auto simp: pool_inv_def)
  have idle: "pm_ques s i = []" if "i < N" "pm_run s i = None" for i
    using stuck take [OF that(1,2)] by (cases "pm_ques s i") auto
  have free: "pm_run s i \<noteq> Some Add_locked" if "i < N" for i using stuck unlock [OF that] inv(3) that by blast
  then have "pm_holder s = None" using inv(3) by (cases "pm_holder s") auto
  then have add: "pm_run s i \<noteq> Some Add_task" if "i < N" for i using stuck lock [OF that] by blast
  have wait: "pm_run s i = Some Count_task \<or> pm_run s i = Some Wait_task" if "i < N" "pm_work s i \<noteq> []" for i
    using that idle [OF that(1)] free [OF that(1)] add [OF that(1)] by (auto simp: pm_work_def split: option.splits) (metis task_pc.exhaust)
  have no_count: "count_list (pm_work s i) Count_task = 0" if "i < N" for i
  proof (cases "pm_run s i = Some Count_task")
    case True
    then have "0 < count_list (pm_work s i) Count_task" by (simp add: pm_work_def)
    also have "\<dots> \<le> pm_count s" using inv(2) that member_le_sum [of i "{..<N}" "\<lambda>i. count_list (pm_work s i) Count_task"] by auto
    finally show ?thesis using stuck count_down [OF that True] by blast
  next
    case False
    then have "pm_work s i = [] \<or> pm_work s i = Wait_task # pm_ques s i"
      using wait [OF that] by (cases "pm_work s i = []") (simp_all add: pm_work_def)
    then show ?thesis using inv(1) [of i] by (auto simp: counts_first_def count_list_0_iff)
  qed
  then have "pm_count s = 0" using inv(2) by (metis (no_types, lifting) lessThan_iff sum.neutral)
  moreover obtain i where i: "i < N" "pm_work s i \<noteq> []" using assms(2) by (auto simp: pool_finished_def)
  ultimately show False using wait [OF i] no_count [OF i(1)] waited [OF i(1)] stuck
    by (auto simp: pm_work_def)
qed

lemma count_concat: "count_list (concat xss) x = (\<Sum>i<length xss. count_list (xss ! i) x)"
proof -
  have "count_list (concat xss) x = sum_list (map (\<lambda>xs. count_list xs x) xss)" by (induction xss) simp_all
  then show ?thesis by (simp add: sum_list_sum_nth atLeast0LessThan)
qed

lemma pool_start_inv:
  assumes "length (tp_ques p) = n" and "\<forall>c < n. tp_ques p ! c = [ts ! c]" and "\<forall>c < n. ts ! c \<noteq> Add_locked"
  shows "pool_inv n (pool_start p) \<and> pool_left n (pool_start p) = 3 * n"
  using assms by (auto simp: pool_inv_def pool_start_def pm_work_def counts_first_def count_concat pool_left_def run_weight_def)

lemma pool_runs_end: "(pool_step N ^^ k) s t \<Longrightarrow> pool_left N t + k \<le> pool_left N s"
proof (induction k arbitrary: t)
  case (Suc k)
  then obtain u where "(pool_step N ^^ k) s u" "pool_step N u t" by auto
  with Suc.IH [of u] pool_step_left [of N u t] show ?case by simp
qed simp

lemma benchmark_tasks:
  assumes "0 < n" and "ts \<in> {stl_future_tasks n, stl_latch_tasks n, stl_waitgroup_tasks n, stl_mutex_tasks n}"
  shows "length ts = n" and "c < n \<Longrightarrow> ts ! c \<noteq> Add_locked"
proof -
  show len: "length ts = n" using assms by (auto simp: stl_future_tasks_def stl_latch_tasks_def stl_waitgroup_tasks_def stl_mutex_tasks_def Let_def)
  have "Add_locked \<notin> set ts"
    using assms(2) by (auto simp: stl_future_tasks_def stl_latch_tasks_def stl_waitgroup_tasks_def stl_mutex_tasks_def Let_def)
  then show "ts ! c \<noteq> Add_locked" if "c < n" using that len by (metis nth_mem)
qed



end
