(* ===== verification/Fifo_Lock.thy ===== *)
theory Fifo_Lock
  imports Prelude
begin

text \<open>
  The contract of a lock that is handed over in the order of arrival. \<open>acquire a\<close> answers whether the
  requester \<open>a\<close> has to wait, \<open>release\<close> who holds the lock next, if anybody. \<open>held q\<close>: the lock is
  taken and \<open>q\<close> waits, in this order; \<open>able a\<close>: \<open>a\<close> may request it. \<open>Mutex\<close> interprets the contract
  for the coroutine mutex.
\<close>

fun acquire_all :: "(addr \<Rightarrow> 'w \<Rightarrow> (bool \<times> 'w) result) \<Rightarrow> addr list \<Rightarrow> 'w \<Rightarrow> (bool list \<times> 'w) result" where
  "acquire_all acquire [] w = Inr ([], w)"
| "acquire_all acquire (a # as) w =
     bindE (acquire a w) (\<lambda>(b, w1). bindE (acquire_all acquire as w1) (\<lambda>(bs, w2). Inr (b # bs, w2)))"

fun release_n :: "('w \<Rightarrow> (addr option \<times> 'w) result option) \<Rightarrow> nat \<Rightarrow> 'w \<Rightarrow> (addr option list \<times> 'w) result option" where
  "release_n release 0 w = Some (Inr ([], w))"
| "release_n release (Suc n) w =
     (case release w of
        Some (Inr (x, w1)) \<Rightarrow>
          (case release_n release n w1 of Some (Inr (xs, w2)) \<Rightarrow> Some (Inr (x # xs, w2)) | r \<Rightarrow> r)
      | Some (Inl err) \<Rightarrow> Some (Inl err)
      | None \<Rightarrow> None)"

locale fifo_lock =
  fixes acquire :: "addr \<Rightarrow> 'w \<Rightarrow> (bool \<times> 'w) result"
    and release :: "'w \<Rightarrow> (addr option \<times> 'w) result option"
    and free :: "'w \<Rightarrow> bool"
    and held :: "addr list \<Rightarrow> 'w \<Rightarrow> bool"
    and able :: "addr \<Rightarrow> 'w \<Rightarrow> bool"
  assumes acquire_free: "free w \<Longrightarrow> able a w \<Longrightarrow>
      \<exists>w'. acquire a w = Inr (False, w') \<and> held [] w' \<and> (\<forall>b. able b w \<longrightarrow> able b w')"
    and acquire_held: "held q w \<Longrightarrow> able a w \<Longrightarrow> a \<notin> set q \<Longrightarrow>
      \<exists>w'. acquire a w = Inr (True, w') \<and> held (q @ [a]) w' \<and> (\<forall>b. able b w \<longrightarrow> able b w')"
    and release_last: "held [] w \<Longrightarrow> \<exists>w'. release w = Some (Inr (None, w')) \<and> free w'"
    and release_next: "held (a # q) w \<Longrightarrow> \<exists>w'. release w = Some (Inr (Some a, w')) \<and> held q w'"
begin

lemma acquire_all_held:
  "held q w \<Longrightarrow> (\<forall>a \<in> set as. able a w) \<Longrightarrow> distinct (q @ as) \<Longrightarrow>
    \<exists>w'. acquire_all acquire as w = Inr (replicate (length as) True, w') \<and> held (q @ as) w'"
proof (induction as arbitrary: q w)
  case (Cons a as)
  from acquire_held [OF Cons.prems(1), of a] Cons.prems obtain w1 where
    w1: "acquire a w = Inr (True, w1)" "held (q @ [a]) w1" "\<forall>b. able b w \<longrightarrow> able b w1" by auto
  with Cons.IH [OF w1(2)] Cons.prems show ?case by auto
qed auto

lemma release_all:
  "held q w \<Longrightarrow> \<exists>w'. release_n release (Suc (length q)) w = Some (Inr (map Some q @ [None], w')) \<and> free w'"
proof (induction q arbitrary: w)
  case Nil
  from release_last [OF Nil] show ?case by auto
next
  case (Cons a q)
  from release_next [OF Cons.prems] obtain w1 where "release w = Some (Inr (Some a, w1))" "held q w1" by blast
  with Cons.IH [of w1] show ?case by auto
qed

text \<open>The first requester of a free lock gets it at once, all others wait, and the releases hand the
  lock to them in the order they came.\<close>

lemma first_come_first_served:
  assumes "free w" and "\<forall>a \<in> set (a # as). able a w" and "distinct as"
  shows "\<exists>w1 w2. acquire_all acquire (a # as) w = Inr (False # replicate (length as) True, w1) \<and>
    release_n release (Suc (length as)) w1 = Some (Inr (map Some as @ [None], w2)) \<and> free w2"
proof -
  from acquire_free [OF assms(1), of a] assms(2) obtain w0 where
    w0: "acquire a w = Inr (False, w0)" "held [] w0" "\<forall>b. able b w \<longrightarrow> able b w0" by auto
  from acquire_all_held [OF w0(2), of as] w0(3) assms obtain w1 where
    w1: "acquire_all acquire as w0 = Inr (replicate (length as) True, w1)" "held as w1" by auto
  from release_all [OF w1(2)] w0(1) w1(1) show ?thesis by auto
qed

end

end
