(* ===== verification/Mutex.thy ===== *)
theory Mutex
  imports Awaiter Fifo_Lock
begin

text \<open>
  The coroutine mutex: \<^verbatim>\<open>include/coro/comp/mutex.hpp\<close>, \<^verbatim>\<open>src/comp/mutex.cpp\<close>,
  \<^verbatim>\<open>include/coro/comp/mutex_guard.hpp\<close>. \<^verbatim>\<open>m_state\<close> is \<open>nolocked\<close> (1), \<open>locked_no_waiting\<close>
  (\<^verbatim>\<open>nullptr\<close>) or the head of the list of awaiters that came last; \<^verbatim>\<open>m_resume_list_head\<close> is the
  list of those that came earlier, oldest first. \<^verbatim>\<open>unlock\<close> ends in the virtual call
  \<^verbatim>\<open>to_resume->resume()\<close>: \<open>unlock_next\<close> is everything before that call, so that the condition variable
  can supply its own override. \<open>mutex_step\<close> is the code with its atomic accesses interleaved.
\<close>

record 'k mworld = "'k aworld" +
  mtx_state :: "addr \<Rightarrow> addr"
  mtx_resume_list :: "addr \<Rightarrow> addr"

definition nolocked :: addr where "nolocked = 1"
definition locked_no_waiting :: addr where "locked_no_waiting = 0"

section \<open>Operations\<close>

definition new_mutex :: "addr \<Rightarrow> ('k, 'z) mworld_scheme \<Rightarrow> ('k, 'z) mworld_scheme" where
  "new_mutex m w = w\<lparr>mtx_state := (mtx_state w)(m := nolocked), mtx_resume_list := (mtx_resume_list w)(m := nullptr)\<rparr>"

definition mutex_dtor :: "addr \<Rightarrow> ('k, 'z) mworld_scheme \<Rightarrow> ('k, 'z) mworld_scheme result" where
  "mutex_dtor m w = (if mtx_state w m = nolocked then Inr w else Inl Assert_failed)"

definition try_lock :: "addr \<Rightarrow> ('k, 'z) mworld_scheme \<Rightarrow> bool \<times> ('k, 'z) mworld_scheme" where
  "try_lock m w =
     (if mtx_state w m = nolocked then (True, w\<lparr>mtx_state := (mtx_state w)(m := locked_no_waiting)\<rparr>) else (False, w))"

text \<open>\<^verbatim>\<open>lock()\<close> and \<^verbatim>\<open>lock_guard()\<close> build the awaiter \<open>a\<close> on the running thread's context.\<close>

definition mutex_lock :: "addr \<Rightarrow> addr \<Rightarrow> ('k, 'z) mworld_scheme \<Rightarrow> ('k, 'z) mworld_scheme result" where
  "mutex_lock m a w = bindE (local_context w) (\<lambda>c. Inr (put_awaiter a (new_awaiter c m) w))"

definition mutex_lock_guard :: "addr \<Rightarrow> addr \<Rightarrow> ('k, 'z) mworld_scheme \<Rightarrow> ('k, 'z) mworld_scheme result" where
  "mutex_lock_guard m a w = mutex_lock m a w"

definition register_lock :: "addr \<Rightarrow> ('k, 'z) mworld_scheme \<Rightarrow> (bool \<times> ('k, 'z) mworld_scheme) result" where
  "register_lock a w =
     bindE (get_awaiter a w) (\<lambda>x.
     let m = a_obj x; state = mtx_state w m in
     if state = nolocked
     then Inr (False, (put_awaiter a (x\<lparr>a_next := nullptr\<rparr>) w)\<lparr>mtx_state := (mtx_state w)(m := locked_no_waiting)\<rparr>)
     else Inr (True, (put_awaiter a (x\<lparr>a_next := state\<rparr>) w)\<lparr>mtx_state := (mtx_state w)(m := a)\<rparr>))"

definition mutex_await_suspend :: "addr \<Rightarrow> handle \<Rightarrow> ('k, 'z) mworld_scheme \<Rightarrow> (bool \<times> ('k, 'z) mworld_scheme) result" where
  "mutex_await_suspend a h w =
     bindE (get_awaiter a w) (\<lambda>x. register_lock a (register_wait 1 (a_ctx x) (put_awaiter a (x\<lparr>a_coro := h\<rparr>) w)))"

definition mutex_await_resume :: "addr \<Rightarrow> ('k, 'z) mworld_scheme \<Rightarrow> ('k, 'z) mworld_scheme result" where
  "mutex_await_resume a w = bindE (get_awaiter a w) (\<lambda>x. Inr (unregister_wait 1 (a_ctx x) w))"

text \<open>\<^verbatim>\<open>mutex_guard_awaiter::await_resume\<close> returns a guard, which is the mutex it will unlock.\<close>

definition guard_await_resume :: "addr \<Rightarrow> ('k, 'z) mworld_scheme \<Rightarrow> (addr \<times> ('k, 'z) mworld_scheme) result" where
  "guard_await_resume a w = bindE (get_awaiter a w) (\<lambda>x. bindE (mutex_await_resume a w) (\<lambda>w1. Inr (a_obj x, w1)))"

definition mutex_resume where
  "mutex_resume K resume a w = submit_awaiter K resume a w"

text \<open>The loop that turns the list of latest arrivals round: \<open>awaiter\<close> is put before \<open>to_resume\<close>.\<close>

partial_function (option) reverse_waiters ::
    "addr \<Rightarrow> addr \<Rightarrow> ('k, 'z) mworld_scheme \<Rightarrow> (addr \<times> ('k, 'z) mworld_scheme) result option" where
  "reverse_waiters awaiter to_resume w =
     (case get_awaiter awaiter w of
        Inl err \<Rightarrow> Some (Inl err)
      | Inr x \<Rightarrow>
          (let w1 = put_awaiter awaiter (x\<lparr>a_next := to_resume\<rparr>) w in
           if a_next x \<noteq> nullptr then reverse_waiters (a_next x) awaiter w1 else Some (Inr (awaiter, w1))))"

text \<open>\<^verbatim>\<open>unlock\<close> up to the call of \<^verbatim>\<open>resume\<close>: the awaiter to resume, or none when the mutex was freed.\<close>

definition pick_next :: "addr \<Rightarrow> addr \<Rightarrow> ('k, 'z) mworld_scheme \<Rightarrow> (addr option \<times> ('k, 'z) mworld_scheme) result" where
  "pick_next m to_resume w =
     (if to_resume = nullptr then Inl Assert_failed
      else bindE (get_awaiter to_resume w) (\<lambda>x. Inr (Some to_resume, w\<lparr>mtx_resume_list := (mtx_resume_list w)(m := a_next x)\<rparr>)))"

definition unlock_next :: "addr \<Rightarrow> ('k, 'z) mworld_scheme \<Rightarrow> (addr option \<times> ('k, 'z) mworld_scheme) result option" where
  "unlock_next m w =
     (if mtx_state w m = nolocked then Some (Inl Assert_failed)
      else if mtx_resume_list w m \<noteq> nullptr then Some (pick_next m (mtx_resume_list w m) w)
      else if mtx_state w m = locked_no_waiting then Some (Inr (None, w\<lparr>mtx_state := (mtx_state w)(m := nolocked)\<rparr>))
      else
        (case reverse_waiters (mtx_state w m) nullptr (w\<lparr>mtx_state := (mtx_state w)(m := locked_no_waiting)\<rparr>) of
           None \<Rightarrow> None
         | Some (Inl err) \<Rightarrow> Some (Inl err)
         | Some (Inr (to_resume, w1)) \<Rightarrow> Some (pick_next m to_resume w1)))"

definition unlock where
  "unlock K resume m w =
     (case unlock_next m w of
        None \<Rightarrow> None
      | Some (Inl err) \<Rightarrow> Some (Inl err)
      | Some (Inr (None, w1)) \<Rightarrow> Some (Inr w1)
      | Some (Inr (Some a, w1)) \<Rightarrow> Some (mutex_resume K resume a w1))"

text \<open>The guard's destructor unlocks; moving a guard copies the reference.\<close>

definition lock_guard_dtor where
  "lock_guard_dtor K resume guard w = unlock K resume guard w"

definition lock_guard_move :: "addr \<Rightarrow> addr \<times> addr" where
  "lock_guard_move other = (other, other)"


section \<open>What the mutex represents\<close>

definition mutex_free :: "addr \<Rightarrow> ('k, 'z) mworld_scheme \<Rightarrow> bool" where
  "mutex_free m w \<longleftrightarrow> mtx_state w m = nolocked \<and> mtx_resume_list w m = nullptr"

definition mutex_held :: "addr \<Rightarrow> addr list \<Rightarrow> ('k, 'z) mworld_scheme \<Rightarrow> bool" where
  "mutex_held m q w \<longleftrightarrow>
     (\<exists>ns rs. waiting (awaiters w) (mtx_state w m) ns \<and> waiting (awaiters w) (mtx_resume_list w m) rs \<and>
        q = rs @ rev ns \<and> distinct q \<and> nolocked \<notin> set q \<and> mtx_state w m \<noteq> nolocked)"

definition mutex_able :: "addr \<Rightarrow> addr \<Rightarrow> ('k, 'z) mworld_scheme \<Rightarrow> bool" where
  "mutex_able m a w \<longleftrightarrow> a \<noteq> nullptr \<and> a \<noteq> nolocked \<and> (\<exists>x. awaiters w a = Some x \<and> a_obj x = m)"

lemma mutex_heldI:
  assumes "waiting (awaiters w) (mtx_state w m) ns" and "waiting (awaiters w) (mtx_resume_list w m) rs"
    and "q = rs @ rev ns" and "distinct q" and "nolocked \<notin> set q" and "mtx_state w m \<noteq> nolocked"
  shows "mutex_held m q w"
  using assms unfolding mutex_held_def by blast

lemma mutex_held_nonnull:
  assumes "mutex_held m q w"
  shows "nullptr \<notin> set q"
proof -
  from assms obtain ns rs where "waiting (awaiters w) (mtx_state w m) ns" "waiting (awaiters w) (mtx_resume_list w m) rs"
    "q = rs @ rev ns" unfolding mutex_held_def by blast
  then show ?thesis using waiting_nonnull by simp
qed

lemma register_lock_free:
  assumes "mutex_free m w" and "mutex_able m a w"
  shows "\<exists>w'. register_lock a w = Inr (False, w') \<and> mutex_held m [] w' \<and> (\<forall>b. mutex_able m b w \<longrightarrow> mutex_able m b w')"
proof -
  from assms(2) obtain x where x: "a \<noteq> nullptr" "awaiters w a = Some x" "a_obj x = m" by (auto simp: mutex_able_def)
  let ?w = "(put_awaiter a (x\<lparr>a_next := nullptr\<rparr>) w)\<lparr>mtx_state := (mtx_state w)(m := locked_no_waiting)\<rparr>"
  have "register_lock a w = Inr (False, ?w)" using assms(1) x by (simp add: register_lock_def mutex_free_def Let_def)
  moreover have "mtx_resume_list ?w = mtx_resume_list w" by (simp add: put_awaiter_def)
  then have "mutex_held m [] ?w"
    using assms(1) by (intro mutex_heldI [of _ _ "[]" "[]"]) (simp_all add: mutex_free_def locked_no_waiting_def nolocked_def)
  moreover have "\<forall>b. mutex_able m b w \<longrightarrow> mutex_able m b ?w" using x by (auto simp: mutex_able_def)
  ultimately show ?thesis by blast
qed

lemma register_lock_held:
  assumes "mutex_held m q w" and "mutex_able m a w" and "a \<notin> set q"
  shows "\<exists>w'. register_lock a w = Inr (True, w') \<and> mutex_held m (q @ [a]) w' \<and> (\<forall>b. mutex_able m b w \<longrightarrow> mutex_able m b w')"
proof -
  from assms(2) obtain x where x: "a \<noteq> nullptr" "a \<noteq> nolocked" "awaiters w a = Some x" "a_obj x = m" by (auto simp: mutex_able_def)
  from assms(1) obtain ns rs where q: "waiting (awaiters w) (mtx_state w m) ns" "waiting (awaiters w) (mtx_resume_list w m) rs"
    "q = rs @ rev ns" "distinct q" "nolocked \<notin> set q" "mtx_state w m \<noteq> nolocked" unfolding mutex_held_def by blast
  let ?w = "(put_awaiter a (x\<lparr>a_next := mtx_state w m\<rparr>) w)\<lparr>mtx_state := (mtx_state w)(m := a)\<rparr>"
  have "register_lock a w = Inr (True, ?w)" using q x by (simp add: register_lock_def Let_def)
  moreover have "mtx_resume_list ?w = mtx_resume_list w" by (simp add: put_awaiter_def)
  then have "mutex_held m (q @ [a]) ?w"
    using q x assms(3) by (intro mutex_heldI [of _ _ "a # ns" rs]) simp_all
  moreover have "\<forall>b. mutex_able m b w \<longrightarrow> mutex_able m b ?w" using x by (auto simp: mutex_able_def)
  ultimately show ?thesis by blast
qed

text \<open>The reversal keeps the awaiters and their coroutines and turns the list round.\<close>

definition same_jobs :: "(addr \<Rightarrow> awaiter option) \<Rightarrow> (addr \<Rightarrow> awaiter option) \<Rightarrow> bool" where
  "same_jobs m m' \<longleftrightarrow> (\<forall>a. map_option (\<lambda>x. x\<lparr>a_next := nullptr\<rparr>) (m' a) = map_option (\<lambda>x. x\<lparr>a_next := nullptr\<rparr>) (m a))"

lemma reverse_waiters_ok:
  "waiting (awaiters w) p (a # ns) \<Longrightarrow> waiting (awaiters w) t rs \<Longrightarrow> set (a # ns) \<inter> set rs = {} \<Longrightarrow>
    \<exists>mm. reverse_waiters p t w = Some (Inr (last (a # ns), w\<lparr>awaiters := mm\<rparr>)) \<and> same_jobs (awaiters w) mm \<and>
      (\<forall>b. b \<notin> set (a # ns) \<longrightarrow> mm b = awaiters w b) \<and> waiting mm (last (a # ns)) (rev (a # ns) @ rs)"
proof (induction ns arbitrary: p a t rs w)
  case Nil
  then obtain x where x: "p = a" "a \<noteq> nullptr" "awaiters w a = Some x" "a_next x = nullptr" by auto
  let ?m = "(awaiters w)(a \<mapsto> x\<lparr>a_next := t\<rparr>)"
  have "reverse_waiters p t w = Some (Inr (a, w\<lparr>awaiters := ?m\<rparr>))"
    using x by (subst reverse_waiters.simps) (simp add: put_awaiter_def Let_def)
  moreover have "same_jobs (awaiters w) ?m" using x by (simp add: same_jobs_def)
  moreover have "\<forall>b. b \<notin> set [a] \<longrightarrow> ?m b = awaiters w b" by simp
  moreover have "waiting ?m a (a # rs)" using Nil x by simp
  moreover have "last [a] = a" "rev [a] @ rs = a # rs" by simp_all
  ultimately show ?case by metis
next
  case (Cons b ns)
  then obtain x where x: "p = a" "a \<noteq> nullptr" "awaiters w a = Some x" "waiting (awaiters w) (a_next x) (b # ns)" by auto
  let ?m = "(awaiters w)(a \<mapsto> x\<lparr>a_next := t\<rparr>)"
  let ?w = "w\<lparr>awaiters := ?m\<rparr>"
  have d: "a \<notin> set (b # ns)" using waiting_distinct [OF Cons.prems(1)] by simp
  have n: "a_next x = b" "b \<noteq> nullptr" using x(4) by auto
  have step: "reverse_waiters p t w = reverse_waiters b a ?w"
    using x n by (subst reverse_waiters.simps) (simp add: put_awaiter_def Let_def)
  have "waiting (awaiters ?w) b (b # ns)" using x(4) n(1) d by (simp del: waiting_Cons)
  moreover have "waiting (awaiters ?w) a (a # rs)" using Cons.prems x by simp
  moreover have "set (b # ns) \<inter> set (a # rs) = {}" using d Cons.prems(3) by auto
  ultimately obtain mm where mm: "reverse_waiters b a ?w = Some (Inr (last (b # ns), ?w\<lparr>awaiters := mm\<rparr>))"
    "same_jobs (awaiters ?w) mm" "waiting mm (last (b # ns)) (rev (b # ns) @ a # rs)"
    "\<forall>c. c \<notin> set (b # ns) \<longrightarrow> mm c = awaiters ?w c"
    using Cons.IH [of ?w b b a "a # rs"] by blast
  have "same_jobs (awaiters w) mm" using mm(2) x(3) by (auto simp: same_jobs_def split: if_splits)
  then show ?case using step mm by (intro exI [of _ mm]) (simp del: waiting_Cons)
qed

lemma unlock_next_last:
  assumes "mutex_held m [] w"
  shows "\<exists>w'. unlock_next m w = Some (Inr (None, w')) \<and> mutex_free m w'"
proof -
  have st: "mtx_state w m = nullptr" "mtx_resume_list w m = nullptr"
    using assms by (auto simp: mutex_held_def)
  then show ?thesis by (simp add: unlock_next_def mutex_free_def nolocked_def locked_no_waiting_def)
qed

text \<open>Handing over to the oldest waiter; the contexts, the other mutexes and the waiters' coroutines are left alone.\<close>

lemma unlock_next_waiter:
  assumes "mutex_held m (a # q) w"
  shows "\<exists>w' mm st rl. unlock_next m w = Some (Inr (Some a, w')) \<and> mutex_held m q w' \<and>
    w' = w\<lparr>awaiters := mm, mtx_state := (mtx_state w)(m := st), mtx_resume_list := (mtx_resume_list w)(m := rl)\<rparr> \<and>
    same_jobs (awaiters w) mm \<and> (\<forall>b. b \<notin> set (a # q) \<longrightarrow> mm b = awaiters w b)"
proof -
  from assms obtain ns rs where q: "waiting (awaiters w) (mtx_state w m) ns" "waiting (awaiters w) (mtx_resume_list w m) rs"
    "a # q = rs @ rev ns" "distinct (a # q)" "nolocked \<notin> set (a # q)" "mtx_state w m \<noteq> nolocked" unfolding mutex_held_def by blast
  show ?thesis
  proof (cases rs)
    case (Cons b rs')
    with q obtain x where x: "b = a" "mtx_resume_list w m = a" "a \<noteq> nullptr" "awaiters w a = Some x" "waiting (awaiters w) (a_next x) rs'" by auto
    let ?w = "w\<lparr>mtx_resume_list := (mtx_resume_list w)(m := a_next x)\<rparr>"
    have "unlock_next m w = Some (Inr (Some a, ?w))" using q x by (simp add: unlock_next_def pick_next_def)
    moreover have "mutex_held m q ?w" using q x Cons by (intro mutex_heldI [of _ _ ns rs']) simp_all
    ultimately show ?thesis
      by (intro exI [of _ ?w] exI [of _ "awaiters w"] exI [of _ "mtx_state w m"] exI [of _ "a_next x"]) (simp add: same_jobs_def)
  next
    case Nil
    then have rl: "mtx_resume_list w m = nullptr" using q by simp
    have "ns = rev q @ [a]" using q(3) Nil by (metis append_Nil rev.simps(2) rev_rev_ident)
    then have ns: "ns \<noteq> []" "last ns = a" "rev ns = a # q" by simp_all
    then obtain n ns' where n: "ns = n # ns'" by (cases ns) auto
    let ?w = "w\<lparr>mtx_state := (mtx_state w)(m := locked_no_waiting)\<rparr>"
    have "waiting (awaiters ?w) (mtx_state w m) (n # ns')" using q(1) n by simp
    from reverse_waiters_ok [OF this, of nullptr "[]"] obtain mm where
      mm: "reverse_waiters (mtx_state w m) nullptr ?w = Some (Inr (a, ?w\<lparr>awaiters := mm\<rparr>))" "same_jobs (awaiters w) mm"
        "waiting mm a (a # q)" "\<forall>b. b \<notin> set ns \<longrightarrow> mm b = awaiters w b"
      using ns n by (auto simp del: waiting_Cons)
    then obtain x where x: "mm a = Some x" "waiting mm (a_next x) q" "a \<noteq> nullptr" by auto
    let ?w' = "?w\<lparr>awaiters := mm, mtx_resume_list := (mtx_resume_list w)(m := a_next x)\<rparr>"
    have "mtx_state w m \<noteq> nullptr" using q(1) n by auto
    then have "unlock_next m w = Some (Inr (Some a, ?w'))"
      using q(6) rl mm(1) x by (simp add: unlock_next_def pick_next_def locked_no_waiting_def)
    moreover have "mutex_held m q ?w'"
      using q(4,5) x by (intro mutex_heldI [of _ _ "[]" q]) (simp_all add: locked_no_waiting_def nolocked_def)
    moreover have "set ns = set (a # q)" using ns(3) by (metis set_rev)
    ultimately show ?thesis using mm(2,4)
      by (intro exI [of _ ?w'] exI [of _ mm] exI [of _ locked_no_waiting] exI [of _ "a_next x"]) simp
  qed
qed

interpretation mtx: fifo_lock register_lock "unlock_next m" "mutex_free m" "mutex_held m" "mutex_able m"
proof unfold_locales
  show "mutex_held m (a # q) w \<Longrightarrow> \<exists>w'. unlock_next m w = Some (Inr (Some a, w')) \<and> mutex_held m q w'" for a q w
    using unlock_next_waiter by blast
qed (fact register_lock_free register_lock_held unlock_next_last)+


section \<open>The mutex under interleaving\<close>

text \<open>
  Any number of coroutines lock and unlock one mutex; each is known by its awaiter. \<open>M_loaded old\<close> is
  between load and compare-and-exchange, \<open>M_unlocking\<close> has failed to free the mutex because
  somebody waits, \<open>M_taken p\<close> has exchanged the list \<open>p\<close> out of \<^verbatim>\<open>m_state\<close>. The reversal touches only
  awaiters of the list that was taken out, which no other thread reaches, and is one step.
  \<open>x_order\<close> and \<open>x_served\<close> record in which order coroutines registered and were handed the lock.
\<close>

datatype mutex_pc = M_start | M_loaded addr | M_waiting | M_holding | M_unlocking | M_taken addr | M_released

record mutex_machine =
  x_state :: addr
  x_next :: "addr \<Rightarrow> addr"
  x_resume :: addr
  x_pc :: "addr \<Rightarrow> mutex_pc"
  x_order :: "addr list"
  x_served :: "addr list"

definition in_section :: "mutex_pc \<Rightarrow> bool" where
  "in_section p = (case p of M_holding \<Rightarrow> True | M_unlocking \<Rightarrow> True | M_taken _ \<Rightarrow> True | _ \<Rightarrow> False)"

definition mutex_start :: "mutex_machine \<Rightarrow> bool" where
  "mutex_start s \<longleftrightarrow> x_state s = nolocked \<and> x_resume s = nullptr \<and> x_pc s = (\<lambda>_. M_start) \<and> x_order s = [] \<and> x_served s = []"

inductive mutex_step :: "mutex_machine \<Rightarrow> mutex_machine \<Rightarrow> bool" where
  load: "a \<noteq> nullptr \<Longrightarrow> a \<noteq> nolocked \<Longrightarrow> x_pc s a = M_start \<Longrightarrow>
    mutex_step s (s\<lparr>x_next := (x_next s)(a := if x_state s = nolocked then nullptr else x_state s),
                    x_pc := (x_pc s)(a := M_loaded (x_state s))\<rparr>)"
| cas_lock: "x_pc s a = M_loaded nolocked \<Longrightarrow> x_state s = nolocked \<Longrightarrow>
    mutex_step s (s\<lparr>x_state := locked_no_waiting, x_pc := (x_pc s)(a := M_holding)\<rparr>)"
| cas_wait: "x_pc s a = M_loaded old \<Longrightarrow> old \<noteq> nolocked \<Longrightarrow> x_state s = old \<Longrightarrow>
    mutex_step s (s\<lparr>x_state := a, x_pc := (x_pc s)(a := M_waiting), x_order := x_order s @ [a]\<rparr>)"
| cas_fail: "x_pc s a = M_loaded old \<Longrightarrow> mutex_step s (s\<lparr>x_pc := (x_pc s)(a := M_start)\<rparr>)"
| hand_over: "x_pc s a = M_holding \<Longrightarrow> x_resume s = b \<Longrightarrow> b \<noteq> nullptr \<Longrightarrow>
    mutex_step s (s\<lparr>x_resume := x_next s b, x_pc := (x_pc s)(a := M_released, b := M_holding), x_served := x_served s @ [b]\<rparr>)"
| unlock_free: "x_pc s a = M_holding \<Longrightarrow> x_resume s = nullptr \<Longrightarrow> x_state s = locked_no_waiting \<Longrightarrow>
    mutex_step s (s\<lparr>x_state := nolocked, x_pc := (x_pc s)(a := M_released)\<rparr>)"
| unlock_busy: "x_pc s a = M_holding \<Longrightarrow> x_resume s = nullptr \<Longrightarrow> x_state s \<noteq> locked_no_waiting \<Longrightarrow>
    mutex_step s (s\<lparr>x_pc := (x_pc s)(a := M_unlocking)\<rparr>)"
| take_list: "x_pc s a = M_unlocking \<Longrightarrow>
    mutex_step s (s\<lparr>x_state := locked_no_waiting, x_pc := (x_pc s)(a := M_taken (x_state s))\<rparr>)"
| reverse_hand_over: "x_pc s a = M_taken p \<Longrightarrow> chain (x_next s) p ts \<Longrightarrow> rev ts = b # bs \<Longrightarrow>
    chain nxt b (b # bs) \<Longrightarrow> (\<forall>c. c \<notin> set ts \<longrightarrow> nxt c = x_next s c) \<Longrightarrow>
    mutex_step s (s\<lparr>x_next := nxt, x_resume := nxt b, x_pc := (x_pc s)(a := M_released, b := M_holding),
                    x_served := x_served s @ [b]\<rparr>)"

text \<open>\<open>ns\<close> is the list in \<^verbatim>\<open>m_state\<close>, \<open>rs\<close> the list to resume, \<open>ts\<close> a list that has been taken out.\<close>

definition mutex_rep :: "addr list \<Rightarrow> addr list \<Rightarrow> addr list \<Rightarrow> mutex_machine \<Rightarrow> bool" where
  "mutex_rep ns rs ts s \<longleftrightarrow>
     (if x_state s = nolocked then ns = [] \<and> rs = [] \<and> ts = [] \<and> (\<forall>a. \<not> in_section (x_pc s a))
      else chain (x_next s) (x_state s) ns \<and> (\<exists>h. \<forall>a. in_section (x_pc s a) \<longleftrightarrow> a = h)) \<and>
     chain (x_next s) (x_resume s) rs \<and>
     (\<forall>a. x_pc s a = M_unlocking \<longrightarrow> rs = [] \<and> x_state s \<noteq> locked_no_waiting) \<and>
     (\<forall>a p. x_pc s a = M_taken p \<longrightarrow> rs = [] \<and> chain (x_next s) p ts \<and> ts \<noteq> []) \<and>
     ((\<forall>a p. x_pc s a \<noteq> M_taken p) \<longrightarrow> ts = [])"

definition mutex_inv :: "mutex_machine \<Rightarrow> bool" where
  "mutex_inv s \<longleftrightarrow>
     (\<exists>ns rs ts. mutex_rep ns rs ts s \<and> x_order s = x_served s @ rs @ rev ts @ rev ns \<and>
        distinct (rs @ ts @ ns) \<and> {a. x_pc s a = M_waiting} = set (rs @ ts @ ns)) \<and>
     (\<forall>a old. x_pc s a = M_loaded old \<longrightarrow> a \<noteq> nullptr \<and> a \<noteq> nolocked \<and> (old \<noteq> nolocked \<longrightarrow> x_next s a = old)) \<and>
     (\<forall>a. x_pc s a = M_waiting \<longrightarrow> a \<noteq> nolocked)"

lemma in_section_simps [simp]:
  "\<not> in_section M_start" "\<not> in_section (M_loaded p)" "\<not> in_section M_waiting" "in_section M_holding"
  "in_section M_unlocking" "in_section (M_taken p)" "\<not> in_section M_released"
  by (simp_all add: in_section_def)

lemma mutex_invI:
  assumes "mutex_rep ns rs ts s" and "x_order s = x_served s @ rs @ rev ts @ rev ns" and "distinct (rs @ ts @ ns)"
    and "{a. x_pc s a = M_waiting} = set (rs @ ts @ ns)"
    and "\<forall>a old. x_pc s a = M_loaded old \<longrightarrow> a \<noteq> nullptr \<and> a \<noteq> nolocked \<and> (old \<noteq> nolocked \<longrightarrow> x_next s a = old)"
    and "\<forall>a. x_pc s a = M_waiting \<longrightarrow> a \<noteq> nolocked"
  shows "mutex_inv s"
  using assms unfolding mutex_inv_def by blast

text \<open>The holder is alone in the critical section, so that nobody else is unlocking.\<close>

lemma mutex_holder:
  assumes rep: "mutex_rep ns rs ts s" and a: "in_section (x_pc s a)"
  shows "x_state s \<noteq> nolocked" and "chain (x_next s) (x_state s) ns"
    and "\<And>b. in_section (x_pc s b) \<longleftrightarrow> b = a" and "\<And>b. b \<noteq> a \<Longrightarrow> \<not> in_section (x_pc s b)"
    and "x_pc s a \<noteq> M_unlocking \<Longrightarrow> x_pc s b \<noteq> M_unlocking"
    and "(\<And>p. x_pc s a \<noteq> M_taken p) \<Longrightarrow> ts = [] \<and> x_pc s b \<noteq> M_taken p"
proof -
  show st: "x_state s \<noteq> nolocked" using rep a by (auto simp: mutex_rep_def)
  then show "chain (x_next s) (x_state s) ns" using rep by (simp add: mutex_rep_def)
  show h: "in_section (x_pc s b) \<longleftrightarrow> b = a" for b using rep a st by (auto simp: mutex_rep_def)
  then show "b \<noteq> a \<Longrightarrow> \<not> in_section (x_pc s b)" for b by simp
  show "x_pc s a \<noteq> M_unlocking \<Longrightarrow> x_pc s b \<noteq> M_unlocking" using h [of b] by auto
  assume nt: "\<And>p. x_pc s a \<noteq> M_taken p"
  then have "x_pc s b \<noteq> M_taken p" for b p using h [of b] by auto
  then show "ts = [] \<and> x_pc s b \<noteq> M_taken p" using rep by (simp add: mutex_rep_def)
qed

lemma mutex_rep_heldI:
  assumes "x_state s \<noteq> nolocked" and "chain (x_next s) (x_state s) ns" and "\<And>a. in_section (x_pc s a) \<longleftrightarrow> a = h"
    and "chain (x_next s) (x_resume s) rs" and "x_pc s h = M_unlocking \<Longrightarrow> rs = [] \<and> x_state s \<noteq> locked_no_waiting"
    and "\<And>p. x_pc s h = M_taken p \<Longrightarrow> rs = [] \<and> chain (x_next s) p ts \<and> ts \<noteq> []"
    and "(\<And>p. x_pc s h \<noteq> M_taken p) \<Longrightarrow> ts = []"
  shows "mutex_rep ns rs ts s"
proof -
  have "a = h" if "x_pc s a = M_unlocking \<or> x_pc s a = M_taken p" for a p using assms(3) [of a] that by auto
  then show ?thesis unfolding mutex_rep_def using assms by metis
qed

lemma mutex_rep_freeI:
  assumes "x_state s = nolocked" and "\<And>a. \<not> in_section (x_pc s a)" and "x_resume s = nullptr"
  shows "mutex_rep [] [] [] s"
proof -
  have "x_pc s a \<noteq> M_unlocking" "x_pc s a \<noteq> M_taken p" for a p using assms(2) [of a] by auto
  then show ?thesis using assms by (simp add: mutex_rep_def)
qed

lemma mutex_rep_frame:
  assumes rep: "mutex_rep ns rs ts s" and "x_state t = x_state s" and "x_resume t = x_resume s"
    and nx: "\<And>c. c \<in> set (rs @ ts @ ns) \<Longrightarrow> x_next t c = x_next s c"
    and "\<And>b. in_section (x_pc t b) = in_section (x_pc s b)" and "\<And>b. x_pc t b = M_unlocking \<longleftrightarrow> x_pc s b = M_unlocking"
    and "\<And>b p. x_pc t b = M_taken p \<longleftrightarrow> x_pc s b = M_taken p"
  shows "mutex_rep ns rs ts t"
proof -
  have "chain (x_next t) q ns = chain (x_next s) q ns" "chain (x_next t) q rs = chain (x_next s) q rs"
    "chain (x_next t) q ts = chain (x_next s) q ts" for q by (rule chain_cong; use nx in simp)+
  with rep show ?thesis unfolding mutex_rep_def assms(2,3,5,6,7) by simp
qed

text \<open>The lists a state of the machine represents, and the facts each step needs of them.\<close>

definition mutex_lists :: "addr list \<Rightarrow> addr list \<Rightarrow> addr list \<Rightarrow> mutex_machine \<Rightarrow> bool" where
  "mutex_lists ns rs ts s \<longleftrightarrow> mutex_rep ns rs ts s \<and> x_order s = x_served s @ rs @ rev ts @ rev ns \<and> distinct (rs @ ts @ ns) \<and>
     {a. x_pc s a = M_waiting} = set (rs @ ts @ ns) \<and>
     (\<forall>a old. x_pc s a = M_loaded old \<longrightarrow> a \<noteq> nullptr \<and> a \<noteq> nolocked \<and> (old \<noteq> nolocked \<longrightarrow> x_next s a = old)) \<and>
     (\<forall>a. x_pc s a = M_waiting \<longrightarrow> a \<noteq> nolocked)"

lemma mutex_listsD:
  assumes "mutex_lists ns rs ts s"
  shows "mutex_rep ns rs ts s" and "x_order s = x_served s @ rs @ rev ts @ rev ns" and "distinct (rs @ ts @ ns)"
    and "{a. x_pc s a = M_waiting} = set (rs @ ts @ ns)"
    and "\<forall>a old. x_pc s a = M_loaded old \<longrightarrow> a \<noteq> nullptr \<and> a \<noteq> nolocked \<and> (old \<noteq> nolocked \<longrightarrow> x_next s a = old)"
    and "\<forall>a. x_pc s a = M_waiting \<longrightarrow> a \<noteq> nolocked"
    and "x_pc s a \<noteq> M_waiting \<Longrightarrow> a \<notin> set (rs @ ts @ ns)"
  using assms unfolding mutex_lists_def by blast+

lemma mutex_inv_load:
  assumes L: "mutex_lists ns rs ts s"
    and load: "t = s\<lparr>x_next := (x_next s)(a := if x_state s = nolocked then nullptr else x_state s), x_pc := (x_pc s)(a := M_loaded (x_state s))\<rparr>"
      "a \<noteq> nullptr"
      "a \<noteq> nolocked"
      "x_pc s a = M_start"
  shows "mutex_inv t"
proof -
  note rep = mutex_listsD(1) [OF L] and od = mutex_listsD(2) [OF L] and di = mutex_listsD(3) [OF L] and wt = mutex_listsD(4) [OF L]
    and ld = mutex_listsD(5) [OF L] and nn = mutex_listsD(6) [OF L] and fr = mutex_listsD(7) [OF L]
  have pc: "{b. x_pc t b = M_waiting} = {b. x_pc s b = M_waiting}" using load by auto
  have "mutex_rep ns rs ts t"
    by (rule mutex_rep_frame [OF rep]) (use load fr [of a] in auto)
  then show ?thesis by (rule mutex_invI) (use load od di wt ld nn pc in auto)
qed

lemma mutex_inv_cas_lock:
  assumes L: "mutex_lists ns rs ts s"
    and cas_lock: "t = s\<lparr>x_state := locked_no_waiting, x_pc := (x_pc s)(a := M_holding)\<rparr>"
      "x_pc s a = M_loaded nolocked"
      "x_state s = nolocked"
  shows "mutex_inv t"
proof -
  note rep = mutex_listsD(1) [OF L] and od = mutex_listsD(2) [OF L] and di = mutex_listsD(3) [OF L] and wt = mutex_listsD(4) [OF L]
    and ld = mutex_listsD(5) [OF L] and nn = mutex_listsD(6) [OF L] and fr = mutex_listsD(7) [OF L]
  have e: "ns = []" "rs = []" "ts = []" "\<forall>b. \<not> in_section (x_pc s b)" using rep cas_lock by (simp_all add: mutex_rep_def)
  have pc: "{b. x_pc t b = M_waiting} = {b. x_pc s b = M_waiting}" using cas_lock by auto
  have "x_resume s = nullptr" using rep e by (simp add: mutex_rep_def)
  then have "mutex_rep [] [] [] t"
    using cas_lock e by (intro mutex_rep_heldI [where h = a]) (auto simp: locked_no_waiting_def nolocked_def)
  then show ?thesis by (rule mutex_invI) (use cas_lock e od di wt ld nn pc in auto)
qed

lemma mutex_inv_cas_wait:
  assumes L: "mutex_lists ns rs ts s"
    and cas_wait: "t = s\<lparr>x_state := a, x_pc := (x_pc s)(a := M_waiting), x_order := x_order s @ [a]\<rparr>"
      "x_pc s a = M_loaded old"
      "old \<noteq> nolocked"
      "x_state s = old"
  shows "mutex_inv t"
proof -
  note rep = mutex_listsD(1) [OF L] and od = mutex_listsD(2) [OF L] and di = mutex_listsD(3) [OF L] and wt = mutex_listsD(4) [OF L]
    and ld = mutex_listsD(5) [OF L] and nn = mutex_listsD(6) [OF L] and fr = mutex_listsD(7) [OF L]
  have a: "a \<noteq> nullptr" "a \<noteq> nolocked" "x_next s a = old" using ld cas_wait by blast+
  have f: "a \<notin> set (rs @ ts @ ns)" using fr [of a] cas_wait by simp
  have pc: "{b. x_pc t b = M_waiting} = insert a {b. x_pc s b = M_waiting}" using cas_wait by auto
  obtain h where hh: "\<And>b. in_section (x_pc s b) \<longleftrightarrow> b = h" using rep cas_wait unfolding mutex_rep_def by metis
  have ah: "h \<noteq> a" using cas_wait hh [of a] by auto
  have sec: "in_section (x_pc t b) \<longleftrightarrow> b = h" for b using cas_wait hh [of b] ah by auto
  have sh: "in_section (x_pc s h)" using hh by simp
  have f: "a \<notin> set (rs @ ts @ ns)" "chain (x_next s) (x_state s) ns"
    using f mutex_holder(2) [OF rep sh] by simp_all
  have g: "chain (x_next s) (x_resume s) rs" "x_pc s h = M_unlocking \<Longrightarrow> rs = []"
    "\<And>p. x_pc s h = M_taken p \<Longrightarrow> rs = [] \<and> chain (x_next s) p ts \<and> ts \<noteq> []"
    using rep unfolding mutex_rep_def by blast+
  have k: "(\<And>p. x_pc s h \<noteq> M_taken p) \<Longrightarrow> ts = []" using mutex_holder(6) [OF rep sh] by blast
  have "mutex_rep (a # ns) rs ts t"
    by (rule mutex_rep_heldI [where h = h])
      (use cas_wait a ah sec f g k in \<open>auto simp: locked_no_waiting_def\<close>)
  then show ?thesis by (rule mutex_invI) (use cas_wait a f od di wt ld nn pc in auto)
qed

lemma mutex_inv_cas_fail:
  assumes L: "mutex_lists ns rs ts s"
    and cas_fail: "t = s\<lparr>x_pc := (x_pc s)(a := M_start)\<rparr>"
      "x_pc s a = M_loaded old"
  shows "mutex_inv t"
proof -
  note rep = mutex_listsD(1) [OF L] and od = mutex_listsD(2) [OF L] and di = mutex_listsD(3) [OF L] and wt = mutex_listsD(4) [OF L]
    and ld = mutex_listsD(5) [OF L] and nn = mutex_listsD(6) [OF L] and fr = mutex_listsD(7) [OF L]
  have pc: "{b. x_pc t b = M_waiting} = {b. x_pc s b = M_waiting}" using cas_fail by auto
  have "mutex_rep ns rs ts t" by (rule mutex_rep_frame [OF rep]) (use cas_fail in auto)
  then show ?thesis by (rule mutex_invI) (use cas_fail od di wt ld nn pc in auto)
qed

lemma mutex_inv_hand_over:
  assumes L: "mutex_lists ns rs ts s"
    and hand_over: "t = s\<lparr>x_resume := x_next s b, x_pc := (x_pc s)(a := M_released, b := M_holding), x_served := x_served s @ [b]\<rparr>"
      "x_pc s a = M_holding"
      "x_resume s = b"
      "b \<noteq> nullptr"
  shows "mutex_inv t"
proof -
  note rep = mutex_listsD(1) [OF L] and od = mutex_listsD(2) [OF L] and di = mutex_listsD(3) [OF L] and wt = mutex_listsD(4) [OF L]
    and ld = mutex_listsD(5) [OF L] and nn = mutex_listsD(6) [OF L] and fr = mutex_listsD(7) [OF L]
  note h = mutex_holder [OF rep, of a]
  have e: "ts = []" using h(6) hand_over by simp
  from rep hand_over obtain rs' where rs: "rs = b # rs'" "chain (x_next s) (x_next s b) rs'"
    unfolding mutex_rep_def using chain_start by metis
  have "b \<in> {c. x_pc s c = M_waiting}" unfolding wt using rs by simp
  then have ba: "b \<noteq> a" using hand_over(2) by auto
  have pc: "{c. x_pc t c = M_waiting} = {c. x_pc s c = M_waiting} - {b}" using hand_over by auto
  have "mutex_rep ns rs' [] t"
    by (rule mutex_rep_heldI [where h = b]) (use h(1-3) hand_over rs ba in auto)
  then show ?thesis by (rule mutex_invI) (use hand_over e rs od di wt ld nn pc in auto)
qed

lemma mutex_inv_unlock_free:
  assumes L: "mutex_lists ns rs ts s"
    and unlock_free: "t = s\<lparr>x_state := nolocked, x_pc := (x_pc s)(a := M_released)\<rparr>"
      "x_pc s a = M_holding"
      "x_resume s = nullptr"
      "x_state s = locked_no_waiting"
  shows "mutex_inv t"
proof -
  note rep = mutex_listsD(1) [OF L] and od = mutex_listsD(2) [OF L] and di = mutex_listsD(3) [OF L] and wt = mutex_listsD(4) [OF L]
    and ld = mutex_listsD(5) [OF L] and nn = mutex_listsD(6) [OF L] and fr = mutex_listsD(7) [OF L]
  note h = mutex_holder [OF rep, of a]
  have e: "ts = []" "ns = []" "rs = []"
    using h unlock_free rep by (auto simp: mutex_rep_def locked_no_waiting_def)
  have pc: "{c. x_pc t c = M_waiting} = {c. x_pc s c = M_waiting}" using unlock_free by auto
  have "mutex_rep [] [] [] t"
    by (rule mutex_rep_freeI) (use h(3) unlock_free in auto)
  then show ?thesis by (rule mutex_invI) (use unlock_free e od di wt ld nn pc in auto)
qed

lemma mutex_inv_unlock_busy:
  assumes L: "mutex_lists ns rs ts s"
    and unlock_busy: "t = s\<lparr>x_pc := (x_pc s)(a := M_unlocking)\<rparr>"
      "x_pc s a = M_holding"
      "x_resume s = nullptr"
      "x_state s \<noteq> locked_no_waiting"
  shows "mutex_inv t"
proof -
  note rep = mutex_listsD(1) [OF L] and od = mutex_listsD(2) [OF L] and di = mutex_listsD(3) [OF L] and wt = mutex_listsD(4) [OF L]
    and ld = mutex_listsD(5) [OF L] and nn = mutex_listsD(6) [OF L] and fr = mutex_listsD(7) [OF L]
  note h = mutex_holder [OF rep, of a]
  have e: "ts = []" "rs = []" using h unlock_busy rep by (auto simp: mutex_rep_def)
  have pc: "{c. x_pc t c = M_waiting} = {c. x_pc s c = M_waiting}" using unlock_busy by auto
  have "mutex_rep ns [] [] t"
    by (rule mutex_rep_heldI [where h = a]) (use h(1-3) unlock_busy in auto)
  then show ?thesis by (rule mutex_invI) (use unlock_busy e od di wt ld nn pc in auto)
qed

lemma mutex_inv_take_list:
  assumes L: "mutex_lists ns rs ts s"
    and take_list: "t = s\<lparr>x_state := locked_no_waiting, x_pc := (x_pc s)(a := M_taken (x_state s))\<rparr>"
      "x_pc s a = M_unlocking"
  shows "mutex_inv t"
proof -
  note rep = mutex_listsD(1) [OF L] and od = mutex_listsD(2) [OF L] and di = mutex_listsD(3) [OF L] and wt = mutex_listsD(4) [OF L]
    and ld = mutex_listsD(5) [OF L] and nn = mutex_listsD(6) [OF L] and fr = mutex_listsD(7) [OF L]
  note h = mutex_holder [OF rep, of a]
  have e: "ts = []" "rs = []" "x_state s \<noteq> locked_no_waiting" using h take_list rep by (auto simp: mutex_rep_def)
  have n: "ns \<noteq> []" using e(3) h(2) take_list by (auto simp: locked_no_waiting_def)
  have pc: "{c. x_pc t c = M_waiting} = {c. x_pc s c = M_waiting}" using take_list by auto
  have "x_resume s = nullptr" using rep e(2) by (simp add: mutex_rep_def)
  then have "mutex_rep [] [] ns t"
    by (intro mutex_rep_heldI [where h = a]) (use h(1-3) take_list n in \<open>auto simp: locked_no_waiting_def nolocked_def\<close>)
  then show ?thesis by (rule mutex_invI) (use take_list e od di wt ld nn pc in auto)
qed

lemma mutex_inv_reverse_hand_over:
  assumes L: "mutex_lists ns rs ts s"
    and reverse_hand_over: "t = s\<lparr>x_next := nxt, x_resume := nxt b, x_pc := (x_pc s)(a := M_released, b := M_holding), x_served := x_served s @ [b]\<rparr>"
      "x_pc s a = M_taken p"
      "chain (x_next s) p ts'"
      "rev ts' = b # bs"
      "chain nxt b (b # bs)"
      "(\<forall>c. c \<notin> set ts' \<longrightarrow> nxt c = x_next s c)"
  shows "mutex_inv t"
proof -
  note rep = mutex_listsD(1) [OF L] and od = mutex_listsD(2) [OF L] and di = mutex_listsD(3) [OF L] and wt = mutex_listsD(4) [OF L]
    and ld = mutex_listsD(5) [OF L] and nn = mutex_listsD(6) [OF L] and fr = mutex_listsD(7) [OF L]
  note h = mutex_holder [OF rep, of a]
  have e: "rs = []" "ts' = ts" using rep reverse_hand_over(2,3) chain_det unfolding mutex_rep_def by blast+
  have rt: "rev ts = b # bs" using reverse_hand_over(4) e by simp
  have rs: "set ts = insert b (set bs)" using arg_cong [OF rt, of set] by simp
  have "b \<in> {c. x_pc s c = M_waiting}" unfolding wt using rs by simp
  then have ba: "b \<noteq> a" using reverse_hand_over(2) by auto
  have dt: "distinct (b # bs)" using di unfolding rt [symmetric] by simp
  have pc: "{c. x_pc t c = M_waiting} = {c. x_pc s c = M_waiting} - {b}" using reverse_hand_over by auto
  have dn: "set (b # bs) \<inter> set ns = {}" using di rs by auto
  have "chain nxt q ns = chain (x_next s) q ns" for q
    by (rule chain_cong) (use reverse_hand_over(6) e dn rs in auto)
  then have "mutex_rep ns bs [] t"
    by (intro mutex_rep_heldI [where h = b]) (use h(1-3) reverse_hand_over ba in auto)
  moreover have "nxt c = x_next s c" if "x_pc s c = M_loaded old" for c old
    using reverse_hand_over(6) fr [of c] that e by simp
  ultimately show ?thesis by (intro mutex_invI [of ns bs "[]"]) (use reverse_hand_over e rt rs dt dn od di wt ld nn pc in auto)

qed

lemma mutex_inv_step:
  assumes step: "mutex_step s t" and inv: "mutex_inv s"
  shows "mutex_inv t"
proof -
  from inv obtain ns rs ts where L: "mutex_lists ns rs ts s" unfolding mutex_inv_def mutex_lists_def by blast
  from step show ?thesis
  proof cases
    case (load a)
    then show ?thesis by (rule mutex_inv_load [OF L])
  next
    case (cas_lock a)
    then show ?thesis by (rule mutex_inv_cas_lock [OF L])
  next
    case (cas_wait a old)
    then show ?thesis by (rule mutex_inv_cas_wait [OF L])
  next
    case (cas_fail a old)
    then show ?thesis by (rule mutex_inv_cas_fail [OF L])
  next
    case (hand_over a b)
    then show ?thesis by (rule mutex_inv_hand_over [OF L])
  next
    case (unlock_free a)
    then show ?thesis by (rule mutex_inv_unlock_free [OF L])
  next
    case (unlock_busy a)
    then show ?thesis by (rule mutex_inv_unlock_busy [OF L])
  next
    case (take_list a)
    then show ?thesis by (rule mutex_inv_take_list [OF L])
  next
    case (reverse_hand_over a p ts' b bs nxt)
    then show ?thesis by (rule mutex_inv_reverse_hand_over [OF L])
  qed
qed

interpretation mx: step_system mutex_start mutex_step mutex_inv
proof unfold_locales
  show "mutex_start s \<Longrightarrow> mutex_inv s" for s
    by (rule mutex_invI [of "[]" "[]" "[]"]) (auto simp: mutex_start_def mutex_rep_def)
qed (rule mutex_inv_step)


section \<open>Properties\<close>

text \<open>C1: first come, first served: of the coroutines that lock a free mutex the first gets it without
  suspending, the others suspend, and the successive unlocks hand the mutex to them in the order of
  their arrival; the last unlock frees it. The lists of latest and earlier arrivals and the
  in-place reversal between them are invisible.\<close>

theorem mutex_fifo:
  assumes "mutex_free m w" and "\<forall>a \<in> set (a # as). mutex_able m a w" and "distinct as"
  shows "\<exists>w1 w2. acquire_all register_lock (a # as) w = Inr (False # replicate (length as) True, w1) \<and>
    release_n (unlock_next m) (Suc (length as)) w1 = Some (Inr (map Some as @ [None], w2)) \<and> mutex_free m w2"
  using assms by (rule mtx.first_come_first_served)

definition sample_mworld :: "nat mworld" where
  "sample_mworld =
     aworld.extend (sample_aworld sample_awaiters) \<lparr>mtx_state = (\<lambda>_. nolocked), mtx_resume_list = (\<lambda>_. nullptr)\<rparr>"

lemma sample_mworld_simps [simp]:
  "awaiters sample_mworld = sample_awaiters" "mtx_state sample_mworld = (\<lambda>_. nolocked)"
  "mtx_resume_list sample_mworld = (\<lambda>_. nullptr)" "engines sample_mworld = engines sample_world"
  by (simp_all add: sample_mworld_def sample_aworld_def aworld.defs sworld.defs sample_sworld_def cworld.defs eworld.defs)

theorem mutex_fifo_witness:
  "\<exists>w1 w2. acquire_all register_lock [11, 12] sample_mworld = Inr ([False, True], w1) \<and>
    release_n (unlock_next 5) 2 w1 = Some (Inr ([Some 12, None], w2)) \<and> mutex_free 5 w2"
  using mutex_fifo [of 5 sample_mworld 11 "[12]"]
  by (simp add: mutex_free_def mutex_able_def nolocked_def sample_awaiters_def numeral_2_eq_2)

text \<open>unlocking with waiters does not free the mutex: it submits the oldest waiter's coroutine to that
  waiter's own context and to no other, and the mutex stays locked for it.\<close>

theorem unlock_hands_over:
  assumes held: "mutex_held m (a # q) w" and x: "awaiters w a = Some x" and h: "a_coro x \<noteq> nullptr"
    and ok: "contexts_ok K cnt w" and room: "0 < context_room cnt (a_ctx x) w"
  shows "\<exists>w'. unlock K resume m w = Some (Inr w') \<and> mutex_held m q w' \<and>
    queued (a_ctx x) w' = queued (a_ctx x) w @ [a_coro x] \<and> (\<forall>c. c \<noteq> a_ctx x \<longrightarrow> queued c w' = queued c w)"
proof -
  from unlock_next_waiter [OF held] obtain w1 mm st rl where
    w1: "unlock_next m w = Some (Inr (Some a, w1))" "mutex_held m q w1"
      "w1 = w\<lparr>awaiters := mm, mtx_state := (mtx_state w)(m := st), mtx_resume_list := (mtx_resume_list w)(m := rl)\<rparr>"
      "same_jobs (awaiters w) mm" by blast
  have "map_option (\<lambda>y. y\<lparr>a_next := nullptr\<rparr>) (mm a) = Some (x\<lparr>a_next := nullptr\<rparr>)"
    using w1(4) x by (simp add: same_jobs_def)
  then obtain y where y: "mm a = Some y" "y\<lparr>a_next := nullptr\<rparr> = x\<lparr>a_next := nullptr\<rparr>" by auto
  then have xy: "a_ctx y = a_ctx x" "a_coro y = a_coro x" by (cases x; cases y; simp)+
  have e: "engines w1 = engines w" by (simp add: w1(3))
  have "contexts_ok K cnt w1" "0 < context_room cnt (a_ctx x) w1"
    using ok room by (simp_all add: contexts_ok_def efd_open_def context_room_def efd_count_def e)
  from context_submit_ok [OF this h, of resume] obtain w' where
    w': "context_submit K resume (a_ctx x) (a_coro x) w1 = Inr w'" "queued (a_ctx x) w' = queued (a_ctx x) w1 @ [a_coro x]"
      "\<forall>c. c \<noteq> a_ctx x \<longrightarrow> queued c w' = queued c w1" "context_rest w' = context_rest w1" by blast
  have "a \<noteq> nullptr" using mutex_held_nonnull [OF held] by auto
  then have "unlock K resume m w = Some (Inr w')"
    using w1(1) w'(1) xy y(1) by (simp add: unlock_def mutex_resume_def submit_awaiter_def get_awaiter_def w1(3))
  moreover have "mutex_held m q w'"
  proof -
    have "awaiters w' = awaiters w1" "aworld.more w' = aworld.more w1" using rest_awaiters [OF w'(4)] by simp_all
    then have "awaiters w' = awaiters w1 \<and> mtx_state w' = mtx_state w1 \<and> mtx_resume_list w' = mtx_resume_list w1"
      by (cases w'; cases w1; simp)
    then show ?thesis using w1(2) by (simp add: mutex_held_def)
  qed
  ultimately show ?thesis using w'(2,3) by (simp add: e)
qed

definition sample_locked_world :: "nat mworld" where
  "sample_locked_world = sample_mworld\<lparr>mtx_state := (\<lambda>_. nolocked)(5 := 11)\<rparr>"

lemma sample_locked: "mutex_held 5 [12, 11] sample_locked_world"
  by (rule mutex_heldI [of _ _ "[11, 12]" "[]"]) (simp_all add: sample_locked_world_def sample_awaiters_def nolocked_def)

theorem unlock_hands_over_witness:
  "\<exists>w'. unlock sample_kernel finishing 5 sample_locked_world = Some (Inr w') \<and> mutex_held 5 [11] w' \<and> queued 1 w' = [72]"
proof -
  let ?x = "\<lparr>a_ctx = 1, a_obj = 5, a_next = 0, a_coro = 72\<rparr>"
  have e: "engines sample_locked_world = engines sample_world" by (simp add: sample_locked_world_def)
  have x: "awaiters sample_locked_world 12 = Some ?x" "a_coro ?x \<noteq> nullptr"
    by (simp_all add: sample_locked_world_def sample_awaiters_def)
  have room: "0 < context_room (\<lambda>fd k. k) (a_ctx ?x) sample_locked_world" using sample_room(2) [OF e] by simp
  from unlock_hands_over [OF sample_locked x sample_room(1) [OF e] room, of finishing] obtain w' where
    "unlock sample_kernel finishing 5 sample_locked_world = Some (Inr w')" "mutex_held 5 [11] w'"
    "queued 1 w' = queued 1 sample_locked_world @ [72]" by auto
  moreover have "queued 1 sample_locked_world = []" unfolding e by (rule sample_queue)
  ultimately show ?thesis by (metis append_Nil)
qed

text \<open>C2: mutual exclusion under every interleaving: at most one coroutine is between acquiring and
  releasing the mutex, and the mutex is marked free exactly when there is none.\<close>

theorem mutex_mutual_exclusion:
  assumes "reachable mutex_start mutex_step s"
  shows "(in_section (x_pc s a) \<and> in_section (x_pc s b) \<longrightarrow> a = b) \<and>
    (x_state s = nolocked \<longleftrightarrow> (\<forall>c. \<not> in_section (x_pc s c)))"
proof -
  from mx.reachable_inv [OF assms] obtain ns rs ts where "mutex_rep ns rs ts s" unfolding mutex_inv_def by blast
  then show ?thesis unfolding mutex_rep_def by metis
qed

text \<open>C3: under every interleaving the mutex is handed over in the order in which the waiting coroutines
  registered, nobody is served twice or forgotten, and as long as anybody waits somebody holds the
  mutex and will hand it over.\<close>

theorem mutex_handed_over_in_order:
  assumes "reachable mutex_start mutex_step s"
  shows "\<exists>rest. x_order s = x_served s @ rest \<and> distinct rest \<and> set rest = {a. x_pc s a = M_waiting} \<and>
    (rest \<noteq> [] \<longrightarrow> (\<exists>h. in_section (x_pc s h)))"
proof -
  from mx.reachable_inv [OF assms] obtain ns rs ts where r: "mutex_rep ns rs ts s"
    "x_order s = x_served s @ rs @ rev ts @ rev ns" "distinct (rs @ ts @ ns)" "{a. x_pc s a = M_waiting} = set (rs @ ts @ ns)"
    unfolding mutex_inv_def by blast
  have "rs @ rev ts @ rev ns \<noteq> [] \<Longrightarrow> \<exists>h. in_section (x_pc s h)"
    using r(1) unfolding mutex_rep_def by (metis append_Nil rev.simps(1))
  then show ?thesis using r(2,3,4) by (intro exI [of _ "rs @ rev ts @ rev ns"]) auto
qed

definition mutex_machine0 :: mutex_machine where
  "mutex_machine0 = \<lparr>x_state = nolocked, x_next = (\<lambda>_. nullptr), x_resume = nullptr, x_pc = (\<lambda>_. M_start), x_order = [], x_served = []\<rparr>"

definition mutex_machine2 :: mutex_machine where
  "mutex_machine2 = mutex_machine0\<lparr>x_state := 12, x_next := (\<lambda>_. nullptr)(11 := nullptr, 12 := nullptr),
     x_pc := (\<lambda>_. M_start)(11 := M_holding, 12 := M_waiting), x_order := [12]\<rparr>"

lemma mutex_machine2_reachable: "reachable mutex_start mutex_step mutex_machine2"
proof -
  let ?R = "reachable mutex_start mutex_step"
  note step = reach_step [where start = mutex_start and step = mutex_step]
  note defs = mutex_machine0_def mutex_machine2_def nolocked_def locked_no_waiting_def
  have "?R mutex_machine0" by (rule reach_start) (simp add: mutex_start_def defs)
  from step [OF this load [of 11]] have "?R (mutex_machine0\<lparr>x_next := (\<lambda>_. nullptr)(11 := nullptr),
      x_pc := (\<lambda>_. M_start)(11 := M_loaded nolocked)\<rparr>)" by (simp add: defs)
  from step [OF this cas_lock [of _ 11]] have "?R (mutex_machine0\<lparr>x_state := locked_no_waiting, x_next := (\<lambda>_. nullptr)(11 := nullptr),
      x_pc := (\<lambda>_. M_start)(11 := M_holding)\<rparr>)" by (simp add: defs)
  from step [OF this load [of 12]] have "?R (mutex_machine0\<lparr>x_state := locked_no_waiting, x_next := (\<lambda>_. nullptr)(11 := nullptr, 12 := nullptr),
      x_pc := (\<lambda>_. M_start)(11 := M_holding, 12 := M_loaded nullptr)\<rparr>)" by (simp add: defs)
  from step [OF this cas_wait [of _ 12 nullptr]] show ?thesis by (simp add: defs)
qed

theorem mutex_mutual_exclusion_witness:
  "x_state mutex_machine2 \<noteq> nolocked \<and> in_section (x_pc mutex_machine2 11) \<and> \<not> in_section (x_pc mutex_machine2 12)"
  using mutex_mutual_exclusion [OF mutex_machine2_reachable, of 11 12]
  by (simp add: mutex_machine2_def nolocked_def)

theorem mutex_handed_over_in_order_witness:
  "\<exists>rest. x_order mutex_machine2 = x_served mutex_machine2 @ rest \<and> set rest = {a. x_pc mutex_machine2 a = M_waiting}"
  using mutex_handed_over_in_order [OF mutex_machine2_reachable] by auto

text \<open>moving a lock guard copies its reference without disarming the source, so both guards unlock: the
  second unlock finds a mutex that is no longer locked and fails the code's own assertion.\<close>

theorem moved_guard_unlocks_twice:
  assumes "mutex_held m [] w"
  shows "\<exists>w'. lock_guard_dtor K resume (fst (lock_guard_move m)) w = Some (Inr w') \<and>
    lock_guard_dtor K resume (snd (lock_guard_move m)) w' = Some (Inl Assert_failed)"
proof -
  from unlock_next_last [OF assms] obtain w' where w': "unlock_next m w = Some (Inr (None, w'))" "mutex_free m w'" by blast
  then have "unlock_next m w' = Some (Inl Assert_failed)" by (simp add: mutex_free_def unlock_next_def)
  with w' show ?thesis by (simp add: lock_guard_dtor_def lock_guard_move_def unlock_def)
qed

theorem moved_guard_unlocks_twice_witness:
  "\<exists>w'. lock_guard_dtor sample_kernel finishing 5 (sample_mworld\<lparr>mtx_state := (\<lambda>_. nullptr)\<rparr>) = Some (Inr w') \<and>
    lock_guard_dtor sample_kernel finishing 5 w' = Some (Inl Assert_failed)"
proof -
  have "mutex_held 5 [] (sample_mworld\<lparr>mtx_state := (\<lambda>_. nullptr)\<rparr>)"
    by (rule mutex_heldI [of _ _ "[]" "[]"]) (simp_all add: nolocked_def)
  from moved_guard_unlocks_twice [OF this, of sample_kernel finishing] show ?thesis by (simp add: lock_guard_move_def)
qed

end
