(* ===== verification/Condition_Variable.thy ===== *)
theory Condition_Variable
  imports Mutex
begin

text \<open>
  The condition variable and the spin lock that guards its list: \<^verbatim>\<open>include/coro/spinlock.hpp\<close>,
  \<^verbatim>\<open>include/coro/comp/condition_variable.hpp\<close>, \<^verbatim>\<open>src/comp/condition_variable.cpp\<close>. A \<^verbatim>\<open>cv_awaiter\<close> is a
  \<^verbatim>\<open>mutex_awaiter\<close> with more fields: the awaiter at \<open>a\<close> is one when \<open>cv_info w a\<close> is not \<open>None\<close>, and the
  virtual call \<^verbatim>\<open>to_resume->resume()\<close> at the end of \<^verbatim>\<open>unlock\<close> is decided by that. A predicate is known by a
  number; \<open>eval\<close> is what the predicates compute from the user's data, which is the part of the world
  that extends this record.
\<close>

section \<open>State\<close>

record cv_part =
  m_cond :: "nat option"
  m_cv :: addr
  m_suspend_state :: bool

record cond_var =
  cv_lock :: bool
  m_head :: addr
  m_tail :: addr

record 'k cvworld = "'k mworld" +
  cv_info :: "addr \<Rightarrow> cv_part option"
  cvs :: "addr \<Rightarrow> cond_var"

section \<open>The spin lock\<close>

text \<open>\<^verbatim>\<open>lock()\<close> of a taken lock spins until another thread unlocks it.\<close>

definition spin_lock :: "bool \<Rightarrow> bool result" where
  "spin_lock b = (if b then Inl Blocks else Inr True)"

definition spin_try_lock :: "bool \<Rightarrow> bool \<times> bool" where
  "spin_try_lock b = (if b then (False, b) else (True, True))"

definition spin_unlock :: "bool \<Rightarrow> bool" where
  "spin_unlock b = False"

definition put_cv :: "addr \<Rightarrow> cond_var \<Rightarrow> ('k, 'z) cvworld_scheme \<Rightarrow> ('k, 'z) cvworld_scheme" where
  "put_cv c v w = w\<lparr>cvs := (cvs w)(c := v)\<rparr>"

definition cv_acquire :: "addr \<Rightarrow> ('k, 'z) cvworld_scheme \<Rightarrow> ('k, 'z) cvworld_scheme result" where
  "cv_acquire c w = bindE (spin_lock (cv_lock (cvs w c))) (\<lambda>b. Inr (put_cv c ((cvs w c)\<lparr>cv_lock := b\<rparr>) w))"

definition cv_release :: "addr \<Rightarrow> ('k, 'z) cvworld_scheme \<Rightarrow> ('k, 'z) cvworld_scheme" where
  "cv_release c w = put_cv c ((cvs w c)\<lparr>cv_lock := spin_unlock (cv_lock (cvs w c))\<rparr>) w"

section \<open>Operations\<close>

definition new_cv :: "addr \<Rightarrow> ('k, 'z) cvworld_scheme \<Rightarrow> ('k, 'z) cvworld_scheme" where
  "new_cv c w = put_cv c \<lparr>cv_lock = False, m_head = nullptr, m_tail = nullptr\<rparr> w"

definition cv_dtor :: "addr \<Rightarrow> ('k, 'z) cvworld_scheme \<Rightarrow> ('k, 'z) cvworld_scheme result" where
  "cv_dtor c w = (if m_head (cvs w c) = nullptr \<and> m_tail (cvs w c) = nullptr then Inr w else Inl Assert_failed)"

text \<open>\<^verbatim>\<open>wait\<close>: without a predicate, with a predicate by value, with a predicate by reference.\<close>

definition cv_wait_on :: "addr \<Rightarrow> addr \<Rightarrow> nat option \<Rightarrow> addr \<Rightarrow> ('k, 'z) cvworld_scheme \<Rightarrow> ('k, 'z) cvworld_scheme result" where
  "cv_wait_on c m cond a w =
     bindE (local_context w) (\<lambda>i.
       Inr ((put_awaiter a (new_awaiter i m) w)
              \<lparr>cv_info := (cv_info w)(a \<mapsto> \<lparr>m_cond = cond, m_cv = c, m_suspend_state = False\<rparr>)\<rparr>))"

definition cv_wait :: "addr \<Rightarrow> addr \<Rightarrow> addr \<Rightarrow> ('k, 'z) cvworld_scheme \<Rightarrow> ('k, 'z) cvworld_scheme result" where
  "cv_wait c m a w = cv_wait_on c m None a w"

definition cv_wait_rvalue :: "addr \<Rightarrow> addr \<Rightarrow> nat option \<Rightarrow> addr \<Rightarrow> ('k, 'z) cvworld_scheme \<Rightarrow> ('k, 'z) cvworld_scheme result" where
  "cv_wait_rvalue c m cond a w = cv_wait_on c m cond a w"

definition cv_wait_lvalue :: "addr \<Rightarrow> addr \<Rightarrow> nat option \<Rightarrow> addr \<Rightarrow> ('k, 'z) cvworld_scheme \<Rightarrow> ('k, 'z) cvworld_scheme result" where
  "cv_wait_lvalue c m cond a w = cv_wait_on c m cond a w"

definition get_part :: "addr \<Rightarrow> ('k, 'z) cvworld_scheme \<Rightarrow> cv_part result" where
  "get_part a w = (case cv_info w a of None \<Rightarrow> Inl Use_after_free | Some p \<Rightarrow> Inr p)"

text \<open>\<^verbatim>\<open>register_cv\<close>: append to the list of the condition variable.\<close>

definition register_cv :: "addr \<Rightarrow> ('k, 'z) cvworld_scheme \<Rightarrow> ('k, 'z) cvworld_scheme result" where
  "register_cv a w =
     bindE (get_awaiter a w) (\<lambda>x.
     bindE (get_part a w) (\<lambda>p.
     bindE (cv_acquire (m_cv p) (put_awaiter a (x\<lparr>a_next := nullptr\<rparr>) w)) (\<lambda>w1.
     let c = m_cv p; v = cvs w1 c in
     if m_tail v = nullptr then Inr (cv_release c (put_cv c (v\<lparr>m_head := a, m_tail := a\<rparr>) w1))
     else
       bindE (get_awaiter (m_tail v) w1) (\<lambda>t.
       Inr (cv_release c (put_cv c (v\<lparr>m_tail := a\<rparr>) (put_awaiter (m_tail v) (t\<lparr>a_next := a\<rparr>) w1)))))))"

text \<open>What \<^verbatim>\<open>register_lock\<close> and \<^verbatim>\<open>resume\<close> do before they unlock the mutex: count the wait once, then join the list.\<close>

definition cv_sleep :: "addr \<Rightarrow> ('k, 'z) cvworld_scheme \<Rightarrow> ('k, 'z) cvworld_scheme result" where
  "cv_sleep a w =
     bindE (get_awaiter a w) (\<lambda>x.
     bindE (get_part a w) (\<lambda>p.
     register_cv a ((register_wait (if m_suspend_state p then 0 else 1) (a_ctx x) w)
                      \<lparr>cv_info := (cv_info w)(a \<mapsto> p\<lparr>m_suspend_state := True\<rparr>)\<rparr>)))"

text \<open>The condition that sends an awaiter that was handed the mutex back to sleep: \<^verbatim>\<open>m_cond && !m_cond()\<close>.\<close>

definition cond_blocks :: "(nat \<Rightarrow> 'z \<Rightarrow> bool) \<Rightarrow> addr \<Rightarrow> ('k, 'z) cvworld_scheme \<Rightarrow> bool" where
  "cond_blocks eval a w =
     (case cv_info w a of None \<Rightarrow> False | Some p \<Rightarrow> (case m_cond p of None \<Rightarrow> False | Some f \<Rightarrow> \<not> eval f (cvworld.more w)))"

text \<open>
  The virtual \<^verbatim>\<open>resume\<close>. The override of the condition variable unlocks the mutex again when its
  predicate does not hold, which resumes the next awaiter in turn.
\<close>

partial_function (option) virtual_resume where
  "virtual_resume K resume eval a w =
     (if cond_blocks eval a w then
        bindO (Some (get_awaiter a w)) (\<lambda>x.
        bindO (Some (cv_sleep a w)) (\<lambda>w1.
        bindO (unlock_next (a_obj x) w1) (\<lambda>(nxt, w2).
        case nxt of None \<Rightarrow> Some (Inr w2) | Some b \<Rightarrow> virtual_resume K resume eval b w2)))
      else Some (mutex_resume K resume a w))"

text \<open>\<^verbatim>\<open>mutex::unlock\<close> with its virtual call.\<close>

definition virtual_unlock where
  "virtual_unlock K resume eval m w =
     bindO (unlock_next m w) (\<lambda>(nxt, w1).
     case nxt of None \<Rightarrow> Some (Inr w1) | Some a \<Rightarrow> virtual_resume K resume eval a w1)"

definition cv_register_lock where
  "cv_register_lock K resume eval a w =
     bindO (Some (get_awaiter a w)) (\<lambda>x.
     bindO (Some (get_part a w)) (\<lambda>p.
     if (case m_cond p of None \<Rightarrow> False | Some f \<Rightarrow> eval f (cvworld.more w)) then Some (Inr (False, w))
     else
       bindO (Some (cv_sleep a w)) (\<lambda>w1.
       bindO (virtual_unlock K resume eval (a_obj x) w1) (\<lambda>w2. Some (Inr (True, w2))))))"

definition cv_await_suspend where
  "cv_await_suspend K resume eval a h w =
     bindO (Some (get_awaiter a w)) (\<lambda>x. cv_register_lock K resume eval a (put_awaiter a (x\<lparr>a_coro := h\<rparr>) w))"

definition cv_await_resume :: "addr \<Rightarrow> ('k, 'z) cvworld_scheme \<Rightarrow> ('k, 'z) cvworld_scheme result" where
  "cv_await_resume a w =
     bindE (get_awaiter a w) (\<lambda>x.
     bindE (get_part a w) (\<lambda>p. Inr (unregister_wait (if m_suspend_state p then 1 else 0) (a_ctx x) w)))"

text \<open>\<^verbatim>\<open>wake_up\<close> requests the mutex for the sleeper and resumes it when the mutex was free.\<close>

definition cv_wake_up where
  "cv_wake_up K resume eval a w =
     bindO (Some (register_lock a w)) (\<lambda>(waits, w1).
     if \<not> waits then virtual_resume K resume eval a w1 else Some (Inr w1))"

definition notify_one where
  "notify_one K resume eval c w =
     bindO (Some (cv_acquire c w)) (\<lambda>w1.
     let v = cvs w1 c; cur = m_head v in
     if cur \<noteq> nullptr then
       bindO (Some (get_awaiter cur w1)) (\<lambda>x.
       cv_wake_up K resume eval cur
         (cv_release c (put_cv c (v\<lparr>m_head := a_next x, m_tail := if a_next x = nullptr then nullptr else m_tail v\<rparr>) w1)))
     else Some (Inr (cv_release c w1)))"

text \<open>The loop of \<^verbatim>\<open>notify_all\<close> reads \<^verbatim>\<open>m_next\<close> before it wakes the awaiter up.\<close>

partial_function (option) wake_up_linked where
  "wake_up_linked K resume eval cur_head w =
     (if cur_head = nullptr then Some (Inr w)
      else
        bindO (Some (get_awaiter cur_head w)) (\<lambda>x.
        bindO (cv_wake_up K resume eval cur_head w) (\<lambda>w1.
        wake_up_linked K resume eval (a_next x) w1)))"

definition notify_all where
  "notify_all K resume eval c w =
     bindO (Some (cv_acquire c w)) (\<lambda>w1.
     let v = cvs w1 c in
     wake_up_linked K resume eval (m_head v) (cv_release c (put_cv c (v\<lparr>m_head := nullptr, m_tail := nullptr\<rparr>) w1)))"



section \<open>Lists of sleepers\<close>

definition cv_list :: "addr \<Rightarrow> addr list \<Rightarrow> ('k, 'z) cvworld_scheme \<Rightarrow> bool" where
  "cv_list c as w \<longleftrightarrow> \<not> cv_lock (cvs w c) \<and> waiting (awaiters w) (m_head (cvs w c)) as \<and>
     m_tail (cvs w c) = (if as = [] then nullptr else last as)"

lemma cv_list_cong:
  assumes "cvs w' c = cvs w c" and "\<And>a. a \<in> set as \<Longrightarrow> awaiters w' a = awaiters w a"
  shows "cv_list c as w' = cv_list c as w"
  using waiting_cong [of as "awaiters w'" "awaiters w", OF assms(2)] by (simp add: cv_list_def assms(1))

lemma put_cv_simps [simp]:
  "cvs (put_cv c v w) = (cvs w)(c := v)" "cv_info (put_cv c v w) = cv_info w" "awaiters (put_cv c v w) = awaiters w"
  "mtx_state (put_cv c v w) = mtx_state w" "mtx_resume_list (put_cv c v w) = mtx_resume_list w"
  "engines (put_cv c v w) = engines w" "cvworld.more (put_cv c v w) = cvworld.more w" "contexts (put_cv c v w) = contexts w"
  "put_cv c v (put_cv c v' w) = put_cv c v w" "put_awaiter a x (put_cv c v w) = put_cv c v (put_awaiter a x w)"
  by (simp_all add: put_cv_def put_awaiter_def)

lemma put_awaiter_cvs [simp]:
  "cvs (put_awaiter a x w) = cvs w" "cv_info (put_awaiter a x w) = cv_info w" "cvworld.more (put_awaiter a x w) = cvworld.more w"
  "mtx_state (put_awaiter a x w) = mtx_state w" "mtx_resume_list (put_awaiter a x w) = mtx_resume_list w"
  by (simp_all add: put_awaiter_def)

lemma wait_cvs [simp]:
  "cvs (register_wait n i w) = cvs w" "cv_info (register_wait n i w) = cv_info w"
  "cvworld.more (register_wait n i w) = cvworld.more w"
  "mtx_state (register_wait n i w) = mtx_state w" "mtx_resume_list (register_wait n i w) = mtx_resume_list w"
  by (simp_all add: register_wait_def put_context_def)

lemma cv_acquire_ok: "\<not> cv_lock (cvs w c) \<Longrightarrow> cv_acquire c w = Inr (put_cv c ((cvs w c)\<lparr>cv_lock := True\<rparr>) w)"
  by (simp add: cv_acquire_def spin_lock_def)

text \<open>
  What the passing of awaiters between the lists leaves alone: the jobs of the awaiters, their predicates and
  condition variables, the engines and the user's data.
\<close>

definition cv_same :: "('k, 'z) cvworld_scheme \<Rightarrow> ('k, 'z) cvworld_scheme \<Rightarrow> bool" where
  "cv_same w w' \<longleftrightarrow> same_jobs (awaiters w) (awaiters w') \<and> engines w' = engines w \<and> cvworld.more w' = cvworld.more w \<and>
     (\<forall>a. map_option (\<lambda>p. (m_cond p, m_cv p)) (cv_info w' a) = map_option (\<lambda>p. (m_cond p, m_cv p)) (cv_info w a))"

lemma same_jobs_refl [simp]: "same_jobs m m"
  by (simp add: same_jobs_def)

lemma same_jobs_trans: "same_jobs m m' \<Longrightarrow> same_jobs m' m'' \<Longrightarrow> same_jobs m m''"
  by (simp add: same_jobs_def)

lemma same_jobs_link: "m a = Some x \<Longrightarrow> same_jobs m (m(a \<mapsto> x\<lparr>a_next := p\<rparr>))"
  by (simp add: same_jobs_def)

lemma same_jobs_Some:
  assumes "same_jobs m m'" and "m a = Some x"
  shows "\<exists>n. m' a = Some (x\<lparr>a_next := n\<rparr>)"
proof -
  have "map_option (\<lambda>y. y\<lparr>a_next := nullptr\<rparr>) (m' a) = Some (x\<lparr>a_next := nullptr\<rparr>)" using assms by (simp add: same_jobs_def)
  then obtain y where "m' a = Some y" "y\<lparr>a_next := nullptr\<rparr> = x\<lparr>a_next := nullptr\<rparr>" by auto
  then show ?thesis by (intro exI [of _ "a_next y"]) (cases x; cases y; simp)
qed

lemma cv_same_refl [simp]: "cv_same w w"
  by (simp add: cv_same_def)

lemma cv_same_trans: "cv_same w w' \<Longrightarrow> cv_same w' w'' \<Longrightarrow> cv_same w w''"
  by (auto simp: cv_same_def intro: same_jobs_trans)

lemma cv_same_able: "cv_same w w' \<Longrightarrow> mutex_able m a w \<Longrightarrow> mutex_able m a w'"
  by (auto simp: cv_same_def mutex_able_def dest!: same_jobs_Some)

lemma cv_same_info:
  "cv_same w w' \<Longrightarrow> map_option (\<lambda>p. (m_cond p, m_cv p)) (cv_info w' a) = map_option (\<lambda>p. (m_cond p, m_cv p)) (cv_info w a)"
  by (simp add: cv_same_def)

definition sleeps_on :: "('k, 'z) cvworld_scheme \<Rightarrow> addr \<Rightarrow> addr \<Rightarrow> bool" where
  "sleeps_on w c a \<longleftrightarrow> map_option m_cv (cv_info w a) = Some c"

lemma cv_same_blocks:
  assumes "cv_same w w'"
  shows "cond_blocks eval a w' = cond_blocks eval a w" and "sleeps_on w' c a = sleeps_on w c a"
proof -
  have more: "cvworld.more w' = cvworld.more w" using assms by (simp add: cv_same_def)
  from cv_same_info [OF assms, of a] consider "cv_info w a = None" "cv_info w' a = None"
    | p p' where "cv_info w a = Some p" "cv_info w' a = Some p'" "m_cond p' = m_cond p" "m_cv p' = m_cv p"
    by (cases "cv_info w a"; cases "cv_info w' a") auto
  then show "cond_blocks eval a w' = cond_blocks eval a w" "sleeps_on w' c a = sleeps_on w c a"
    unfolding cond_blocks_def sleeps_on_def more by (cases; simp only: option.simps)+
qed

lemma mutex_held_cong:
  assumes "mtx_state w' m = mtx_state w m" and "mtx_resume_list w' m = mtx_resume_list w m"
    and "\<And>a. a \<in> set q \<Longrightarrow> awaiters w' a = awaiters w a" and "mutex_held m q w"
  shows "mutex_held m q w'"
proof -
  from assms(4) obtain ns rs where q: "waiting (awaiters w) (mtx_state w m) ns" "waiting (awaiters w) (mtx_resume_list w m) rs"
    "q = rs @ rev ns" "distinct q" "nolocked \<notin> set q" "mtx_state w m \<noteq> nolocked" unfolding mutex_held_def by blast
  have "waiting (awaiters w') p ns = waiting (awaiters w) p ns" "waiting (awaiters w') p rs = waiting (awaiters w) p rs" for p
    using assms(3) q(3) by (auto intro!: waiting_cong)
  then show ?thesis using q assms(1,2) by (intro mutex_heldI [of _ _ ns rs]) simp_all
qed

text \<open>Going to sleep appends to the list of the condition variable.\<close>

lemma cv_sleep_ok:
  assumes a: "a \<noteq> nullptr" "awaiters w a = Some x" "cv_info w a = Some p" and l: "cv_list (m_cv p) as w" "a \<notin> set as"
  shows "\<exists>w'. cv_sleep a w = Inr w' \<and> cv_list (m_cv p) (as @ [a]) w' \<and> cv_same w w' \<and>
    (\<forall>c. c \<noteq> m_cv p \<longrightarrow> cvs w' c = cvs w c) \<and> (\<forall>b. b \<notin> set (as @ [a]) \<longrightarrow> awaiters w' b = awaiters w b) \<and>
    mtx_state w' = mtx_state w \<and> mtx_resume_list w' = mtx_resume_list w"
proof -
  let ?w = "(register_wait (if m_suspend_state p then 0 else 1) (a_ctx x) w)\<lparr>cv_info := (cv_info w)(a \<mapsto> p\<lparr>m_suspend_state := True\<rparr>)\<rparr>"
  let ?w1 = "put_awaiter a (x\<lparr>a_next := nullptr\<rparr>) ?w" and ?c = "m_cv p"
  have s: "cv_sleep a w = register_cv a ?w" using a by (simp add: cv_sleep_def get_part_def)
  have lock: "\<not> cv_lock (cvs w ?c)" using l(1) by (simp add: cv_list_def)
  have w1: "awaiters ?w1 = (awaiters w)(a \<mapsto> x\<lparr>a_next := nullptr\<rparr>)" "cvs ?w1 = cvs w" by simp_all
  have acq: "cv_acquire ?c ?w1 = Inr (put_cv ?c ((cvs w ?c)\<lparr>cv_lock := True\<rparr>) ?w1)"
    using cv_acquire_ok [of ?w1 ?c] lock by simp
  show ?thesis
  proof (cases "as = []")
    case True
    let ?w' = "put_cv ?c ((cvs w ?c)\<lparr>m_head := a, m_tail := a, cv_lock := False\<rparr>) ?w1"
    have "cv_sleep a w = Inr ?w'"
      using True l(1) a unfolding s register_cv_def
      by (simp add: get_part_def acq cv_list_def cv_release_def spin_unlock_def Let_def)
    moreover have "cv_list ?c (as @ [a]) ?w'" using True a by (simp add: cv_list_def)
    moreover have "cv_same w ?w'" using a by (simp add: cv_same_def same_jobs_link)
    ultimately show ?thesis using True by (intro exI [of _ ?w']) simp
  next
    case False
    then have last: "last as \<in> set as" by simp
    have wt: "waiting (awaiters w) (m_head (cvs w ?c)) as" using l(1) by (simp add: cv_list_def)
    then obtain t where t: "awaiters w (last as) = Some t" using last by (auto simp: waiting_def)
    have nn: "last as \<noteq> nullptr" using waiting_nonnull [OF wt] last by metis
    have ne: "last as \<noteq> a" using last l(2) by auto
    let ?w' = "put_cv ?c ((cvs w ?c)\<lparr>m_tail := a, cv_lock := False\<rparr>) (put_awaiter (last as) (t\<lparr>a_next := a\<rparr>) ?w1)"
    have "cv_sleep a w = Inr ?w'"
      using False l(1) a t nn ne unfolding s register_cv_def
      by (simp add: get_part_def acq cv_list_def cv_release_def spin_unlock_def Let_def)
    moreover have "cv_list ?c (as @ [a]) ?w'"
      using l False a(1) waiting_snoc [of "awaiters w" _ as a t "x\<lparr>a_next := nullptr\<rparr>"] t by (simp add: cv_list_def)
    moreover have "cv_same w ?w'"
      using a t ne by (auto simp: cv_same_def same_jobs_def)
    ultimately show ?thesis using last by (intro exI [of _ ?w']) auto
  qed
qed


section \<open>Handing the mutex to sleepers\<close>

text \<open>
  \<open>cv_state m q CS w\<close>: the mutex \<open>m\<close> is held, \<open>q\<close> waits for it, and \<open>CS c\<close> sleeps on the condition variable \<open>c\<close>;
  no awaiter is in two lists.
\<close>

definition cv_lists :: "addr list \<Rightarrow> (addr \<Rightarrow> addr list) \<Rightarrow> ('k, 'z) cvworld_scheme \<Rightarrow> bool" where
  "cv_lists q CS w \<longleftrightarrow> (\<forall>c. cv_list c (CS c) w \<and> set (CS c) \<inter> set q = {}) \<and> (\<forall>c d. c \<noteq> d \<longrightarrow> set (CS c) \<inter> set (CS d) = {})"

definition cv_state :: "addr \<Rightarrow> addr list \<Rightarrow> (addr \<Rightarrow> addr list) \<Rightarrow> ('k, 'z) cvworld_scheme \<Rightarrow> bool" where
  "cv_state m q CS w \<longleftrightarrow> mutex_held m q w \<and> (\<forall>a \<in> set q. mutex_able m a w) \<and> cv_lists q CS w"

text \<open>The awaiters \<open>bs\<close> go back to sleep, each on its own condition variable.\<close>

definition back_to_sleep where
  "back_to_sleep w bs CS = (\<lambda>c. CS c @ filter (sleeps_on w c) bs)"

lemma back_to_sleep_Nil [simp]: "back_to_sleep w [] CS = CS"
  by (simp add: back_to_sleep_def)

lemma back_to_sleep_Cons:
  assumes "cv_info w a = Some p"
  shows "back_to_sleep w (a # bs) CS = back_to_sleep w bs (CS(m_cv p := CS (m_cv p) @ [a]))"
  using assms by (auto simp: back_to_sleep_def sleeps_on_def)

lemma cv_same_back: "cv_same w w' \<Longrightarrow> back_to_sleep w' bs CS = back_to_sleep w bs CS"
proof -
  assume "cv_same w w'"
  then have "sleeps_on w' = sleeps_on w" by (intro ext) (rule cv_same_blocks)
  then show ?thesis by (simp add: back_to_sleep_def)
qed

lemma cv_sleep_lists:
  assumes lists: "cv_lists (a # q) CS w" and x: "a \<noteq> nullptr" "awaiters w a = Some x" and p: "cv_info w a = Some p" "a \<notin> set q"
  shows "\<exists>w'. cv_sleep a w = Inr w' \<and> cv_lists q (CS(m_cv p := CS (m_cv p) @ [a])) w' \<and> cv_same w w' \<and>
    (\<forall>b \<in> set q. awaiters w' b = awaiters w b) \<and> mtx_state w' = mtx_state w \<and> mtx_resume_list w' = mtx_resume_list w"
proof -
  let ?c = "m_cv p"
  have l: "cv_list ?c (CS ?c) w" "a \<notin> set (CS c)" "set (CS c) \<inter> set q = {}" "c \<noteq> d \<Longrightarrow> set (CS c) \<inter> set (CS d) = {}" for c d
    using lists unfolding cv_lists_def by auto
  from cv_sleep_ok [OF x p(1) l(1,2)] obtain w' where
    w': "cv_sleep a w = Inr w'" "cv_list ?c (CS ?c @ [a]) w'" "cv_same w w'" "\<forall>c. c \<noteq> ?c \<longrightarrow> cvs w' c = cvs w c"
      "\<forall>b. b \<notin> set (CS ?c @ [a]) \<longrightarrow> awaiters w' b = awaiters w b" "mtx_state w' = mtx_state w" "mtx_resume_list w' = mtx_resume_list w"
    by blast
  have q: "\<forall>b \<in> set q. awaiters w' b = awaiters w b" using w'(5) p(2) l(3) [of ?c] by auto
  have "cv_list c (CS c) w'" if "c \<noteq> ?c" for c
  proof -
    have "cv_list c (CS c) w' = cv_list c (CS c) w" using that w'(4,5) l(2) [of c] l(4) [OF that] by (intro cv_list_cong) auto
    then show ?thesis using lists by (simp add: cv_lists_def)
  qed
  then have "cv_lists q (CS(?c := CS ?c @ [a])) w'"
    using w'(2) l(2,3,4) p(2) unfolding cv_lists_def by auto
  then show ?thesis using w'(1,3,6,7) q by blast
qed

lemma cv_sleep_state:
  assumes lists: "cv_lists (a # q) CS w" and held: "mutex_held m q w"
    and able: "\<forall>b \<in> set (a # q). mutex_able m b w" and p: "cv_info w a = Some p" "a \<notin> set q"
  shows "\<exists>w'. cv_sleep a w = Inr w' \<and> cv_state m q (CS(m_cv p := CS (m_cv p) @ [a])) w' \<and> cv_same w w'"
proof -
  from able obtain x where "a \<noteq> nullptr" "awaiters w a = Some x" by (auto simp: mutex_able_def)
  from cv_sleep_lists [OF lists this p] obtain w' where
    w': "cv_sleep a w = Inr w'" "cv_lists q (CS(m_cv p := CS (m_cv p) @ [a])) w'" "cv_same w w'"
      "\<forall>b \<in> set q. awaiters w' b = awaiters w b" "mtx_state w' = mtx_state w" "mtx_resume_list w' = mtx_resume_list w" by blast
  have "mutex_held m q w'" using mutex_held_cong [OF _ _ _ held, of w'] w'(4,5,6) by simp
  moreover have "\<forall>b \<in> set q. mutex_able m b w'" using able cv_same_able [OF w'(3)] by auto
  ultimately show ?thesis using w'(1,2,3) by (auto simp: cv_state_def)
qed

lemma unlock_next_lists:
  assumes st: "cv_state m (b # q) CS w"
  shows "\<exists>w'. unlock_next m w = Some (Inr (Some b, w')) \<and> mutex_held m q w' \<and> cv_lists (b # q) CS w' \<and> cv_same w w'"
proof -
  have held: "mutex_held m (b # q) w" and lists: "cv_lists (b # q) CS w" using st by (simp_all add: cv_state_def)
  from unlock_next_waiter [OF held] obtain w' mm st rl where
    w': "unlock_next m w = Some (Inr (Some b, w'))" "mutex_held m q w'"
      "w' = w\<lparr>awaiters := mm, mtx_state := (mtx_state w)(m := st), mtx_resume_list := (mtx_resume_list w)(m := rl)\<rparr>"
      "same_jobs (awaiters w) mm" "\<forall>c. c \<notin> set (b # q) \<longrightarrow> mm c = awaiters w c" by blast
  have "cv_list c (CS c) w' = cv_list c (CS c) w" for c
  proof (rule cv_list_cong)
    fix a assume "a \<in> set (CS c)"
    then have "a \<notin> set (b # q)" using lists by (auto simp: cv_lists_def)
    then show "awaiters w' a = awaiters w a" using w'(3,5) by simp
  qed (simp add: w'(3))
  then have "cv_lists (b # q) CS w'" using lists by (simp add: cv_lists_def)
  moreover have "cv_same w w'" using w'(3,4) by (simp add: cv_same_def)
  ultimately show ?thesis using w' by blast
qed

lemma unlock_next_free:
  assumes "cv_state m [] CS w"
  shows "\<exists>w'. unlock_next m w = Some (Inr (None, w')) \<and> mutex_free m w' \<and> cv_lists [] CS w' \<and> cv_same w w' \<and>
    cvs w' = cvs w \<and> awaiters w' = awaiters w"
proof -
  have "mtx_state w m = nullptr" "mtx_resume_list w m = nullptr"
    using assms by (auto simp: cv_state_def mutex_held_def)
  then have "unlock_next m w = Some (Inr (None, w\<lparr>mtx_state := (mtx_state w)(m := nolocked)\<rparr>))"
    "mutex_free m (w\<lparr>mtx_state := (mtx_state w)(m := nolocked)\<rparr>)"
    by (simp_all add: unlock_next_def mutex_free_def nolocked_def locked_no_waiting_def)
  moreover have "cv_lists [] CS (w\<lparr>mtx_state := (mtx_state w)(m := nolocked)\<rparr>)"
    using assms by (simp add: cv_state_def cv_lists_def cv_list_def)
  ultimately show ?thesis by (auto simp: cv_same_def)
qed

text \<open>
  The result of handing the mutex to the first of \<open>q\<close>: those whose predicate does not hold go back to sleep,
  and \<open>call\<close> ends by resuming the first other one, or by freeing the mutex.
\<close>

definition handed_over where
  "handed_over K resume eval m q CS w call \<longleftrightarrow>
     (\<exists>w1. cv_same w w1 \<and>
       (let blocked = (\<lambda>b. cond_blocks eval b w); CS1 = back_to_sleep w (takeWhile blocked q) CS in
        case dropWhile blocked q of
          [] \<Rightarrow> call = Some (Inr w1) \<and> mutex_free m w1 \<and> cv_lists [] CS1 w1
        | b # q1 \<Rightarrow> call = Some (mutex_resume K resume b w1) \<and> cv_state m q1 CS1 w1 \<and> mutex_able m b w1))"

lemma handed_over_same:
  assumes "cv_same w w1" and "handed_over K resume eval m q CS w1 call"
  shows "handed_over K resume eval m q CS w call"
proof -
  have bl: "(\<lambda>b. cond_blocks eval b w1) = (\<lambda>b. cond_blocks eval b w)" using cv_same_blocks(1) [OF assms(1)] by blast
  show ?thesis using assms(2) cv_same_trans [OF assms(1)] unfolding handed_over_def bl cv_same_back [OF assms(1)] by blast
qed

lemma handed_over_step:
  assumes "cv_same w w1" and "cond_blocks eval a w" and "cv_info w a = Some p"
    and "handed_over K resume eval m q (CS(m_cv p := CS (m_cv p) @ [a])) w1 call"
  shows "handed_over K resume eval m (a # q) CS w call"
proof -
  let ?CS = "CS(m_cv p := CS (m_cv p) @ [a])" and ?b = "\<lambda>b. cond_blocks eval b w"
  have bl: "(\<lambda>b. cond_blocks eval b w1) = ?b" using cv_same_blocks(1) [OF assms(1)] by blast
  have CS: "back_to_sleep w1 (takeWhile ?b q) ?CS = back_to_sleep w (takeWhile ?b (a # q)) CS"
    using assms(2) cv_same_back [OF assms(1)] back_to_sleep_Cons [OF assms(3)] by simp
  have dr: "dropWhile ?b (a # q) = dropWhile ?b q" using assms(2) by simp
  from assms(4) obtain w2 where "cv_same w1 w2"
    "let CS1 = back_to_sleep w1 (takeWhile ?b q) ?CS in case dropWhile ?b q of
       [] \<Rightarrow> call = Some (Inr w2) \<and> mutex_free m w2 \<and> cv_lists [] CS1 w2
     | b # q1 \<Rightarrow> call = Some (mutex_resume K resume b w2) \<and> cv_state m q1 CS1 w2 \<and> mutex_able m b w2"
    unfolding handed_over_def bl by (auto simp: Let_def)
  then show ?thesis unfolding handed_over_def Let_def CS dr using cv_same_trans [OF assms(1)] by blast
qed

text \<open>An awaiter that was handed the mutex either runs, or goes to sleep and unlocks.\<close>

lemma virtual_resume_runs:
  assumes "mutex_held m q w" and "\<forall>b \<in> set (a # q). mutex_able m b w" and "cv_lists (a # q) CS w" and "\<not> cond_blocks eval a w"
  shows "handed_over K resume eval m (a # q) CS w (virtual_resume K resume eval a w)"
proof -
  have "cv_lists q CS w" using assms(3) by (simp add: cv_lists_def)
  then show ?thesis using assms unfolding handed_over_def
    by (intro exI [of _ w]) (subst virtual_resume.simps, simp add: cv_state_def)
qed

lemma virtual_resume_sleeps:
  assumes "mutex_held m q w" and able: "\<forall>b \<in> set (a # q). mutex_able m b w" and "cv_lists (a # q) CS w" and a: "a \<notin> set q"
    and blocked: "cond_blocks eval a w" and p: "cv_info w a = Some p"
  shows "\<exists>w1. virtual_resume K resume eval a w = virtual_unlock K resume eval m w1 \<and>
    cv_state m q (CS(m_cv p := CS (m_cv p) @ [a])) w1 \<and> cv_same w w1"
proof -
  from able obtain x where x: "a \<noteq> nullptr" "awaiters w a = Some x" "a_obj x = m" by (auto simp: mutex_able_def)
  from cv_sleep_state [OF assms(3,1,2) p a] obtain w1 where
    w1: "cv_sleep a w = Inr w1" "cv_state m q (CS(m_cv p := CS (m_cv p) @ [a])) w1" "cv_same w w1" by blast
  have "virtual_resume K resume eval a w = virtual_unlock K resume eval m w1"
    using blocked x w1(1) by (subst virtual_resume.simps) (simp add: virtual_unlock_def)
  then show ?thesis using w1(2,3) by blast
qed

lemma virtual_unlock_hands_over:
  "cv_state m q CS w \<Longrightarrow> handed_over K resume eval m q CS w (virtual_unlock K resume eval m w)"
proof (induction q arbitrary: w CS)
  case Nil
  from unlock_next_free [OF Nil] obtain w1 where
    "unlock_next m w = Some (Inr (None, w1))" "mutex_free m w1" "cv_lists [] CS w1" "cv_same w w1" by blast
  then show ?case unfolding handed_over_def by (intro exI [of _ w1]) (simp add: virtual_unlock_def)
next
  case (Cons b q)
  from unlock_next_lists [OF Cons.prems] obtain w1 where
    w1: "unlock_next m w = Some (Inr (Some b, w1))" "mutex_held m q w1" "cv_lists (b # q) CS w1" "cv_same w w1" by blast
  have call: "virtual_unlock K resume eval m w = virtual_resume K resume eval b w1" using w1(1) by (simp add: virtual_unlock_def)
  have able: "\<forall>c \<in> set (b # q). mutex_able m c w1" using Cons.prems cv_same_able [OF w1(4)] by (simp add: cv_state_def)
  have d: "b \<notin> set q" using Cons.prems by (auto simp: cv_state_def mutex_held_def)
  have "handed_over K resume eval m (b # q) CS w1 (virtual_resume K resume eval b w1)"
  proof (cases "cond_blocks eval b w1")
    case False
    then show ?thesis by (intro virtual_resume_runs w1(2,3) able)
  next
    case True
    then obtain p where p: "cv_info w1 b = Some p" by (auto simp: cond_blocks_def split: option.splits)
    from virtual_resume_sleeps [OF w1(2) able w1(3) d True p, of K resume] obtain w2 where
      w2: "virtual_resume K resume eval b w1 = virtual_unlock K resume eval m w2"
        "cv_state m q (CS(m_cv p := CS (m_cv p) @ [b])) w2" "cv_same w1 w2" by blast
    show ?thesis unfolding w2(1) by (rule handed_over_step [OF w2(3) True p Cons.IH [OF w2(2)]])
  qed
  then show ?case unfolding call by (rule handed_over_same [OF w1(4)])
qed

text \<open>The first waiter runs when its predicate holds or it has none.\<close>

lemma rest_cvs:
  fixes w w' :: "('k, 'z) cvworld_scheme"
  assumes "context_rest w' = context_rest w"
  shows "cvs w' = cvs w" and "cv_info w' = cv_info w" and "mtx_state w' = mtx_state w" and "mtx_resume_list w' = mtx_resume_list w"
    and "cvworld.more w' = cvworld.more w"
proof -
  have "aworld.more w' = aworld.more w" using assms by (rule rest_awaiters)
  then show "cvs w' = cvs w" "cv_info w' = cv_info w" "mtx_state w' = mtx_state w" "mtx_resume_list w' = mtx_resume_list w"
    "cvworld.more w' = cvworld.more w"
    by (cases w; cases w'; simp)+
qed

lemma rest_state:
  fixes w w' :: "('k, 'z) cvworld_scheme"
  assumes "context_rest w' = context_rest w"
  shows "mutex_held m q w' = mutex_held m q w" and "cv_lists q CS w' = cv_lists q CS w" and "mutex_able m b w' = mutex_able m b w"
  by (simp_all add: mutex_held_def cv_lists_def cv_list_def mutex_able_def rest_awaiters(1) [OF assms] rest_cvs [OF assms])

lemma virtual_unlock_submits:
  assumes st: "cv_state m (b # q) CS w" and runs: "\<not> cond_blocks eval b w"
    and x: "awaiters w b = Some x" "a_coro x \<noteq> nullptr" and ok: "contexts_ok K cnt w" "0 < context_room cnt (a_ctx x) w"
  shows "\<exists>w1 w'. virtual_unlock K resume eval m w = Some (Inr w') \<and> cv_same w w1 \<and> context_rest w' = context_rest w1 \<and>
    mutex_held m q w' \<and> cv_lists (b # q) CS w' \<and> queued (a_ctx x) w' = queued (a_ctx x) w @ [a_coro x] \<and>
    (\<forall>d. d \<noteq> a_ctx x \<longrightarrow> queued d w' = queued d w)"
proof -
  from unlock_next_lists [OF st] obtain w1 where
    w1: "unlock_next m w = Some (Inr (Some b, w1))" "mutex_held m q w1" "cv_lists (b # q) CS w1" "cv_same w w1" by blast
  have "same_jobs (awaiters w) (awaiters w1)" using w1(4) by (simp add: cv_same_def)
  from same_jobs_Some [OF this x(1)] obtain n where y: "awaiters w1 b = Some (x\<lparr>a_next := n\<rparr>)" by blast
  have e: "engines w1 = engines w" using w1(4) by (simp add: cv_same_def)
  have bn: "b \<noteq> nullptr" using st by (simp add: cv_state_def mutex_able_def)
  from submit_awaiter_ok [of K cnt w1 "x\<lparr>a_next := n\<rparr>" b resume, OF _ _ _ bn y] x(2) ok obtain w' where
    w': "submit_awaiter K resume b w1 = Inr w'" "queued (a_ctx x) w' = queued (a_ctx x) w1 @ [a_coro x]"
      "\<forall>c. c \<noteq> a_ctx x \<longrightarrow> queued c w' = queued c w1" "context_rest w' = context_rest w1"
    by (auto simp: contexts_cong [OF e])
  have "\<not> cond_blocks eval b w1" using runs cv_same_blocks(1) [OF w1(4)] by blast
  then have "virtual_unlock K resume eval m w = Some (Inr w')"
    using w1(1) w'(1) by (simp add: virtual_unlock_def) (subst virtual_resume.simps, simp add: mutex_resume_def)
  then show ?thesis using w1(2,3,4) w' e by (intro exI [of _ w1] exI [of _ w']) (simp add: rest_state [OF w'(4)])
qed

section \<open>Notifying\<close>

lemma register_lock_frame:
  assumes "register_lock a w = Inr (b, w')"
  shows "cvs w' = cvs w \<and> cv_same w w' \<and> (\<forall>c. c \<noteq> a \<longrightarrow> awaiters w' c = awaiters w c)"
  using assms by (auto simp: register_lock_def Let_def get_awaiter_def cv_same_def same_jobs_link split: if_splits option.splits)

lemma cv_wake_up_held:
  assumes "mutex_held m q w" and "mutex_able m a w" and "a \<notin> set q"
  shows "\<exists>w'. cv_wake_up K resume eval a w = Some (Inr w') \<and> mutex_held m (q @ [a]) w' \<and> cvs w' = cvs w \<and> cv_same w w' \<and>
    (\<forall>c. c \<noteq> a \<longrightarrow> awaiters w' c = awaiters w c)"
proof -
  from register_lock_held [OF assms] obtain w' where w': "register_lock a w = Inr (True, w')" "mutex_held m (q @ [a]) w'" by blast
  then show ?thesis using register_lock_frame [OF w'(1)] by (intro exI [of _ w']) (simp add: cv_wake_up_def)
qed

lemma wake_up_linked_held:
  "waiting (awaiters w) p as \<Longrightarrow> mutex_held m q w \<Longrightarrow> (\<forall>a \<in> set as. mutex_able m a w) \<Longrightarrow> set q \<inter> set as = {} \<Longrightarrow>
    \<exists>w'. wake_up_linked K resume eval p w = Some (Inr w') \<and> mutex_held m (q @ as) w' \<and> cvs w' = cvs w \<and> cv_same w w' \<and>
      (\<forall>c. c \<notin> set as \<longrightarrow> awaiters w' c = awaiters w c)"
proof (induction as arbitrary: p w q)
  case Nil
  then show ?case by (subst wake_up_linked.simps) simp
next
  case (Cons a as)
  then obtain x where x: "p = a" "a \<noteq> nullptr" "awaiters w a = Some x" "waiting (awaiters w) (a_next x) as" by auto
  from cv_wake_up_held [OF Cons.prems(2), of a K resume eval] Cons.prems(3,4) obtain w1 where
    w1: "cv_wake_up K resume eval a w = Some (Inr w1)" "mutex_held m (q @ [a]) w1" "cvs w1 = cvs w" "cv_same w w1"
      "\<forall>c. c \<noteq> a \<longrightarrow> awaiters w1 c = awaiters w c" by auto
  have a: "a \<notin> set as" using waiting_distinct [OF Cons.prems(1)] by simp
  have "waiting (awaiters w1) (a_next x) as = waiting (awaiters w) (a_next x) as"
    using w1(5) a by (intro waiting_cong) metis
  moreover have "\<forall>b \<in> set as. mutex_able m b w1" using Cons.prems(3) cv_same_able [OF w1(4)] by simp
  moreover have "set (q @ [a]) \<inter> set as = {}" using Cons.prems(4) a by auto
  ultimately obtain w' where
    w': "wake_up_linked K resume eval (a_next x) w1 = Some (Inr w')" "mutex_held m (q @ a # as) w'" "cvs w' = cvs w1" "cv_same w1 w'"
      "\<forall>c. c \<notin> set as \<longrightarrow> awaiters w' c = awaiters w1 c"
    using Cons.IH [OF _ w1(2), of "a_next x"] x(4) by auto
  have "wake_up_linked K resume eval p w = Some (Inr w')"
    using x w1(1) w'(1) by (subst wake_up_linked.simps) simp
  then show ?case using w'(2,3,5) w1(3,5) cv_same_trans [OF w1(4) w'(4)] by (intro exI [of _ w']) simp
qed

text \<open>A sleeper that is notified while the mutex is free, and whose predicate does not hold, sleeps on.\<close>

lemma cv_wake_up_blocked:
  assumes free: "mutex_free m w" and able: "mutex_able m a w" and blocked: "cond_blocks eval a w" and p: "cv_info w a = Some p"
    and lists: "cv_lists (a # as) CS w" and a: "a \<notin> set as"
  shows "\<exists>w'. cv_wake_up K resume eval a w = Some (Inr w') \<and> mutex_free m w' \<and>
    cv_lists as (CS(m_cv p := CS (m_cv p) @ [a])) w' \<and> cv_same w w' \<and> (\<forall>b \<in> set as. awaiters w' b = awaiters w b)"
proof -
  let ?CS = "CS(m_cv p := CS (m_cv p) @ [a])"
  from register_lock_free [OF free able] obtain w1 where w1: "register_lock a w = Inr (False, w1)" "mutex_held m [] w1" by blast
  note fr = register_lock_frame [OF w1(1)]
  have able1: "mutex_able m a w1" and bl1: "cond_blocks eval a w1" using fr able blocked by (auto simp: cv_same_able cv_same_blocks)
  then obtain x1 p1 where x1: "a \<noteq> nullptr" "awaiters w1 a = Some x1" "a_obj x1 = m" "cv_info w1 a = Some p1"
    by (auto simp: mutex_able_def cond_blocks_def split: option.splits)
  have cv: "m_cv p1 = m_cv p" using cv_same_info [of w w1 a] fr p x1(4) by simp
  have "cv_list c (CS c) w1 = cv_list c (CS c) w" for c
    using fr lists by (intro cv_list_cong) (auto simp: cv_lists_def)
  then have "cv_lists (a # as) CS w1" using lists by (simp add: cv_lists_def)
  from cv_sleep_lists [OF this x1(1,2,4) a] obtain w2 where
    w2: "cv_sleep a w1 = Inr w2" "cv_lists as ?CS w2" "cv_same w1 w2" "\<forall>b \<in> set as. awaiters w2 b = awaiters w1 b"
      "mtx_state w2 = mtx_state w1" "mtx_resume_list w2 = mtx_resume_list w1" unfolding cv by blast
  have "mutex_held m [] w2" using w1(2) w2(5,6) by (simp add: mutex_held_def)
  then have "cv_state m [] ?CS w2" using w2(2) by (simp add: cv_state_def cv_lists_def)
  from unlock_next_free [OF this] obtain w3 where
    w3: "unlock_next m w2 = Some (Inr (None, w3))" "mutex_free m w3" "cv_same w2 w3" "cvs w3 = cvs w2" "awaiters w3 = awaiters w2" by blast
  have "virtual_resume K resume eval a w1 = Some (Inr w3)"
    using bl1 x1 w2(1) w3(1) by (subst virtual_resume.simps) simp
  then have "cv_wake_up K resume eval a w = Some (Inr w3)" using w1(1) by (simp add: cv_wake_up_def)
  moreover have "cv_lists as ?CS w3" using w2(2) w3(4,5) by (simp add: cv_lists_def cv_list_def)
  moreover have "cv_same w w3" using fr w2(3) w3(3) by (blast intro: cv_same_trans)
  moreover have "\<forall>b \<in> set as. awaiters w3 b = awaiters w b" using fr w2(4) w3(5) a by auto
  ultimately show ?thesis using w3(2) by blast
qed

text \<open>One whose predicate holds, or that has none, takes the mutex and is submitted to its context.\<close>

lemma cv_wake_up_runs:
  assumes free: "mutex_free m w" and able: "mutex_able m a w" and runs: "\<not> cond_blocks eval a w"
    and x: "awaiters w a = Some x" "a_coro x \<noteq> nullptr" and ok: "contexts_ok K cnt w" "0 < context_room cnt (a_ctx x) w"
  shows "\<exists>w'. cv_wake_up K resume eval a w = Some (Inr w') \<and> mutex_held m [] w' \<and> cvs w' = cvs w \<and>
    queued (a_ctx x) w' = queued (a_ctx x) w @ [a_coro x] \<and> (\<forall>c. c \<noteq> a_ctx x \<longrightarrow> queued c w' = queued c w) \<and>
    (\<forall>c. c \<noteq> a \<longrightarrow> awaiters w' c = awaiters w c) \<and> (\<forall>b. mutex_able m b w \<longrightarrow> mutex_able m b w')"
proof -
  from register_lock_free [OF free able] obtain w1 where w1: "register_lock a w = Inr (False, w1)" "mutex_held m [] w1" by blast
  note fr = register_lock_frame [OF w1(1)]
  have e: "engines w1 = engines w" using fr by (simp add: cv_same_def)
  have "same_jobs (awaiters w) (awaiters w1)" using fr by (simp add: cv_same_def)
  from same_jobs_Some [OF this x(1)] obtain n where y: "awaiters w1 a = Some (x\<lparr>a_next := n\<rparr>)" by blast
  have a: "a \<noteq> nullptr" using able by (simp add: mutex_able_def)
  have bl1: "\<not> cond_blocks eval a w1" using fr runs cv_same_blocks(1) [of w w1 eval a] by simp
  from submit_awaiter_ok [of K cnt w1 "x\<lparr>a_next := n\<rparr>" a resume, OF _ _ _ a y] x(2) ok obtain w' where
    w': "submit_awaiter K resume a w1 = Inr w'" "queued (a_ctx x) w' = queued (a_ctx x) w1 @ [a_coro x]"
      "\<forall>c. c \<noteq> a_ctx x \<longrightarrow> queued c w' = queued c w1" "context_rest w' = context_rest w1"
    by (auto simp: contexts_cong [OF e])
  have same: "awaiters w' = awaiters w1" using w'(4) by (rule rest_awaiters)
  have "virtual_resume K resume eval a w1 = Some (Inr w')"
    using bl1 w'(1) by (subst virtual_resume.simps) (simp add: mutex_resume_def)
  then have "cv_wake_up K resume eval a w = Some (Inr w')" using w1(1) by (simp add: cv_wake_up_def)
  moreover have "mutex_held m [] w'" using w1(2) by (simp add: mutex_held_def same rest_cvs [OF w'(4)])
  moreover have "mutex_able m b w \<Longrightarrow> mutex_able m b w'" for b
    using fr cv_same_able [of w w1 m b] by (simp add: mutex_able_def same)
  ultimately show ?thesis using w'(2,3) fr e same rest_cvs(1) [OF w'(4)] by auto
qed


lemma wake_up_linked_free:
  "waiting (awaiters w) p as \<Longrightarrow> mutex_free m w \<Longrightarrow> (\<forall>a \<in> set as. mutex_able m a w \<and> sleeps_on w c a) \<Longrightarrow>
    cv_lists as CS w \<Longrightarrow>
    \<exists>w1. cv_same w w1 \<and> mutex_free m w1 \<and>
      cv_lists (dropWhile (\<lambda>a. cond_blocks eval a w) as) (CS(c := CS c @ takeWhile (\<lambda>a. cond_blocks eval a w) as)) w1 \<and>
      (\<exists>p1. waiting (awaiters w1) p1 (dropWhile (\<lambda>a. cond_blocks eval a w) as) \<and>
         wake_up_linked K resume eval p w = wake_up_linked K resume eval p1 w1)"
proof (induction as arbitrary: p w CS)
  case Nil
  then show ?case by (intro exI [of _ w]) simp
next
  case (Cons a as)
  then obtain x where x: "p = a" "a \<noteq> nullptr" "awaiters w a = Some x" "waiting (awaiters w) (a_next x) as" by auto
  have a: "a \<notin> set as" using waiting_distinct [OF Cons.prems(1)] by simp
  show ?case
  proof (cases "cond_blocks eval a w")
    case False
    then show ?thesis using Cons.prems by (intro exI [of _ w]) (auto simp del: waiting_Cons)
  next
    case True
    let ?CS = "CS(c := CS c @ [a])"
    from Cons.prems(3) obtain q where q: "cv_info w a = Some q" "m_cv q = c" "mutex_able m a w" by (auto simp: sleeps_on_def)
    from cv_wake_up_blocked [OF Cons.prems(2) q(3) True q(1) Cons.prems(4) a, of K resume] obtain w1 where
      w1: "cv_wake_up K resume eval a w = Some (Inr w1)" "mutex_free m w1" "cv_lists as ?CS w1" "cv_same w w1"
        "\<forall>b \<in> set as. awaiters w1 b = awaiters w b" unfolding q(2) by blast
    have step: "wake_up_linked K resume eval p w = wake_up_linked K resume eval (a_next x) w1"
      using x w1(1) by (subst wake_up_linked.simps) simp
    have bl: "(\<lambda>a. cond_blocks eval a w1) = (\<lambda>a. cond_blocks eval a w)" using cv_same_blocks(1) [OF w1(4)] by blast
    have "waiting (awaiters w1) (a_next x) as" using x(4) w1(5) waiting_cong [of as "awaiters w1" "awaiters w"] by simp
    moreover have "\<forall>b \<in> set as. mutex_able m b w1 \<and> sleeps_on w1 c b"
      using Cons.prems(3) w1(4) by (auto simp: cv_same_able cv_same_blocks(2))
    ultimately have "\<exists>w2. cv_same w1 w2 \<and> mutex_free m w2 \<and>
      cv_lists (dropWhile (\<lambda>a. cond_blocks eval a w) as) (?CS(c := ?CS c @ takeWhile (\<lambda>a. cond_blocks eval a w) as)) w2 \<and>
      (\<exists>p1. waiting (awaiters w2) p1 (dropWhile (\<lambda>a. cond_blocks eval a w) as) \<and>
         wake_up_linked K resume eval (a_next x) w1 = wake_up_linked K resume eval p1 w2)"
      using Cons.IH [OF _ w1(2) _ w1(3), of "a_next x"] unfolding bl by blast
    moreover have "?CS(c := ?CS c @ bs) = CS(c := CS c @ a # bs)" for bs by simp
    moreover have "dropWhile (\<lambda>a. cond_blocks eval a w) (a # as) = dropWhile (\<lambda>a. cond_blocks eval a w) as"
      "takeWhile (\<lambda>a. cond_blocks eval a w) (a # as) = a # takeWhile (\<lambda>a. cond_blocks eval a w) as" using True by simp_all
    ultimately show ?thesis unfolding step using cv_same_trans [OF w1(4)] by metis
  qed
qed

text \<open>Once the first of the list has taken the mutex, the others queue for it.\<close>

lemma wake_up_linked_runs:
  assumes wt: "waiting (awaiters w) p (a # q)" and free: "mutex_free m w" and able: "\<forall>b \<in> set (a # q). mutex_able m b w"
    and runs: "\<not> cond_blocks eval a w" and x: "awaiters w a = Some x" "a_coro x \<noteq> nullptr"
    and ok: "contexts_ok K cnt w" "0 < context_room cnt (a_ctx x) w"
  shows "\<exists>w'. wake_up_linked K resume eval p w = Some (Inr w') \<and> mutex_held m q w' \<and> cvs w' = cvs w \<and>
    queued (a_ctx x) w' = queued (a_ctx x) w @ [a_coro x] \<and> (\<forall>d. d \<noteq> a_ctx x \<longrightarrow> queued d w' = queued d w) \<and>
    (\<forall>b. b \<notin> set (a # q) \<longrightarrow> awaiters w' b = awaiters w b)"
proof -
  have p: "p = a" "a \<noteq> nullptr" "waiting (awaiters w) (a_next x) q" using wt x(1) by auto
  have aq: "a \<notin> set q" using waiting_distinct [OF wt] by simp
  from cv_wake_up_runs [OF free _ runs x ok, of resume] able obtain w1 where
    w1: "cv_wake_up K resume eval a w = Some (Inr w1)" "mutex_held m [] w1" "cvs w1 = cvs w"
      "queued (a_ctx x) w1 = queued (a_ctx x) w @ [a_coro x]" "\<forall>d. d \<noteq> a_ctx x \<longrightarrow> queued d w1 = queued d w"
      "\<forall>c. c \<noteq> a \<longrightarrow> awaiters w1 c = awaiters w c" "\<forall>b. mutex_able m b w \<longrightarrow> mutex_able m b w1" by auto
  have "waiting (awaiters w1) (a_next x) q" using p(3) w1(6) aq waiting_cong [of q "awaiters w1" "awaiters w"] by metis
  moreover have "\<forall>b \<in> set q. mutex_able m b w1" using able w1(7) by simp
  ultimately obtain w2 where w2: "wake_up_linked K resume eval (a_next x) w1 = Some (Inr w2)" "mutex_held m q w2" "cvs w2 = cvs w1"
      "cv_same w1 w2" "\<forall>b. b \<notin> set q \<longrightarrow> awaiters w2 b = awaiters w1 b"
    using wake_up_linked_held [OF _ w1(2), of "a_next x" q K resume eval] by auto
  have "wake_up_linked K resume eval p w = Some (Inr w2)"
    using p(1,2) x(1) w1(1) w2(1) by (subst wake_up_linked.simps) simp
  moreover have "engines w2 = engines w1" using w2(4) by (simp add: cv_same_def)
  ultimately show ?thesis using w1(3,4,5,6) w2(2,3,5) by (intro exI [of _ w2]) simp
qed

text \<open>Taking the whole list out, as \<^verbatim>\<open>notify_all\<close> begins.\<close>

lemma notify_all_takes:
  assumes "cv_lists q CS w"
  shows "\<exists>w0. notify_all K resume eval c w = wake_up_linked K resume eval (m_head (cvs w c)) w0 \<and>
    w0 = put_cv c ((cvs w c)\<lparr>m_head := nullptr, m_tail := nullptr, cv_lock := False\<rparr>) w \<and> cv_lists (q @ CS c) (CS(c := [])) w0 \<and> cv_same w w0"
proof -
  let ?w0 = "put_cv c ((cvs w c)\<lparr>m_head := nullptr, m_tail := nullptr, cv_lock := False\<rparr>) w"
  have l: "cv_list d (CS d) w" "set (CS d) \<inter> set q = {}" "d \<noteq> e \<Longrightarrow> set (CS d) \<inter> set (CS e) = {}" for d e
    using assms by (auto simp: cv_lists_def)
  have "\<not> cv_lock (cvs w c)" using l(1) [of c] by (simp add: cv_list_def)
  then have "notify_all K resume eval c w = wake_up_linked K resume eval (m_head (cvs w c)) ?w0"
    by (simp add: notify_all_def cv_acquire_ok cv_release_def spin_unlock_def Let_def)
  moreover have "cv_list d (CS d) ?w0" if "d \<noteq> c" for d using that l(1) [of d] by (simp add: cv_list_def)
  then have "cv_lists (q @ CS c) (CS(c := [])) ?w0" using l(2,3) l(3) [of _ c] unfolding cv_lists_def by (simp add: cv_list_def Int_Un_distrib)
  moreover have "cv_same w ?w0" by (simp add: cv_same_def)
  ultimately show ?thesis by blast
qed


text \<open>With nobody asleep notifying does nothing.\<close>

lemma cv_list_Nil:
  assumes "cv_list c [] w"
  shows "cvs w c = \<lparr>cv_lock = False, m_head = nullptr, m_tail = nullptr\<rparr>"
  using assms by (cases "cvs w c") (simp add: cv_list_def)

lemma put_cv_id: "put_cv c (cvs w c) w = w"
  by (simp add: put_cv_def)

lemma notify_none:
  assumes "cv_list c [] w"
  shows "notify_one K resume eval c w = Some (Inr w)" and "notify_all K resume eval c w = Some (Inr w)"
proof -
  note v = cv_list_Nil [OF assms]
  have lock: "\<not> cv_lock (cvs w c)" by (simp add: v)
  have id: "put_cv c \<lparr>cv_lock = False, m_head = nullptr, m_tail = nullptr\<rparr> w = w" using put_cv_id [of c w] by (simp add: v)
  show "notify_one K resume eval c w = Some (Inr w)"
    by (simp add: notify_one_def cv_acquire_ok [OF lock] cv_release_def spin_unlock_def Let_def v id)
  show "notify_all K resume eval c w = Some (Inr w)"
    by (simp add: notify_all_def cv_acquire_ok [OF lock] cv_release_def spin_unlock_def Let_def v id) (subst wake_up_linked.simps, simp)
qed

text \<open>With the mutex held, notifying one sleeper moves it to the end of the queue of the mutex.\<close>

lemma notify_one_held:
  assumes held: "mutex_held m q w" and lists: "cv_lists q CS w" and c: "CS c = b # bs" and able: "mutex_able m b w"
  shows "\<exists>w'. notify_one K resume eval c w = Some (Inr w') \<and> mutex_held m (q @ [b]) w' \<and>
    cv_lists (q @ [b]) (CS(c := bs)) w' \<and> cv_same w w'"
proof -
  have l: "cv_list d (CS d) w" "set (CS d) \<inter> set q = {}" "d \<noteq> e \<Longrightarrow> set (CS d) \<inter> set (CS e) = {}" for d e
    using lists by (auto simp: cv_lists_def)
  have cl: "cv_list c (b # bs) w" using l(1) [of c] c by simp
  then obtain x where x: "m_head (cvs w c) = b" "b \<noteq> nullptr" "awaiters w b = Some x" "waiting (awaiters w) (a_next x) bs"
    "\<not> cv_lock (cvs w c)" "m_tail (cvs w c) = last (b # bs)" by (auto simp: cv_list_def)
  have "distinct (b # bs)" using cl unfolding cv_list_def by (blast intro: waiting_distinct)
  then have b: "b \<notin> set bs" "b \<notin> set q" using l(2) [of c] c by auto
  let ?v = "(cvs w c)\<lparr>m_head := a_next x, m_tail := if a_next x = nullptr then nullptr else m_tail (cvs w c), cv_lock := False\<rparr>"
  let ?w = "put_cv c ?v w"
  have start: "notify_one K resume eval c w = cv_wake_up K resume eval b ?w"
    using x by (simp add: notify_one_def cv_acquire_ok cv_release_def spin_unlock_def Let_def)
  have "mutex_held m q ?w" "mutex_able m b ?w" using held able by (simp_all add: mutex_held_def mutex_able_def)
  from cv_wake_up_held [OF this b(2), of K resume eval] obtain w' where
    w': "cv_wake_up K resume eval b ?w = Some (Inr w')" "mutex_held m (q @ [b]) w'" "cvs w' = cvs ?w" "cv_same ?w w'"
      "\<forall>c. c \<noteq> b \<longrightarrow> awaiters w' c = awaiters w c" by auto
  have "cv_list c bs ?w"
    using x(4,6) b(1) by (cases bs) (auto simp: cv_list_def)
  then have "cv_list d ((CS(c := bs)) d) ?w" for d using l(1) [of d] by (cases "d = c") (simp_all add: cv_list_def)
  moreover have db: "b \<notin> set ((CS(c := bs)) d)" for d using b(1) l(3) [of d c] c by auto
  ultimately have "cv_list d ((CS(c := bs)) d) w'" for d
    using cv_list_cong [of w' d ?w "(CS(c := bs)) d"] w'(3,5) by (metis put_cv_simps(3))
  moreover have sub: "set ((CS(c := bs)) d) \<subseteq> set (CS d)" for d using c by auto
  have "set ((CS(c := bs)) d) \<inter> set (q @ [b]) = {}" for d
    using sub [of d] l(2) [of d] db [of d] unfolding set_append by (simp del: fun_upd_apply) blast
  moreover have "d \<noteq> e \<Longrightarrow> set ((CS(c := bs)) d) \<inter> set ((CS(c := bs)) e) = {}" for d e
    using sub [of d] sub [of e] l(3) [of d e] by blast
  ultimately have "cv_lists (q @ [b]) (CS(c := bs)) w'"
    unfolding cv_lists_def by blast
  moreover have "cv_same w ?w" by (simp add: cv_same_def)
  ultimately show ?thesis using start w'(1,2) cv_same_trans [OF _ w'(4)] by auto
qed

section \<open>Properties\<close>

text \<open>C9: unlocking a mutex on which sleepers of condition variables wait always returns, although each sleeper whose
  predicate does not hold calls unlock again: those at the front whose predicate fails go back to sleep on
  their own condition variables in order, and the first other one is resumed holding the mutex, or
  the mutex is free when there is none.\<close>

theorem cv_unlock_returns:
  assumes "cv_state m q CS w"
  shows "\<exists>w1. cv_same w w1 \<and>
    (case dropWhile (\<lambda>b. cond_blocks eval b w) q of
       [] \<Rightarrow> virtual_unlock K resume eval m w = Some (Inr w1) \<and> mutex_free m w1
     | a # q1 \<Rightarrow> virtual_unlock K resume eval m w = Some (mutex_resume K resume a w1) \<and> mutex_held m q1 w1) \<and>
    (\<forall>c. cv_list c (CS c @ filter (sleeps_on w c) (takeWhile (\<lambda>b. cond_blocks eval b w) q)) w1)"
proof -
  let ?b = "\<lambda>b. cond_blocks eval b w"
  from virtual_unlock_hands_over [OF assms, of K resume eval] obtain w1 where w1: "cv_same w w1"
    "case dropWhile ?b q of
       [] \<Rightarrow> virtual_unlock K resume eval m w = Some (Inr w1) \<and> mutex_free m w1 \<and> cv_lists [] (back_to_sleep w (takeWhile ?b q) CS) w1
     | a # q1 \<Rightarrow> virtual_unlock K resume eval m w = Some (mutex_resume K resume a w1) \<and>
         cv_state m q1 (back_to_sleep w (takeWhile ?b q) CS) w1 \<and> mutex_able m a w1"
    unfolding handed_over_def Let_def by blast
  then have "\<forall>c. cv_list c (back_to_sleep w (takeWhile ?b q) CS c) w1"
    by (cases "dropWhile ?b q") (simp_all add: cv_state_def cv_lists_def)
  then show ?thesis using w1 unfolding back_to_sleep_def
    by (intro exI [of _ w1]; cases "dropWhile ?b q") (simp_all only: list.simps cv_state_def simp_thms)
qed

text \<open>C10: notifying all sleepers of a condition variable while its mutex is free: the sleepers at the front whose
  predicate does not hold sleep on, the first other one takes the mutex and is submitted to its own
  context, those behind it wait for the mutex in their order, and nobody else is submitted.\<close>

theorem notify_all_free:
  assumes free: "mutex_free m w" and lists: "cv_lists [] CS w" and able: "\<forall>b \<in> set (CS c). mutex_able m b w \<and> sleeps_on w c b"
    and runs: "dropWhile (\<lambda>b. cond_blocks eval b w) (CS c) = a # q"
    and x: "awaiters w a = Some x" "a_coro x \<noteq> nullptr" and ok: "contexts_ok K cnt w" "0 < context_room cnt (a_ctx x) w"
  shows "\<exists>w'. notify_all K resume eval c w = Some (Inr w') \<and> mutex_held m q w' \<and>
    cv_list c (takeWhile (\<lambda>b. cond_blocks eval b w) (CS c)) w' \<and>
    queued (a_ctx x) w' = queued (a_ctx x) w @ [a_coro x] \<and> (\<forall>d. d \<noteq> a_ctx x \<longrightarrow> queued d w' = queued d w)"
proof -
  let ?b = "\<lambda>b. cond_blocks eval b w"
  from notify_all_takes [OF lists, of K resume eval c] obtain w0 where
    w0: "notify_all K resume eval c w = wake_up_linked K resume eval (m_head (cvs w c)) w0"
      "w0 = put_cv c ((cvs w c)\<lparr>m_head := nullptr, m_tail := nullptr, cv_lock := False\<rparr>) w"
      "cv_lists (CS c) (CS(c := [])) w0" "cv_same w w0" by auto
  have "waiting (awaiters w0) (m_head (cvs w c)) (CS c)" using lists by (simp add: cv_lists_def cv_list_def w0(2))
  moreover have "mutex_free m w0" using free by (simp add: mutex_free_def w0(2))
  moreover have "\<forall>b \<in> set (CS c). mutex_able m b w0 \<and> sleeps_on w0 c b"
    using able cv_same_able [OF w0(4)] cv_same_blocks(2) [OF w0(4)] by simp
  ultimately obtain w1 p1 where w1: "cv_same w0 w1" "mutex_free m w1" "cv_lists (a # q) (CS(c := takeWhile ?b (CS c))) w1"
      "waiting (awaiters w1) p1 (a # q)" "notify_all K resume eval c w = wake_up_linked K resume eval p1 w1"
    using wake_up_linked_free [of w0 "m_head (cvs w c)" "CS c" m c "CS(c := [])" eval K resume] w0(1,3) runs
      cv_same_blocks(1) [OF w0(4)] by auto
  have same: "cv_same w w1" using w0(4) w1(1) by (rule cv_same_trans)
  have e: "engines w1 = engines w" using same by (simp add: cv_same_def)
  have "a # q = dropWhile ?b (CS c)" using runs by simp
  then have "set (a # q) \<subseteq> set (CS c)" by (metis set_dropWhileD subsetI)
  then have able1: "\<forall>b \<in> set (a # q). mutex_able m b w1" using able cv_same_able [OF same] by blast
  have "\<not> cond_blocks eval a w" using runs by (metis hd_dropWhile list.sel(1) list.distinct(1))
  then have nb: "\<not> cond_blocks eval a w1" using cv_same_blocks(1) [OF same] by blast
  have "same_jobs (awaiters w) (awaiters w1)" using same by (simp add: cv_same_def)
  from same_jobs_Some [OF this x(1)] obtain n where y: "awaiters w1 a = Some (x\<lparr>a_next := n\<rparr>)" by blast
  from wake_up_linked_runs [OF w1(4,2) able1 nb y, of K cnt resume] x(2) ok obtain w3 where
    w3: "wake_up_linked K resume eval p1 w1 = Some (Inr w3)" "mutex_held m q w3" "cvs w3 = cvs w1"
      "queued (a_ctx x) w3 = queued (a_ctx x) w @ [a_coro x]" "\<forall>d. d \<noteq> a_ctx x \<longrightarrow> queued d w3 = queued d w"
      "\<forall>b. b \<notin> set (a # q) \<longrightarrow> awaiters w3 b = awaiters w1 b"
    by (auto simp: contexts_cong [OF e] e)
  have "cv_list c (takeWhile ?b (CS c)) w1" and dis: "set (takeWhile ?b (CS c)) \<inter> set (a # q) = {}"
    using w1(3) unfolding cv_lists_def by (metis fun_upd_same)+
  moreover have "cv_list c (takeWhile ?b (CS c)) w3 = cv_list c (takeWhile ?b (CS c)) w1"
  proof (rule cv_list_cong)
    fix b assume "b \<in> set (takeWhile ?b (CS c))"
    then have "b \<notin> set (a # q)" using dis by blast
    then show "awaiters w3 b = awaiters w1 b" using w3(6) by blast
  qed (simp add: w3(3))
  ultimately show ?thesis using w1(5) w3(1,2,4,5) by (intro exI [of _ w3]) simp
qed

text \<open>
  Four sleepers: 11 waits for the predicate 0, which does not hold, 12 and 13 for the predicate 1, which does,
  all on the condition variable 7 of the mutex 5.
\<close>

definition sample_sleepers :: "addr \<Rightarrow> awaiter option" where
  "sample_sleepers =
     [11 \<mapsto> \<lparr>a_ctx = 0, a_obj = 5, a_next = 12, a_coro = 71\<rparr>, 12 \<mapsto> \<lparr>a_ctx = 1, a_obj = 5, a_next = 13, a_coro = 72\<rparr>,
      13 \<mapsto> \<lparr>a_ctx = 0, a_obj = 5, a_next = 0, a_coro = 73\<rparr>]"

definition sample_parts :: "addr \<Rightarrow> cv_part option" where
  "sample_parts =
     [11 \<mapsto> \<lparr>m_cond = Some 0, m_cv = 7, m_suspend_state = True\<rparr>, 12 \<mapsto> \<lparr>m_cond = Some 1, m_cv = 7, m_suspend_state = True\<rparr>,
      13 \<mapsto> \<lparr>m_cond = Some 1, m_cv = 7, m_suspend_state = True\<rparr>]"

definition sample_cvs :: "addr \<Rightarrow> addr \<Rightarrow> addr \<Rightarrow> cond_var" where
  "sample_cvs h t = (\<lambda>_. \<lparr>cv_lock = False, m_head = nullptr, m_tail = nullptr\<rparr>)(7 := \<lparr>cv_lock = False, m_head = h, m_tail = t\<rparr>)"

definition sample_cvworld :: "(addr \<Rightarrow> addr) \<Rightarrow> (addr \<Rightarrow> addr) \<Rightarrow> (addr \<Rightarrow> cond_var) \<Rightarrow> nat cvworld" where
  "sample_cvworld st rl vs =
     mworld.extend (aworld.extend (sample_aworld sample_sleepers) \<lparr>mtx_state = st, mtx_resume_list = rl\<rparr>) \<lparr>cv_info = sample_parts, cvs = vs\<rparr>"

lemma sample_cvworld_simps [simp]:
  "awaiters (sample_cvworld st rl vs) = sample_sleepers" "mtx_state (sample_cvworld st rl vs) = st"
  "mtx_resume_list (sample_cvworld st rl vs) = rl" "cv_info (sample_cvworld st rl vs) = sample_parts"
  "cvs (sample_cvworld st rl vs) = vs" "engines (sample_cvworld st rl vs) = engines sample_world"
  "cvworld.more (sample_cvworld st rl vs) = ()"
  by (simp_all add: sample_cvworld_def sample_aworld_def mworld.defs aworld.defs sworld.defs sample_sworld_def cworld.defs eworld.defs)

lemma sample_able: "\<forall>a \<in> {11, 12, 13}. mutex_able 5 a (sample_cvworld st rl vs) \<and> sleeps_on (sample_cvworld st rl vs) 7 a"
  by (simp add: mutex_able_def sleeps_on_def sample_sleepers_def sample_parts_def nolocked_def)

lemma sample_blocks:
  "cond_blocks (\<lambda>f _. f = 1) 11 (sample_cvworld st rl vs)" "\<not> cond_blocks (\<lambda>f _. f = 1) 12 (sample_cvworld st rl vs)"
  by (simp_all add: cond_blocks_def sample_parts_def)

theorem cv_unlock_returns_witness:
  "\<exists>w1. virtual_unlock sample_kernel finishing (\<lambda>f _. f = 1) 5 (sample_cvworld (\<lambda>_. nullptr) (\<lambda>_. 11) (sample_cvs 0 0)) =
      Some (mutex_resume sample_kernel finishing 12 w1) \<and> mutex_held 5 [13] w1 \<and> cv_list 7 [11] w1"
proof -
  let ?w = "sample_cvworld (\<lambda>_. nullptr) (\<lambda>_. 11) (sample_cvs 0 0)"
  have "mutex_held 5 [11, 12, 13] ?w"
    by (rule mutex_heldI [of _ _ "[]" "[11, 12, 13]"]) (simp_all add: sample_sleepers_def nolocked_def)
  moreover have "cv_list c [] ?w" for c by (simp add: cv_list_def sample_cvs_def)
  ultimately have "cv_state 5 [11, 12, 13] (\<lambda>_. []) ?w" using sample_able by (auto simp: cv_state_def cv_lists_def)
  from cv_unlock_returns [OF this, where eval = "\<lambda>f _. f = 1" and K = sample_kernel and resume = finishing] obtain w1 where
    "virtual_unlock sample_kernel finishing (\<lambda>f _. f = 1) 5 ?w = Some (mutex_resume sample_kernel finishing 12 w1)"
    "mutex_held 5 [13] w1" "\<forall>c. cv_list c (filter (sleeps_on ?w c) [11]) w1"
    using sample_blocks [of "\<lambda>_. nullptr" "\<lambda>_. 11" "sample_cvs 0 0"] by auto
  moreover have "filter (sleeps_on ?w 7) [11] = [11]" using sample_able by simp
  ultimately show ?thesis by metis
qed

theorem notify_all_free_witness:
  "\<exists>w'. notify_all sample_kernel finishing (\<lambda>f _. f = 1) 7 (sample_cvworld (\<lambda>_. nolocked) (\<lambda>_. nullptr) (sample_cvs 11 13)) =
      Some (Inr w') \<and> mutex_held 5 [13] w' \<and> cv_list 7 [11] w' \<and> queued 1 w' = [72]"
proof -
  let ?w = "sample_cvworld (\<lambda>_. nolocked) (\<lambda>_. nullptr) (sample_cvs 11 13)" and ?e = "\<lambda>f _. f = 1"
  let ?CS = "(\<lambda>_. [])(7 :: addr := [11, 12, 13])" and ?x = "\<lparr>a_ctx = 1, a_obj = 5, a_next = 13, a_coro = 72\<rparr>"
  have e: "engines ?w = engines sample_world" by simp
  have "mutex_free 5 ?w" by (simp add: mutex_free_def)
  moreover have "cv_lists [] ?CS ?w" by (auto simp: cv_lists_def cv_list_def sample_cvs_def sample_sleepers_def)
  moreover have "\<forall>b \<in> set (?CS 7). mutex_able 5 b ?w \<and> sleeps_on ?w 7 b" using sample_able by simp
  moreover have "dropWhile (\<lambda>b. cond_blocks ?e b ?w) (?CS 7) = 12 # [13]" using sample_blocks by simp
  moreover have "awaiters ?w 12 = Some ?x" "a_coro ?x \<noteq> nullptr" by (simp_all add: sample_sleepers_def)
  moreover have "0 < context_room (\<lambda>fd k. k) (a_ctx ?x) ?w" using sample_room(2) [OF e] by simp
  ultimately have "\<exists>w'. notify_all sample_kernel finishing ?e 7 ?w = Some (Inr w') \<and> mutex_held 5 [13] w' \<and>
      cv_list 7 (takeWhile (\<lambda>b. cond_blocks ?e b ?w) (?CS 7)) w' \<and> queued (a_ctx ?x) w' = queued (a_ctx ?x) ?w @ [a_coro ?x] \<and>
      (\<forall>d. d \<noteq> a_ctx ?x \<longrightarrow> queued d w' = queued d ?w)"
    using sample_room(1) [OF e] by (intro notify_all_free [where CS = ?CS and c = 7])
  moreover have "queued 1 ?w = []" unfolding e by (rule sample_queue)
  moreover have "takeWhile (\<lambda>b. cond_blocks ?e b ?w) (?CS 7) = [11]" using sample_blocks by simp
  ultimately show ?thesis by auto
qed

end
