(* ===== verification/Channel_Buffer.thy ===== *)
theory Channel_Buffer
  imports Bounded_Fifo
begin

text \<open>
  The three buffers of \<^verbatim>\<open>include/coro/comp/channel.hpp\<close>: the array with a counter of the general template,
  the masked array of the specialisation for powers of two, and the \<^verbatim>\<open>std::optional\<close> of the specialisation for
  capacity zero. Each implements the contract of \<open>Bounded_Fifo\<close>, and so does \<open>chan_buffer\<close>, which is
  whichever of the three the capacity selects. Indices are 64 bits wide; an access outside the array
  would be \<open>Out_of_bounds\<close>.
\<close>

unbundle bit_operations_syntax

section \<open>Arrays\<close>

definition array_store :: "64 word \<Rightarrow> 'a \<Rightarrow> 'a list \<Rightarrow> 'a list result" where
  "array_store i v xs = (if unat i < length xs then Inr (xs[unat i := v]) else Inl Out_of_bounds)"

definition array_load :: "64 word \<Rightarrow> 'a list \<Rightarrow> 'a result" where
  "array_load i xs = (if unat i < length xs then Inr (xs ! unat i) else Inl Out_of_bounds)"

section \<open>The general template\<close>

record 'a gen_buffer =
  gb_head :: "64 word"
  gb_tail :: "64 word"
  gb_num :: "64 word"
  gb_array :: "'a list"

definition gen_new :: "'a list \<Rightarrow> 'a gen_buffer" where
  "gen_new arr = \<lparr>gb_head = 0, gb_tail = 0, gb_num = 0, gb_array = arr\<rparr>"

definition gen_empty :: "'a gen_buffer \<Rightarrow> bool" where
  "gen_empty b \<longleftrightarrow> gb_num b = 0"

definition gen_full :: "64 word \<Rightarrow> 'a gen_buffer \<Rightarrow> bool" where
  "gen_full capacity b \<longleftrightarrow> gb_num b = capacity"

definition gen_store :: "64 word \<Rightarrow> 'a \<Rightarrow> 'a gen_buffer \<Rightarrow> 'a gen_buffer result" where
  "gen_store capacity v b =
     bindE (array_store (gb_tail b) v (gb_array b)) (\<lambda>arr.
     let tail = gb_tail b + 1 in
     Inr (b\<lparr>gb_array := arr, gb_num := gb_num b + 1, gb_tail := if capacity \<le> tail then 0 else tail\<rparr>))"

definition gen_take :: "64 word \<Rightarrow> 'a gen_buffer \<Rightarrow> ('a \<times> 'a gen_buffer) result" where
  "gen_take capacity b =
     bindE (array_load (gb_head b) (gb_array b)) (\<lambda>p.
     let head = gb_head b + 1 in
     Inr (p, b\<lparr>gb_num := gb_num b - 1, gb_head := if capacity \<le> head then 0 else head\<rparr>))"

section \<open>The specialisation for powers of two\<close>

record 'a pow_buffer =
  pb_head :: "64 word"
  pb_tail :: "64 word"
  pb_array :: "'a list"

definition pow_new :: "'a list \<Rightarrow> 'a pow_buffer" where
  "pow_new arr = \<lparr>pb_head = 0, pb_tail = 0, pb_array = arr\<rparr>"

definition pow_mask :: "64 word \<Rightarrow> 64 word" where
  "pow_mask capacity = capacity - 1"

definition pow_head :: "64 word \<Rightarrow> 'a pow_buffer \<Rightarrow> 64 word" where
  "pow_head capacity b = pb_head b AND pow_mask capacity"

definition pow_tail :: "64 word \<Rightarrow> 'a pow_buffer \<Rightarrow> 64 word" where
  "pow_tail capacity b = pb_tail b AND pow_mask capacity"

definition pow_empty :: "'a pow_buffer \<Rightarrow> bool" where
  "pow_empty b \<longleftrightarrow> pb_head b = pb_tail b"

definition pow_full :: "64 word \<Rightarrow> 'a pow_buffer \<Rightarrow> bool" where
  "pow_full capacity b \<longleftrightarrow> pb_tail b - pb_head b = capacity"

definition pow_store :: "64 word \<Rightarrow> 'a \<Rightarrow> 'a pow_buffer \<Rightarrow> 'a pow_buffer result" where
  "pow_store capacity v b =
     bindE (array_store (pow_tail capacity b) v (pb_array b)) (\<lambda>arr. Inr (b\<lparr>pb_array := arr, pb_tail := pb_tail b + 1\<rparr>))"

definition pow_take :: "64 word \<Rightarrow> 'a pow_buffer \<Rightarrow> ('a \<times> 'a pow_buffer) result" where
  "pow_take capacity b =
     bindE (array_load (pow_head capacity b) (pb_array b)) (\<lambda>p. Inr (p, b\<lparr>pb_head := pb_head b + 1\<rparr>))"

section \<open>The specialisation for capacity zero\<close>

definition zero_empty :: "'a option \<Rightarrow> bool" where
  "zero_empty d \<longleftrightarrow> d = None"

definition zero_full :: "'a option \<Rightarrow> bool" where
  "zero_full d \<longleftrightarrow> d \<noteq> None"

definition zero_store :: "'a \<Rightarrow> 'a option \<Rightarrow> 'a option" where
  "zero_store v d = Some v"

definition zero_take :: "'a option \<Rightarrow> 'a option \<times> 'a option" where
  "zero_take d = (d, None)"

section \<open>The general buffer is a bounded queue\<close>

definition gen_inv :: "64 word \<Rightarrow> 'a gen_buffer \<Rightarrow> bool" where
  "gen_inv capacity b \<longleftrightarrow> length (gb_array b) = unat capacity \<and> unat (gb_head b) < unat capacity \<and>
     unat (gb_num b) \<le> unat capacity \<and> unat (gb_tail b) = (unat (gb_head b) + unat (gb_num b)) mod unat capacity"

definition gen_items :: "64 word \<Rightarrow> 'a gen_buffer \<Rightarrow> 'a list" where
  "gen_items capacity b = map (\<lambda>i. gb_array b ! ((unat (gb_head b) + i) mod unat capacity)) [0..<unat (gb_num b)]"

text \<open>Advancing an index and going back to zero at the end is addition modulo the capacity.\<close>

lemma unat_advance:
  fixes i capacity :: "64 word"
  assumes "unat i < unat capacity"
  shows "unat (if capacity \<le> i + 1 then 0 else i + 1) = (unat i + 1) mod unat capacity"
proof -
  have "unat capacity < 2 ^ 64" using unsigned_less [of capacity] by simp
  then have s: "unat (i + 1) = unat i + 1" using assms by (subst unat_add_below) simp_all
  show ?thesis
  proof (cases "unat i + 1 = unat capacity")
    case True
    then have "capacity \<le> i + 1" by (simp add: word_le_nat_alt s)
    then show ?thesis using True by simp
  next
    case False
    then have "\<not> capacity \<le> i + 1" using assms by (simp add: word_le_nat_alt s)
    then show ?thesis using False assms by (simp add: s)
  qed
qed

lemma gen_store_ok:
  assumes inv: "gen_inv capacity b" and room: "\<not> gen_full capacity b"
  shows "\<exists>b'. gen_store capacity v b = Inr b' \<and> gen_inv capacity b' \<and> gen_items capacity b' = gen_items capacity b @ [v]"
proof -
  let ?c = "unat capacity" and ?h = "unat (gb_head b)" and ?n = "unat (gb_num b)" and ?t = "unat (gb_tail b)"
  have c: "0 < ?c" "?t < ?c" "?t = (?h + ?n) mod ?c" "?h < ?c" "length (gb_array b) = ?c" using inv by (auto simp: gen_inv_def)
  have "?n \<noteq> ?c" using room by (simp add: gen_full_def word_unat_eq_iff)
  then have n: "?n < ?c" using inv by (simp add: gen_inv_def)
  have lim: "?c < 2 ^ 64" using unsigned_less [of capacity] by simp
  have num: "unat (gb_num b + 1) = Suc ?n" using n lim by (subst unat_add_below) simp_all
  let ?b = "b\<lparr>gb_array := (gb_array b)[?t := v], gb_num := gb_num b + 1, gb_tail := if capacity \<le> gb_tail b + 1 then 0 else gb_tail b + 1\<rparr>"
  have "gen_store capacity v b = Inr ?b" using c by (simp add: gen_store_def array_store_def Let_def)
  moreover have "gen_inv capacity ?b"
    using c n unat_advance [OF c(2)] by (simp add: gen_inv_def num mod_simps del: unat_1)
  moreover have "gen_items capacity ?b = gen_items capacity b @ [v]"
  proof -
    have "(?h + i) mod ?c \<noteq> ?t" if "i < ?n" for i using mod_shift_inj [of ?h i ?c ?n] that n c(3) by auto
    then have "i < ?n \<Longrightarrow> (gb_array b)[?t := v] ! ((?h + i) mod ?c) = gb_array b ! ((?h + i) mod ?c)" for i by (metis nth_list_update_neq)
    then show ?thesis using c(1,2,5) by (simp add: gen_items_def num c(3) [symmetric])
  qed
  ultimately show ?thesis by blast
qed

lemma gen_take_ok:
  assumes inv: "gen_inv capacity b" and some: "\<not> gen_empty b"
  shows "\<exists>v b'. gen_take capacity b = Inr (v, b') \<and> gen_inv capacity b' \<and> gen_items capacity b = v # gen_items capacity b'"
proof -
  let ?c = "unat capacity" and ?h = "unat (gb_head b)" and ?n = "unat (gb_num b)" and ?t = "unat (gb_tail b)"
  have c: "0 < ?c" "?h < ?c" "length (gb_array b) = ?c" using inv by (auto simp: gen_inv_def)
  have "0 < ?n" using some by (simp add: gen_empty_def unat_gt_0)
  then obtain k where k: "?n = Suc k" by (metis gr0_implies_Suc)
  have num: "unat (gb_num b - 1) = k" using k by (metis diff_Suc_1 gen_empty_def some unat_minus_one)
  let ?b = "b\<lparr>gb_num := gb_num b - 1, gb_head := if capacity \<le> gb_head b + 1 then 0 else gb_head b + 1\<rparr>"
  have hd: "unat (gb_head ?b) = (?h + 1) mod ?c" using unat_advance [OF c(2)] by simp
  have "gen_take capacity b = Inr (gb_array b ! ?h, ?b)" using c by (simp add: gen_take_def array_load_def Let_def)
  moreover have "gen_inv capacity ?b"
    using inv c k hd unfolding gen_inv_def by (simp add: num mod_simps)
  moreover have "gen_items capacity b = gb_array b ! ?h # gen_items capacity ?b"
    using c k hd unfolding gen_items_def by (simp add: num mod_simps upt_conv_Cons map_Suc_upt [symmetric] del: upt_Suc)
  ultimately show ?thesis by blast
qed


section \<open>The masked buffer is a bounded queue\<close>

definition pow_items :: "64 word \<Rightarrow> 'a pow_buffer \<Rightarrow> 'a list" where
  "pow_items capacity b = map (\<lambda>i. pb_array b ! unat ((pb_head b + of_nat i) AND pow_mask capacity)) [0..<unat (pb_tail b - pb_head b)]"

definition pow_inv :: "64 word \<Rightarrow> 'a pow_buffer \<Rightarrow> bool" where
  "pow_inv capacity b \<longleftrightarrow> (\<exists>k < 64. capacity = 2 ^ k) \<and> length (pb_array b) = unat capacity \<and>
     unat (pb_tail b - pb_head b) \<le> unat capacity"

lemma and_pow_mask: "i AND pow_mask (2 ^ k) = take_bit k i"
  by (simp add: pow_mask_def take_bit_eq_mask mask_eq_exp_minus_1)

lemma pow_store_ok:
  assumes inv: "pow_inv capacity b" and room: "\<not> pow_full capacity b"
  shows "\<exists>b'. pow_store capacity v b = Inr b' \<and> pow_inv capacity b' \<and> pow_items capacity b' = pow_items capacity b @ [v]"
proof -
  from inv obtain k where k: "k < 64" "capacity = 2 ^ k" by (auto simp: pow_inv_def)
  let ?n = "unat (pb_tail b - pb_head b)" and ?i = "\<lambda>i. unat (take_bit k (pb_head b + of_nat i))"
  have c: "unat capacity = 2 ^ k" using k unat_power2 [of k, where ?'a = 64] by simp
  have len: "length (pb_array b) = 2 ^ k" using inv c by (simp add: pow_inv_def)
  have "?n \<noteq> unat capacity" using room by (simp add: pow_full_def word_unat_eq_iff)
  then have n: "?n < 2 ^ k" using inv c by (simp add: pow_inv_def)
  have lim: "(2 :: nat) ^ k < 2 ^ 64" using k(1) by (rule power_strict_increasing) simp
  have tail: "pb_tail b = pb_head b + of_nat ?n" by simp
  have "unat (pb_tail b - pb_head b + 1) = Suc ?n" using n lim by (subst unat_add_below) simp_all
  then have n1: "unat (pb_tail b + 1 - pb_head b) = Suc ?n" by (simp add: algebra_simps)
  have idx: "?i i < 2 ^ k" for i using k by (simp add: unat_take_bit)
  let ?b = "b\<lparr>pb_array := (pb_array b)[?i ?n := v], pb_tail := pb_tail b + 1\<rparr>"
  have "pow_store capacity v b = Inr ?b"
    using idx [of ?n] len by (simp add: pow_store_def array_store_def pow_tail_def k(2) and_pow_mask)
  moreover have "pow_inv capacity ?b" using k len n n1 c by (auto simp: pow_inv_def)
  moreover have "pow_items capacity ?b = pow_items capacity b @ [v]"
  proof -
    have "?i i \<noteq> ?i ?n" if "i < ?n" for i
      using take_bit_shift_inj [of k "pb_head b" i ?n] that n k(1) by (auto simp: word_unat_eq_iff)
    then have "i < ?n \<Longrightarrow> (pb_array b)[?i ?n := v] ! ?i i = pb_array b ! ?i i" for i by (metis nth_list_update_neq)
    then show ?thesis using idx [of ?n] len by (simp add: pow_items_def n1 k(2) and_pow_mask)
  qed
  ultimately show ?thesis by blast
qed

lemma pow_take_ok:
  assumes inv: "pow_inv capacity b" and some: "\<not> pow_empty b"
  shows "\<exists>v b'. pow_take capacity b = Inr (v, b') \<and> pow_inv capacity b' \<and> pow_items capacity b = v # pow_items capacity b'"
proof -
  from inv obtain k where k: "k < 64" "capacity = 2 ^ k" by (auto simp: pow_inv_def)
  let ?n = "unat (pb_tail b - pb_head b)" and ?i = "\<lambda>i. unat (take_bit k (pb_head b + of_nat i))"
  have c: "unat capacity = 2 ^ k" using k unat_power2 [of k, where ?'a = 64] by simp
  have len: "length (pb_array b) = 2 ^ k" using inv c by (simp add: pow_inv_def)
  have "pb_tail b - pb_head b \<noteq> 0" using some by (simp add: pow_empty_def)
  then have "unat (pb_tail b - pb_head b - 1) = ?n - 1" "0 < ?n" by (simp_all add: unat_minus_one unat_gt_0)
  then obtain m where m: "?n = Suc m" "unat (pb_tail b - (pb_head b + 1)) = m" by (cases ?n) (auto simp: algebra_simps)
  have idx: "?i 0 < 2 ^ k" using k by (simp add: unat_take_bit)
  let ?b = "b\<lparr>pb_head := pb_head b + 1\<rparr>"
  have "pow_take capacity b = Inr (pb_array b ! ?i 0, ?b)"
    using idx len by (simp add: pow_take_def array_load_def pow_head_def k(2) and_pow_mask)
  moreover have "pow_inv capacity ?b" using inv m by (auto simp: pow_inv_def)
  moreover have "pow_items capacity b = pb_array b ! ?i 0 # pow_items capacity ?b"
    by (simp add: pow_items_def m k(2) and_pow_mask upt_conv_Cons map_Suc_upt [symmetric] add.assoc del: upt_Suc)
  ultimately show ?thesis by blast
qed

section \<open>The buffer of a channel\<close>

text \<open>The template arguments choose the class: \<open>Zero\<close> and \<open>Pow2\<close> are the specialisations.\<close>

datatype 'a chan_buffer = Gen "64 word" "'a gen_buffer" | Pow2 "64 word" "'a pow_buffer" | Zero "'a option"

definition has_single_bit :: "64 word \<Rightarrow> bool" where
  "has_single_bit x \<longleftrightarrow> list_ex (\<lambda>k. x = 2 ^ k) [0..<64]"

definition new_buffer :: "64 word \<Rightarrow> 'a list \<Rightarrow> 'a chan_buffer" where
  "new_buffer capacity arr =
     (if capacity = 0 then Zero None
      else if has_single_bit capacity then Pow2 capacity (pow_new arr) else Gen capacity (gen_new arr))"

fun chan_full :: "'a chan_buffer \<Rightarrow> bool" where
  "chan_full (Gen c b) = gen_full c b"
| "chan_full (Pow2 c b) = pow_full c b"
| "chan_full (Zero d) = zero_full d"

fun chan_empty :: "'a chan_buffer \<Rightarrow> bool" where
  "chan_empty (Gen c b) = gen_empty b"
| "chan_empty (Pow2 c b) = pow_empty b"
| "chan_empty (Zero d) = zero_empty d"

fun chan_store :: "'a \<Rightarrow> 'a chan_buffer \<Rightarrow> 'a chan_buffer result" where
  "chan_store v (Gen c b) = bindE (gen_store c v b) (\<lambda>b'. Inr (Gen c b'))"
| "chan_store v (Pow2 c b) = bindE (pow_store c v b) (\<lambda>b'. Inr (Pow2 c b'))"
| "chan_store v (Zero d) = Inr (Zero (zero_store v d))"

fun chan_take :: "'a chan_buffer \<Rightarrow> ('a option \<times> 'a chan_buffer) result" where
  "chan_take (Gen c b) = bindE (gen_take c b) (\<lambda>(p, b'). Inr (Some p, Gen c b'))"
| "chan_take (Pow2 c b) = bindE (pow_take c b) (\<lambda>(p, b'). Inr (Some p, Pow2 c b'))"
| "chan_take (Zero d) = (case zero_take d of (p, d') \<Rightarrow> Inr (p, Zero d'))"

fun chan_items :: "'a chan_buffer \<Rightarrow> 'a list" where
  "chan_items (Gen c b) = gen_items c b"
| "chan_items (Pow2 c b) = pow_items c b"
| "chan_items (Zero d) = (case d of None \<Rightarrow> [] | Some x \<Rightarrow> [x])"

fun chan_inv :: "'a chan_buffer \<Rightarrow> bool" where
  "chan_inv (Gen c b) = gen_inv c b"
| "chan_inv (Pow2 c b) = pow_inv c b"
| "chan_inv (Zero d) = True"

fun chan_room :: "'a chan_buffer \<Rightarrow> nat" where
  "chan_room (Gen c b) = unat c"
| "chan_room (Pow2 c b) = unat c"
| "chan_room (Zero d) = 1"

lemma chan_store_ok:
  "chan_inv b \<Longrightarrow> \<not> chan_full b \<Longrightarrow>
    \<exists>b'. chan_store v b = Inr b' \<and> chan_inv b' \<and> chan_items b' = chan_items b @ [v] \<and> chan_room b' = chan_room b"
proof (cases b)
  case (Gen c g)
  moreover assume "chan_inv b" "\<not> chan_full b"
  ultimately show ?thesis using gen_store_ok [of c g v] by auto
next
  case (Pow2 c g)
  moreover assume "chan_inv b" "\<not> chan_full b"
  ultimately show ?thesis using pow_store_ok [of c g v] by auto
next
  case (Zero d)
  moreover assume "\<not> chan_full b"
  ultimately show ?thesis by (simp add: zero_full_def zero_store_def)
qed

lemma chan_take_ok:
  "chan_inv b \<Longrightarrow> \<not> chan_empty b \<Longrightarrow>
    \<exists>v b'. chan_take b = Inr (Some v, b') \<and> chan_inv b' \<and> chan_items b = v # chan_items b' \<and> chan_room b' = chan_room b"
proof (cases b)
  case (Gen c g)
  moreover assume "chan_inv b" "\<not> chan_empty b"
  ultimately show ?thesis using gen_take_ok [of c g] by auto
next
  case (Pow2 c g)
  moreover assume "chan_inv b" "\<not> chan_empty b"
  ultimately show ?thesis using pow_take_ok [of c g] by auto
next
  case (Zero d)
  moreover assume "\<not> chan_empty b"
  ultimately show ?thesis by (auto simp: zero_empty_def zero_take_def)
qed

lemma chan_empty_items: "chan_inv b \<Longrightarrow> chan_empty b \<longleftrightarrow> chan_items b = []"
  by (cases b) (auto simp: gen_empty_def gen_items_def pow_empty_def pow_items_def zero_empty_def unat_eq_0 split: option.splits)

lemma chan_full_items: "chan_inv b \<Longrightarrow> chan_full b \<longleftrightarrow> length (chan_items b) = chan_room b"
  by (cases b) (auto simp: gen_full_def gen_items_def pow_full_def pow_items_def zero_full_def word_unat_eq_iff split: option.splits)

lemma chan_items_bound: "chan_inv b \<Longrightarrow> length (chan_items b) \<le> chan_room b"
  by (cases b) (auto simp: gen_items_def pow_items_def gen_inv_def pow_inv_def split: option.splits)

lemma chan_room_pos: "chan_inv b \<Longrightarrow> 0 < chan_room b"
  by (cases b) (auto simp: gen_inv_def pow_inv_def unat_gt_0)

text \<open>What \<^verbatim>\<open>send\<close> and \<^verbatim>\<open>recv\<close> do to the buffer once they may.\<close>

definition chan_put :: "'a \<Rightarrow> 'a chan_buffer \<Rightarrow> 'a chan_buffer" where
  "chan_put v b = (case chan_store v b of Inl _ \<Rightarrow> b | Inr b' \<Rightarrow> b')"

definition chan_get :: "'a chan_buffer \<Rightarrow> 'a \<times> 'a chan_buffer" where
  "chan_get b = (case chan_take b of Inr (Some v, b') \<Rightarrow> (v, b') | _ \<Rightarrow> (hd (chan_items b), b))"

interpretation chan: bounded_fifo chan_put chan_get chan_full chan_empty chan_items chan_room chan_inv
proof unfold_locales
  fix b :: "'a chan_buffer" and v
  assume inv: "chan_inv b"
  show "chan_empty b \<longleftrightarrow> chan_items b = []" "chan_full b \<longleftrightarrow> length (chan_items b) = chan_room b"
    "length (chan_items b) \<le> chan_room b" using inv by (rule chan_empty_items chan_full_items chan_items_bound)+
  show "chan_inv (chan_put v b)" "chan_items (chan_put v b) = chan_items b @ [v]" "chan_room (chan_put v b) = chan_room b"
    if "\<not> chan_full b" using chan_store_ok [OF inv that, of v] by (auto simp: chan_put_def)
  show "chan_inv (snd (chan_get b))" "chan_items b = fst (chan_get b) # chan_items (snd (chan_get b))"
    "chan_room (snd (chan_get b)) = chan_room b"
    if "\<not> chan_empty b" using chan_take_ok [OF inv that] by (auto simp: chan_get_def)
qed


lemma new_buffer_inv:
  assumes "length arr = unat capacity"
  shows "chan_inv (new_buffer capacity arr)" and "chan_items (new_buffer capacity arr) = []"
    and "chan_room (new_buffer capacity arr) = (if capacity = 0 then 1 else unat capacity)"
  using assms
  by (auto simp: new_buffer_def has_single_bit_def list_ex_iff pow_new_def gen_new_def pow_inv_def gen_inv_def pow_items_def gen_items_def unat_gt_0)

section \<open>Properties\<close>

text \<open>C11: the template and its two specialisations cannot be told apart by what they accept and deliver: for every
  capacity and every mix of insertions and removals the buffer behaves like a list bounded by the capacity
  (by one for capacity zero), including the wrap-around of its indices, and no array access is out of bounds.\<close>

theorem channel_buffers_equivalent:
  assumes "length arr = unat capacity"
  shows "(case fifo_run chan_put chan_get chan_full chan_empty ops (new_buffer capacity arr) of (acc, del, b) \<Rightarrow> (acc, del, chan_items b)) =
    fifo_run (\<lambda>x l. l @ [x]) (\<lambda>l. (hd l, tl l)) (\<lambda>l. length l = (if capacity = 0 then 1 else unat capacity)) (\<lambda>l. l = []) ops []"
proof -
  obtain acc del b where run: "fifo_run chan_put chan_get chan_full chan_empty ops (new_buffer capacity arr) = (acc, del, b)"
    by (metis prod.exhaust)
  from chan.run_reference [OF new_buffer_inv(1) [OF assms] run refl] show ?thesis
    by (simp add: run new_buffer_inv [OF assms])
qed

theorem channel_buffers_equivalent_witness:
  "(case fifo_run chan_put chan_get chan_full chan_empty [Put 7, Put 8, Get, Put 9, Put (4 :: nat), Put 5, Get] (new_buffer 3 [0, 0, 0]) of
      (acc, del, b) \<Rightarrow> (acc, del, chan_items b)) = ([7, 8, 9, 4], [7, 8], [9, 4])"
  using channel_buffers_equivalent [of "[0, 0, 0 :: nat]" 3 "[Put 7, Put 8, Get, Put 9, Put 4, Put 5, Get]"] by simp

end
