(* ===== verification/Channel.thy ===== *)
theory Channel
  imports Condition_Variable Channel_Buffer
begin

text \<open>
  The channel: \<^verbatim>\<open>include/coro/comp/channel.hpp\<close>. One channel is modelled: it is the user's data of the
  condition variables, so that their predicates read it. \<^verbatim>\<open>send\<close> and \<^verbatim>\<open>recv\<close> are coroutines and are cut at
  their \<^verbatim>\<open>co_await\<close>s: what runs up to locking the mutex, from there to waiting on the condition variable,
  and from there to the end, where the guard unlocks. The three classes differ in the buffer only
  (\<open>Channel_Buffer\<close>). \<open>chan_step\<close> is the channel with the calls of many coroutines and of \<^verbatim>\<open>close\<close>, which takes
  no lock, interleaved.
\<close>

section \<open>State\<close>

record 'a channel =
  ch_mtx :: addr
  m_producer_cv :: addr
  m_consumer_cv :: addr
  m_close_state :: "8 word"
  ch_buf :: "'a chan_buffer"

definition complete_close :: "8 word" where "complete_close = 0"
definition part_close :: "8 word" where "part_close = 1"
definition no_close :: "8 word" where "no_close = 2"

definition new_channel :: "addr \<Rightarrow> addr \<Rightarrow> addr \<Rightarrow> 64 word \<Rightarrow> 'a list \<Rightarrow> 'a channel" where
  "new_channel m p c cap arr =
     \<lparr>ch_mtx = m, m_producer_cv = p, m_consumer_cv = c, m_close_state = no_close, ch_buf = new_buffer cap arr\<rparr>"

definition part_closed :: "'a channel \<Rightarrow> bool" where
  "part_closed ch \<longleftrightarrow> m_close_state ch \<le> part_close"

definition part_closed_atomic :: "'a channel \<Rightarrow> bool" where
  "part_closed_atomic ch \<longleftrightarrow> m_close_state ch \<le> part_close"

definition complete_closed_atomic :: "'a channel \<Rightarrow> bool" where
  "complete_closed_atomic ch \<longleftrightarrow> m_close_state ch \<le> complete_close"

text \<open>The predicates of the two condition variables: 0 for the producers, 1 for the consumers.\<close>

definition chan_eval :: "nat \<Rightarrow> 'a channel \<Rightarrow> bool" where
  "chan_eval f ch \<longleftrightarrow> (if f = 0 then \<not> chan_full (ch_buf ch) else \<not> chan_empty (ch_buf ch)) \<or> part_closed ch"

abbreviation the_channel :: "('k, 'a channel) cvworld_scheme \<Rightarrow> 'a channel" where
  "the_channel w \<equiv> cvworld.more w"

definition put_channel :: "'a channel \<Rightarrow> ('k, 'a channel) cvworld_scheme \<Rightarrow> ('k, 'a channel) cvworld_scheme" where
  "put_channel ch w = cvworld.more_update (\<lambda>_. ch) w"

section \<open>Operations\<close>

definition channel_dtor :: "('k, 'a channel) cvworld_scheme \<Rightarrow> ('k, 'a channel) cvworld_scheme result" where
  "channel_dtor w = (if part_closed (the_channel w) then Inr w else Inl Assert_failed)"

definition set_part_close :: "('k, 'a channel) cvworld_scheme \<Rightarrow> ('k, 'a channel) cvworld_scheme" where
  "set_part_close w = put_channel ((the_channel w)\<lparr>m_close_state := part_close\<rparr>) w"

definition close where
  "close K resume w =
     bindO (notify_all K resume chan_eval (m_producer_cv (the_channel w)) (set_part_close w)) (\<lambda>w1.
     notify_all K resume chan_eval (m_consumer_cv (the_channel w1)) w1)"

text \<open>A coroutine returns, stays suspended at a \<^verbatim>\<open>co_await\<close>, or goes on behind it.\<close>

datatype 'r stage = Returned 'r | Suspended | Continues

definition stage_of :: "bool \<Rightarrow> 'r stage" where
  "stage_of suspends = (if suspends then Suspended else Continues)"

text \<open>An awaiter dies at the end of its \<^verbatim>\<open>co_await\<close> expression.\<close>

definition drop_awaiter :: "addr \<Rightarrow> ('k, 'z) cvworld_scheme \<Rightarrow> ('k, 'z) cvworld_scheme" where
  "drop_awaiter a w = w\<lparr>awaiters := (awaiters w)(a := None), cv_info := (cv_info w)(a := None)\<rparr>"

text \<open>\<^verbatim>\<open>co_await m_mtx.lock_guard()\<close> and, behind it, \<^verbatim>\<open>co_await cv.wait(m_mtx, predicate)\<close>.\<close>

definition await_lock :: "addr \<Rightarrow> handle \<Rightarrow> ('k, 'a channel) cvworld_scheme \<Rightarrow> ('r stage \<times> ('k, 'a channel) cvworld_scheme) result" where
  "await_lock a h w =
     bindE (mutex_lock_guard (ch_mtx (the_channel w)) a w) (\<lambda>w1.
     bindE (mutex_await_suspend a h w1) (\<lambda>(suspends, w2). Inr (stage_of suspends, w2)))"

definition await_cv where
  "await_cv K resume cv pred a b h w =
     bindO (Some (guard_await_resume a w)) (\<lambda>(guard, w1).
     bindO (Some (cv_wait_rvalue cv guard (Some pred) b (drop_awaiter a w1))) (\<lambda>w2.
     bindO (cv_await_suspend K resume chan_eval b h w2) (\<lambda>(suspends, w3). Some (Inr (stage_of suspends, w3)))))"

definition send_begin :: "addr \<Rightarrow> handle \<Rightarrow> ('k, 'a channel) cvworld_scheme \<Rightarrow> (bool stage \<times> ('k, 'a channel) cvworld_scheme) result" where
  "send_begin a h w = (if part_closed_atomic (the_channel w) then Inr (Returned False, w) else await_lock a h w)"

definition send_wait where
  "send_wait K resume a b h w = (await_cv K resume (m_producer_cv (the_channel w)) 0 a b h w :: (bool stage \<times> _) result option)"

definition send_finish where
  "send_finish K resume v b w =
     bindO (Some (cv_await_resume b w)) (\<lambda>w1.
     let w2 = drop_awaiter b w1; ch = the_channel w2 in
     bindO (if part_closed ch then Some (Inr (False, w2))
            else bindO (Some (chan_store v (ch_buf ch))) (\<lambda>buf.
                 bindO (notify_one K resume chan_eval (m_consumer_cv ch) (put_channel (ch\<lparr>ch_buf := buf\<rparr>) w2)) (\<lambda>w3.
                 Some (Inr (True, w3))))) (\<lambda>(r, w4).
     bindO (virtual_unlock K resume chan_eval (ch_mtx ch) w4) (\<lambda>w5. Some (Inr (r, w5)))))"

definition recv_begin :: "addr \<Rightarrow> handle \<Rightarrow> ('k, 'a channel) cvworld_scheme \<Rightarrow> ('a option stage \<times> ('k, 'a channel) cvworld_scheme) result" where
  "recv_begin a h w = (if complete_closed_atomic (the_channel w) then Inr (Returned None, w) else await_lock a h w)"

definition recv_wait where
  "recv_wait K resume a b h (w :: ('k, 'a channel) cvworld_scheme) =
     (await_cv K resume (m_consumer_cv (the_channel w)) 1 a b h w :: ('a option stage \<times> _) result option)"

definition recv_finish where
  "recv_finish K resume b w =
     bindO (Some (cv_await_resume b w)) (\<lambda>w1.
     let w2 = drop_awaiter b w1; ch = the_channel w2 in
     bindO (if chan_empty (ch_buf ch) \<and> part_closed ch then Some (Inr (None, put_channel (ch\<lparr>m_close_state := complete_close\<rparr>) w2))
            else bindO (Some (chan_take (ch_buf ch))) (\<lambda>(p, buf).
                 bindO (notify_one K resume chan_eval (m_producer_cv ch) (put_channel (ch\<lparr>ch_buf := buf\<rparr>) w2)) (\<lambda>w3.
                 Some (Inr (p, w3))))) (\<lambda>(r, w4).
     bindO (virtual_unlock K resume chan_eval (ch_mtx ch) w4) (\<lambda>w5. Some (Inr (r, w5)))))"


section \<open>Sending to a sleeping receiver\<close>

lemma put_channel_simps [simp]:
  "the_channel (put_channel ch w) = ch" "awaiters (put_channel ch w) = awaiters w" "cv_info (put_channel ch w) = cv_info w"
  "cvs (put_channel ch w) = cvs w" "mtx_state (put_channel ch w) = mtx_state w" "mtx_resume_list (put_channel ch w) = mtx_resume_list w"
  "engines (put_channel ch w) = engines w" "linfo_ctx (put_channel ch w) = linfo_ctx w"
  by (simp_all add: put_channel_def)

lemma drop_awaiter_simps [simp]:
  "awaiters (drop_awaiter a w) = (awaiters w)(a := None)" "cv_info (drop_awaiter a w) = (cv_info w)(a := None)"
  "cvs (drop_awaiter a w) = cvs w" "mtx_state (drop_awaiter a w) = mtx_state w" "mtx_resume_list (drop_awaiter a w) = mtx_resume_list w"
  "engines (drop_awaiter a w) = engines w" "linfo_ctx (drop_awaiter a w) = linfo_ctx w" "cvworld.more (drop_awaiter a w) = cvworld.more w"
  by (simp_all add: drop_awaiter_def)

lemma unregister_cvs [simp]:
  "cvs (unregister_wait n i w) = cvs w" "cv_info (unregister_wait n i w) = cv_info w"
  "cvworld.more (unregister_wait n i w) = cvworld.more w" "mtx_state (unregister_wait n i w) = mtx_state w"
  "mtx_resume_list (unregister_wait n i w) = mtx_resume_list w" "linfo_ctx (unregister_wait n i w) = linfo_ctx w"
  "linfo_ctx (register_wait n i w) = linfo_ctx w"
  by (simp_all add: register_wait_def unregister_wait_def put_context_def)

text \<open>What a coroutine that waits in vain leaves alone: everything but its own awaiters and the count of waiting tasks.\<close>

definition chan_frame :: "addr set \<Rightarrow> ('k, 'z) cvworld_scheme \<Rightarrow> ('k, 'z) cvworld_scheme \<Rightarrow> bool" where
  "chan_frame A w w' \<longleftrightarrow> (\<forall>b. b \<notin> A \<longrightarrow> awaiters w' b = awaiters w b \<and> cv_info w' b = cv_info w b) \<and>
     engines w' = engines w \<and> cvs w' = cvs w \<and> linfo_ctx w' = linfo_ctx w \<and> cvworld.more w' = cvworld.more w"

lemma chan_frame_lists:
  assumes "chan_frame A w w'" and "cv_lists q CS w" and "\<forall>c. set (CS c) \<inter> A = {}"
  shows "cv_lists q CS w'"
proof -
  have "cv_list c (CS c) w' = cv_list c (CS c) w" for c
    using assms(1,3) by (intro cv_list_cong) (auto simp: chan_frame_def)
  then show ?thesis using assms(2) by (simp add: cv_lists_def)
qed

lemma chan_frame_able: "chan_frame A w w' \<Longrightarrow> b \<notin> A \<Longrightarrow> mutex_able m b w' = mutex_able m b w"
  by (simp add: chan_frame_def mutex_able_def)

lemma await_lock_free:
  assumes "mutex_free (ch_mtx (the_channel w)) w" and "linfo_ctx w = Some i" and "a \<noteq> nullptr"
  shows "\<exists>w1 x. await_lock a h w = Inr (Continues, w1) \<and> mutex_held (ch_mtx (the_channel w)) [] w1 \<and> chan_frame {a} w w1 \<and>
    awaiters w1 a = Some x \<and> a_obj x = ch_mtx (the_channel w)"
proof -
  let ?m = "ch_mtx (the_channel w)" and ?x = "(new_awaiter i (ch_mtx (the_channel w)))\<lparr>a_coro := h, a_next := nullptr\<rparr>"
  let ?w1 = "(put_awaiter a ?x (register_wait 1 i (put_awaiter a ((new_awaiter i ?m)\<lparr>a_coro := h\<rparr>) (put_awaiter a (new_awaiter i ?m) w))))
    \<lparr>mtx_state := (mtx_state w)(?m := locked_no_waiting)\<rparr>"
  have "await_lock a h w = Inr (Continues, ?w1)"
    using assms by (simp add: await_lock_def mutex_lock_guard_def mutex_lock_def local_context_def mutex_await_suspend_def
        register_lock_def mutex_free_def Let_def new_awaiter_def stage_of_def)
  moreover have "mutex_held ?m [] ?w1"
    using assms(1) by (intro mutex_heldI [of _ _ "[]" "[]"]) (simp_all add: mutex_free_def locked_no_waiting_def nolocked_def)
  moreover have "chan_frame {a} w ?w1" by (simp add: chan_frame_def)
  moreover have "awaiters ?w1 a = Some ?x" "a_obj ?x = ?m" by (simp_all add: new_awaiter_def)
  ultimately show ?thesis by blast
qed

lemma await_cv_true:
  assumes "awaiters w a = Some x" and "a \<noteq> nullptr" and "s \<noteq> nullptr" and "linfo_ctx w = Some i" and "chan_eval f (the_channel w)"
  shows "\<exists>w2 y p. await_cv K resume cv f a s h w = Some (Inr (Continues, w2)) \<and> chan_frame {a, s} w w2 \<and>
    mtx_state w2 = mtx_state w \<and> mtx_resume_list w2 = mtx_resume_list w \<and> awaiters w2 s = Some y \<and> cv_info w2 s = Some p"
proof -
  let ?w1 = "drop_awaiter a (unregister_wait 1 (a_ctx x) w)" and ?y = "new_awaiter i (a_obj x)"
  let ?p = "\<lparr>m_cond = Some f, m_cv = cv, m_suspend_state = False\<rparr>"
  let ?w2 = "put_awaiter s (?y\<lparr>a_coro := h\<rparr>) ((put_awaiter s ?y ?w1)\<lparr>cv_info := (cv_info ?w1)(s \<mapsto> ?p)\<rparr>)"
  have "await_cv K resume cv f a s h w = Some (Inr (Continues, ?w2))"
    using assms by (simp add: await_cv_def guard_await_resume_def mutex_await_resume_def cv_wait_rvalue_def cv_wait_on_def
        local_context_def cv_await_suspend_def cv_register_lock_def get_part_def stage_of_def)
  moreover have "chan_frame {a, s} w ?w2" by (simp add: chan_frame_def)
  moreover have "awaiters ?w2 s = Some (?y\<lparr>a_coro := h\<rparr>)" "cv_info ?w2 s = Some ?p" by simp_all
  moreover have "mtx_state ?w2 = mtx_state w" "mtx_resume_list ?w2 = mtx_resume_list w" by simp_all
  ultimately show ?thesis by blast
qed

text \<open>The end of a \<^verbatim>\<open>co_await\<close> on a condition variable.\<close>

lemma await_cv_over:
  assumes "awaiters w s = Some y" and "s \<noteq> nullptr" and "cv_info w s = Some p"
  shows "\<exists>w1. cv_await_resume s w = Inr w1 \<and> chan_frame {s} w (drop_awaiter s w1) \<and>
    mtx_state (drop_awaiter s w1) = mtx_state w \<and> mtx_resume_list (drop_awaiter s w1) = mtx_resume_list w"
  using assms by (simp add: cv_await_resume_def get_part_def chan_frame_def)


lemma put_channel_state:
  "mutex_held m q (put_channel ch w) = mutex_held m q w" "cv_lists q CS (put_channel ch w) = cv_lists q CS w"
  "mutex_able m b (put_channel ch w) = mutex_able m b w"
  by (simp_all add: mutex_held_def cv_lists_def cv_list_def mutex_able_def)

text \<open>The last part of \<^verbatim>\<open>send\<close> stores the value and hands the mutex to the oldest sleeping receiver.\<close>

lemma send_finish_wakes:
  assumes ch: "the_channel w = ch" "\<not> part_closed ch" "chan_inv (ch_buf ch)" "\<not> chan_full (ch_buf ch)"
    and held: "mutex_held (ch_mtx ch) [] w" and lists: "cv_lists [] CS w" and b: "CS (m_consumer_cv ch) = b # bs" "mutex_able (ch_mtx ch) b w"
    and s: "awaiters w s = Some y" "s \<noteq> nullptr" "cv_info w s = Some p" "\<forall>c. s \<notin> set (CS c)"
    and pb: "cv_info w b = Some pb" "m_cond pb = Some 1" and x: "awaiters w b = Some x" "a_coro x \<noteq> nullptr"
    and ok: "contexts_ok K cnt w" "0 < context_room cnt (a_ctx x) w"
  shows "\<exists>w' buf. send_finish K resume v s w = Some (Inr (True, w')) \<and> the_channel w' = ch\<lparr>ch_buf := buf\<rparr> \<and>
    chan_inv buf \<and> chan_items buf = chan_items (ch_buf ch) @ [v] \<and> mutex_held (ch_mtx ch) [] w' \<and>
    cv_lists [] (CS(m_consumer_cv ch := bs)) w' \<and> queued (a_ctx x) w' = queued (a_ctx x) w @ [a_coro x] \<and>
    (\<forall>d. d \<noteq> a_ctx x \<longrightarrow> queued d w' = queued d w) \<and> mutex_able (ch_mtx ch) b w' \<and> cv_info w' b \<noteq> None"
proof -
  let ?m = "ch_mtx ch" and ?c = "m_consumer_cv ch"
  from await_cv_over [OF s(1,2,3)] obtain w1 where w1: "cv_await_resume s w = Inr w1" "chan_frame {s} w (drop_awaiter s w1)"
    "mtx_state (drop_awaiter s w1) = mtx_state w" "mtx_resume_list (drop_awaiter s w1) = mtx_resume_list w" by blast
  from chan_store_ok [OF ch(3,4), of v] obtain buf where
    buf: "chan_store v (ch_buf ch) = Inr buf" "chan_inv buf" "chan_items buf = chan_items (ch_buf ch) @ [v]" by blast
  let ?w2 = "drop_awaiter s w1" and ?w3 = "put_channel (ch\<lparr>ch_buf := buf\<rparr>) (drop_awaiter s w1)"
  have sb: "s \<noteq> b" using s(4) b(1) by (metis list.set_intros(1))
  have fr: "the_channel ?w2 = ch" "awaiters ?w2 b = Some x" "cv_info ?w2 b = Some pb" "engines ?w2 = engines w"
    using w1(2) ch(1) sb x(1) pb(1) by (auto simp: chan_frame_def simp del: drop_awaiter_simps)
  have "mutex_held ?m [] ?w3" using held w1(3,4) by (simp only: put_channel_state) (simp add: mutex_held_def)
  moreover have "cv_lists [] CS ?w3" using chan_frame_lists [OF w1(2) lists] s(4) by (simp only: put_channel_state) simp
  moreover have "mutex_able ?m b ?w3" using b(2) chan_frame_able [OF w1(2), of b] sb by (simp only: put_channel_state) simp
  ultimately obtain w4 where w4: "notify_one K resume chan_eval ?c ?w3 = Some (Inr w4)" "mutex_held ?m [b] w4"
      "cv_lists [b] (CS(?c := bs)) w4" "cv_same ?w3 w4"
    using notify_one_held [of ?m "[]" ?w3 CS ?c b bs K resume chan_eval] b(1) by auto
  have able4: "mutex_able ?m b w4" using w4(4) \<open>mutex_able ?m b ?w3\<close> by (rule cv_same_able)
  have st: "cv_state ?m [b] (CS(?c := bs)) w4" using w4(2,3) able4 by (simp add: cv_state_def)
  have ch4: "the_channel w4 = ch\<lparr>ch_buf := buf\<rparr>" and e4: "engines w4 = engines w" using w4(4) fr(4) by (simp_all add: cv_same_def)
  have "\<not> chan_empty buf" using chan_empty_items [OF buf(2)] buf(3) by simp
  then have nb: "\<not> cond_blocks chan_eval b w4"
    using cv_same_blocks(1) [OF w4(4), of chan_eval b] fr(3) pb(2) by (simp add: cond_blocks_def chan_eval_def)
  have "same_jobs (awaiters ?w3) (awaiters w4)" using w4(4) by (simp add: cv_same_def)
  from same_jobs_Some [OF this] fr(2) obtain n where y: "awaiters w4 b = Some (x\<lparr>a_next := n\<rparr>)" by auto
  from virtual_unlock_submits [OF st nb y, of K cnt resume] x(2) ok obtain w5 w' where
    w': "virtual_unlock K resume chan_eval ?m w4 = Some (Inr w')" "cv_same w4 w5" "context_rest w' = context_rest w5"
      "mutex_held ?m [] w'" "cv_lists [b] (CS(?c := bs)) w'" "queued (a_ctx x) w' = queued (a_ctx x) w @ [a_coro x]"
      "\<forall>d. d \<noteq> a_ctx x \<longrightarrow> queued d w' = queued d w"
    by (auto simp: contexts_cong [OF e4] e4)
  have same: "cv_same ?w3 w5" using w4(4) w'(2) by (rule cv_same_trans)
  have "send_finish K resume v s w = Some (Inr (True, w'))"
    using w1(1) fr(1) ch(2) buf(1) w4(1) w'(1) by (simp add: send_finish_def Let_def del: drop_awaiter_simps)
  moreover have "the_channel w' = ch\<lparr>ch_buf := buf\<rparr>" using rest_cvs(5) [OF w'(3)] w'(2) ch4 by (simp add: cv_same_def)
  moreover have "cv_lists [] (CS(?c := bs)) w'" using w'(5) by (simp add: cv_lists_def)
  moreover have "mutex_able ?m b w'" using cv_same_able [OF w'(2) able4] by (simp add: rest_state(3) [OF w'(3)])
  moreover have "cv_info w' b \<noteq> None" using cv_same_info [OF same, of b] fr(3) by (auto simp: rest_cvs(2) [OF w'(3)])
  ultimately show ?thesis using buf(2,3) w'(4,6,7) by (intro exI [of _ w'] exI [of _ buf]) auto
qed

text \<open>The last part of \<^verbatim>\<open>recv\<close> with nobody waiting takes the oldest value and frees the mutex.\<close>

lemma recv_finish_takes:
  assumes ch: "the_channel w = ch" "chan_inv (ch_buf ch)" "chan_items (ch_buf ch) = v # vs"
    and held: "mutex_held (ch_mtx ch) [] w" and lists: "cv_lists [] CS w" and p: "CS (m_producer_cv ch) = []"
    and s: "awaiters w s = Some y" "s \<noteq> nullptr" "cv_info w s = Some q" "\<forall>c. s \<notin> set (CS c)"
  shows "\<exists>w' buf. recv_finish K resume s w = Some (Inr (Some v, w')) \<and> the_channel w' = ch\<lparr>ch_buf := buf\<rparr> \<and>
    chan_inv buf \<and> chan_items buf = vs \<and> mutex_free (ch_mtx ch) w' \<and> cv_lists [] CS w'"
proof -
  let ?m = "ch_mtx ch"
  from await_cv_over [OF s(1,2,3)] obtain w1 where w1: "cv_await_resume s w = Inr w1" "chan_frame {s} w (drop_awaiter s w1)"
    "mtx_state (drop_awaiter s w1) = mtx_state w" "mtx_resume_list (drop_awaiter s w1) = mtx_resume_list w" by blast
  have ne: "\<not> chan_empty (ch_buf ch)" using chan_empty_items [OF ch(2)] ch(3) by simp
  from chan_take_ok [OF ch(2) ne] ch(3) obtain buf where
    buf: "chan_take (ch_buf ch) = Inr (Some v, buf)" "chan_inv buf" "chan_items buf = vs" by auto
  let ?w2 = "drop_awaiter s w1" and ?w3 = "put_channel (ch\<lparr>ch_buf := buf\<rparr>) (drop_awaiter s w1)"
  have fr: "the_channel ?w2 = ch" using w1(2) ch(1) by (auto simp: chan_frame_def simp del: drop_awaiter_simps)
  have held3: "mutex_held ?m [] ?w3" using held w1(3,4) by (simp only: put_channel_state) (simp add: mutex_held_def)
  have lists3: "cv_lists [] CS ?w3" using chan_frame_lists [OF w1(2) lists] s(4) by (simp only: put_channel_state) simp
  then have "cv_list (m_producer_cv ch) [] ?w3" using p by (metis cv_lists_def)
  then have n: "notify_one K resume chan_eval (m_producer_cv ch) ?w3 = Some (Inr ?w3)" by (rule notify_none)
  from unlock_next_free [of ?m CS ?w3] held3 lists3 obtain w' where
    w': "unlock_next ?m ?w3 = Some (Inr (None, w'))" "mutex_free ?m w'" "cv_lists [] CS w'" "cv_same ?w3 w'"
    by (auto simp: cv_state_def)
  have "recv_finish K resume s w = Some (Inr (Some v, w'))"
    using w1(1) fr ne buf(1) n w'(1) by (simp add: recv_finish_def Let_def virtual_unlock_def del: drop_awaiter_simps)
  moreover have "the_channel w' = ch\<lparr>ch_buf := buf\<rparr>" using w'(4) by (simp add: cv_same_def)
  ultimately show ?thesis using buf(2,3) w'(2,3) by blast
qed


section \<open>Properties of the operations\<close>

text \<open>C7: a value sent on an open channel with an empty buffer and a free mutex, on which receivers sleep, reaches the
  oldest of them: all of \<^verbatim>\<open>send\<close> runs without suspending and returns true, the receiver is submitted to its own
  context holding the mutex, and when it runs its \<^verbatim>\<open>recv\<close> returns exactly that value, leaves the buffer
  empty and the mutex free; the other receivers sleep on.\<close>

theorem send_reaches_sleeping_receiver:
  assumes ch: "the_channel w = ch" "\<not> part_closed ch" "chan_inv (ch_buf ch)" "chan_items (ch_buf ch) = []"
    and free: "mutex_free (ch_mtx ch) w" and lists: "cv_lists [] CS w"
    and cs: "CS (m_consumer_cv ch) = b # bs" "CS (m_producer_cv ch) = []" and able: "mutex_able (ch_mtx ch) b w"
    and pb: "cv_info w b = Some pb" "m_cond pb = Some 1" and x: "awaiters w b = Some x" "a_coro x \<noteq> nullptr"
    and ok: "contexts_ok K cnt w" "0 < context_room cnt (a_ctx x) w" "linfo_ctx w = Some i"
    and fresh: "a \<noteq> nullptr" "s \<noteq> nullptr" "\<forall>c. a \<notin> set (CS c) \<and> s \<notin> set (CS c)"
  shows "\<exists>w1 w2 w3 w4. send_begin a h w = Inr (Continues, w1) \<and> send_wait K resume a s h w1 = Some (Inr (Continues, w2)) \<and>
    send_finish K resume v s w2 = Some (Inr (True, w3)) \<and> queued (a_ctx x) w3 = queued (a_ctx x) w @ [a_coro x] \<and>
    recv_finish K resume b w3 = Some (Inr (Some v, w4)) \<and> chan_items (ch_buf (the_channel w4)) = [] \<and>
    mutex_free (ch_mtx ch) w4 \<and> cv_list (m_consumer_cv ch) bs w4"
proof -
  let ?m = "ch_mtx ch"
  have nf: "\<not> chan_full (ch_buf ch)" using chan_full_items [OF ch(3)] chan_room_pos [OF ch(3)] ch(4) by simp
  have op: "\<not> part_closed_atomic ch" using ch(2) by (simp add: part_closed_def part_closed_atomic_def)
  from await_lock_free [of w i a h] free ok(3) fresh(1) ch(1) obtain w1 xa where
    w1: "await_lock a h w = Inr (Continues :: bool stage, w1)" "mutex_held ?m [] w1" "chan_frame {a} w w1" "awaiters w1 a = Some xa" by blast
  have sb: "send_begin a h w = Inr (Continues, w1)" using w1(1) op ch(1) by (simp add: send_begin_def)
  have c1: "the_channel w1 = ch" "linfo_ctx w1 = Some i" using w1(3) ch(1) ok(3) by (simp_all add: chan_frame_def)
  have "chan_eval 0 (the_channel w1)" using nf c1(1) by (simp add: chan_eval_def)
  from await_cv_true [OF w1(4) fresh(1,2) c1(2) this, of K resume "m_producer_cv ch" h] obtain w2 y p where
    w2: "await_cv K resume (m_producer_cv ch) 0 a s h w1 = Some (Inr (Continues :: bool stage, w2))" "chan_frame {a, s} w1 w2"
      "mtx_state w2 = mtx_state w1" "mtx_resume_list w2 = mtx_resume_list w1" "awaiters w2 s = Some y" "cv_info w2 s = Some p" by blast
  then have sw: "send_wait K resume a s h w1 = Some (Inr (Continues, w2))" by (simp add: send_wait_def c1(1))
  have fr: "chan_frame {a, s} w w2" using w1(3) w2(2) by (simp add: chan_frame_def)
  have bas: "b \<notin> {a, s}" using fresh(3) cs(1) by (metis insertE list.set_intros(1) singletonD)
  have b2: "the_channel w2 = ch" "engines w2 = engines w" "cv_info w2 b = Some pb" "awaiters w2 b = Some x"
    using fr bas ch(1) pb(1) x(1) by (auto simp: chan_frame_def)
  have held2: "mutex_held ?m [] w2" using w1(2) w2(3,4) by (simp add: mutex_held_def)
  have lists2: "cv_lists [] CS w2" using chan_frame_lists [OF fr lists] fresh(3) by auto
  have able2: "mutex_able ?m b w2" using able chan_frame_able [OF fr bas] by simp
  have s2: "\<forall>c. s \<notin> set (CS c)" using fresh(3) by blast
  obtain w3 buf where w3: "send_finish K resume v s w2 = Some (Inr (True, w3))" "the_channel w3 = ch\<lparr>ch_buf := buf\<rparr>"
      "chan_inv buf" "chan_items buf = [v]" "mutex_held ?m [] w3" "cv_lists [] (CS(m_consumer_cv ch := bs)) w3"
      "queued (a_ctx x) w3 = queued (a_ctx x) w @ [a_coro x]" "mutex_able ?m b w3" "cv_info w3 b \<noteq> None"
    using send_finish_wakes [OF b2(1) ch(2,3) nf held2 lists2 cs(1) able2 w2(5) fresh(2) w2(6) s2 b2(3) pb(2) b2(4) x(2), of K cnt resume v] ok(1,2) ch(4)
    by (auto simp: contexts_cong [OF b2(2)] b2(2))
  obtain yb qb where b3: "awaiters w3 b = Some yb" "b \<noteq> nullptr" "cv_info w3 b = Some qb" using w3(8,9) by (auto simp: mutex_able_def)
  have cp: "m_producer_cv ch \<noteq> m_consumer_cv ch" using cs by auto
  have dis: "distinct (b # bs)" "\<And>c. c \<noteq> m_consumer_cv ch \<Longrightarrow> set (CS c) \<inter> set (b # bs) = {}"
    using lists cs(1) unfolding cv_lists_def cv_list_def by (metis waiting_distinct)+
  then have nb: "\<forall>c. b \<notin> set ((CS(m_consumer_cv ch := bs)) c)" by auto
  let ?ch = "ch\<lparr>ch_buf := buf\<rparr>"
  have i: "chan_inv (ch_buf ?ch)" "chan_items (ch_buf ?ch) = v # []" "mutex_held (ch_mtx ?ch) [] w3"
    "(CS(m_consumer_cv ch := bs)) (m_producer_cv ?ch) = []" using w3(3,4,5) cs(2) cp by simp_all
  from recv_finish_takes [OF w3(2) i(1,2,3) w3(6) i(4) b3 nb, of K resume] obtain w4 buf' where
    w4: "recv_finish K resume b w3 = Some (Inr (Some v, w4))" "the_channel w4 = ?ch\<lparr>ch_buf := buf'\<rparr>" "chan_items buf' = []"
    "mutex_free (ch_mtx ?ch) w4" "cv_lists [] (CS(m_consumer_cv ch := bs)) w4" by blast
  have "cv_list (m_consumer_cv ch) bs w4" using w4(5) by (metis cv_lists_def fun_upd_same)
  moreover have "chan_items (ch_buf (the_channel w4)) = []" using w4(2,3) by simp
  moreover have "mutex_free ?m w4" using w4(4) by simp
  ultimately show ?thesis using sb sw w3(1,7) w4(1) by blast
qed


text \<open>A channel of capacity three with the mutex 5 and two receivers (awaiters 12 and 13) asleep on the condition variable 7.\<close>

definition sample_chworld :: "(addr \<Rightarrow> addr) \<Rightarrow> (addr \<Rightarrow> cond_var) \<Rightarrow> (nat, nat channel) cvworld_scheme" where
  "sample_chworld st vs =
     cvworld.extend ((sample_cvworld st (\<lambda>_. nullptr) vs)\<lparr>linfo_ctx := Some 0\<rparr>) (new_channel 5 8 7 3 [0, 0, 0])"

lemma sample_chworld_simps [simp]:
  "awaiters (sample_chworld st vs) = sample_sleepers" "mtx_state (sample_chworld st vs) = st"
  "mtx_resume_list (sample_chworld st vs) = (\<lambda>_. nullptr)" "cv_info (sample_chworld st vs) = sample_parts"
  "cvs (sample_chworld st vs) = vs" "engines (sample_chworld st vs) = engines sample_world"
  "linfo_ctx (sample_chworld st vs) = Some 0" "the_channel (sample_chworld st vs) = new_channel 5 8 7 3 [0, 0, 0]"
  by (simp_all add: sample_chworld_def cvworld.defs)

lemma sample_channel:
  "\<not> part_closed (new_channel m p c 3 [0, 0, 0 :: nat])" "chan_inv (ch_buf (new_channel m p c 3 [0, 0, 0 :: nat]))"
  "chan_items (ch_buf (new_channel m p c 3 [0, 0, 0 :: nat])) = []"
  using new_buffer_inv [of "[0, 0, 0 :: nat]" 3] by (simp_all add: new_channel_def part_closed_def no_close_def part_close_def word_le_nat_alt)

theorem send_reaches_sleeping_receiver_witness:
  "\<exists>w1 w2 w3 w4. send_begin 21 70 (sample_chworld (\<lambda>_. nolocked) (sample_cvs 12 13)) = Inr (Continues, w1) \<and>
    send_wait sample_kernel finishing 21 22 70 w1 = Some (Inr (Continues, w2)) \<and>
    send_finish sample_kernel finishing 9 22 w2 = Some (Inr (True, w3)) \<and> queued 1 w3 = [72] \<and>
    recv_finish sample_kernel finishing 12 w3 = Some (Inr (Some 9, w4)) \<and> cv_list 7 [13] w4"
proof -
  let ?w = "sample_chworld (\<lambda>_. nolocked) (sample_cvs 12 13)" and ?ch = "new_channel 5 8 7 3 [0, 0, 0 :: nat]"
  let ?CS = "(\<lambda>_. [])(7 :: addr := [12, 13])" and ?x = "\<lparr>a_ctx = 1, a_obj = 5, a_next = 13, a_coro = 72\<rparr>"
  have e: "engines ?w = engines sample_world" by simp
  have ch: "the_channel ?w = ?ch" "ch_mtx ?ch = 5" "m_consumer_cv ?ch = 7" "m_producer_cv ?ch = 8" by (simp_all add: new_channel_def)
  have free: "mutex_free (ch_mtx ?ch) ?w" by (simp add: mutex_free_def)
  have lists: "cv_lists [] ?CS ?w" by (auto simp: cv_lists_def cv_list_def sample_cvs_def sample_sleepers_def)
  have cs: "?CS (m_consumer_cv ?ch) = 12 # [13]" "?CS (m_producer_cv ?ch) = []" by (simp_all add: ch)
  have able: "mutex_able (ch_mtx ?ch) 12 ?w" by (simp add: ch mutex_able_def sample_sleepers_def nolocked_def)
  have pb: "cv_info ?w 12 = Some \<lparr>m_cond = Some 1, m_cv = 7, m_suspend_state = True\<rparr>" by (simp add: sample_parts_def)
  have x: "awaiters ?w 12 = Some ?x" "a_coro ?x \<noteq> nullptr" by (simp_all add: sample_sleepers_def)
  have room: "0 < context_room (\<lambda>fd k. k) (a_ctx ?x) ?w" using sample_room(2) [OF e] by simp
  have "queued 1 ?w = []" unfolding e by (rule sample_queue)
  then show ?thesis
    using send_reaches_sleeping_receiver [OF ch(1) sample_channel free lists cs able pb _ x sample_room(1) [OF e] room,
        of 0 21 22 70 finishing 9] by (fastforce simp: ch)
qed

text \<open>C38: \<^verbatim>\<open>close\<close> can miss a receiver for good. A receiver holds the mutex and its predicate has just failed; \<^verbatim>\<open>close\<close>, which takes
  no lock, stores the closed state and notifies, which finds nobody asleep; only then does the receiver join the
  list and unlock. It now sleeps although its predicate holds, the mutex is free, nothing was
  submitted to any context, and every later \<^verbatim>\<open>send\<close> returns before it could notify anybody.\<close>

theorem close_misses_receiver:
  assumes ch: "the_channel w = ch" "\<not> part_closed ch" "chan_empty (ch_buf ch)" and held: "mutex_held (ch_mtx ch) [] w"
    and lists: "\<forall>c. cv_list c [] w" and b: "mutex_able (ch_mtx ch) b w"
    and pb: "cv_info w b = Some pb" "m_cond pb = Some 1" "m_cv pb = m_consumer_cv ch"
  shows "\<not> chan_eval 1 (the_channel w) \<and>
    (\<exists>w1 w2 w3. close K resume w = Some (Inr w1) \<and> cv_sleep b w1 = Inr w2 \<and>
      virtual_unlock K resume chan_eval (ch_mtx ch) w2 = Some (Inr w3) \<and> chan_eval 1 (the_channel w3) \<and>
      cv_list (m_consumer_cv ch) [b] w3 \<and> mutex_free (ch_mtx ch) w3 \<and> engines w3 = engines w \<and>
      (\<forall>a h. send_begin a h w3 = Inr (Returned False, w3)))"
proof -
  let ?w1 = "set_part_close w" and ?CS = "\<lambda>_ :: addr. [] :: addr list"
  have l1: "cv_list c [] ?w1" for c using lists by (simp add: set_part_close_def cv_list_def)
  have cl: "close K resume w = Some (Inr ?w1)" by (simp add: close_def notify_none [OF l1])
  from b obtain x where x: "b \<noteq> nullptr" "awaiters ?w1 b = Some x" "cv_info ?w1 b = Some pb"
    using pb(1) by (auto simp: mutex_able_def set_part_close_def)
  have "cv_lists [b] ?CS ?w1" using l1 by (simp add: cv_lists_def)
  from cv_sleep_lists [OF this x] obtain w2 where
    w2: "cv_sleep b ?w1 = Inr w2" "cv_lists [] (?CS(m_cv pb := ?CS (m_cv pb) @ [b])) w2" "cv_same ?w1 w2"
      "mtx_state w2 = mtx_state ?w1" "mtx_resume_list w2 = mtx_resume_list ?w1" by auto
  have "mutex_held (ch_mtx ch) [] w2" using held w2(4,5) by (simp add: set_part_close_def mutex_held_def)
  with w2(2) have "cv_state (ch_mtx ch) [] (?CS(m_cv pb := ?CS (m_cv pb) @ [b])) w2" by (simp add: cv_state_def)
  from unlock_next_free [OF this] obtain w3 where
    w3: "unlock_next (ch_mtx ch) w2 = Some (Inr (None, w3))" "mutex_free (ch_mtx ch) w3"
      "cv_lists [] (?CS(m_cv pb := ?CS (m_cv pb) @ [b])) w3" "cv_same w2 w3" by blast
  have same: "cv_same ?w1 w3" using w2(3) w3(4) by (rule cv_same_trans)
  have ch3: "the_channel w3 = ch\<lparr>m_close_state := part_close\<rparr>" "engines w3 = engines w"
    using same ch(1) by (simp_all add: cv_same_def set_part_close_def)
  have "cv_list (m_consumer_cv ch) [b] w3" using w3(3) pb(3) unfolding cv_lists_def by (metis append_Nil fun_upd_same)
  moreover have "virtual_unlock K resume chan_eval (ch_mtx ch) w2 = Some (Inr w3)" using w3(1) by (simp add: virtual_unlock_def)
  moreover have "chan_eval 1 (the_channel w3)" "\<forall>a h. send_begin a h w3 = Inr (Returned False, w3)"
    by (simp_all add: ch3 chan_eval_def part_closed_def send_begin_def part_closed_atomic_def)
  moreover have "\<not> chan_eval 1 (the_channel w)" using ch by (simp add: chan_eval_def)
  ultimately show ?thesis using cl w2(1) w3(2) ch3(2) by blast
qed

theorem close_misses_receiver_witness:
  "\<exists>w1 w2 w3. close sample_kernel finishing (sample_chworld (\<lambda>_. nullptr) (sample_cvs 0 0)) = Some (Inr w1) \<and> cv_sleep 12 w1 = Inr w2 \<and>
    virtual_unlock sample_kernel finishing chan_eval 5 w2 = Some (Inr w3) \<and> chan_eval 1 (the_channel w3) \<and> cv_list 7 [12] w3"
proof -
  let ?w = "sample_chworld (\<lambda>_. nullptr) (sample_cvs 0 0)" and ?ch = "new_channel 5 8 7 3 [0, 0, 0 :: nat]"
  have ch: "the_channel ?w = ?ch" "ch_mtx ?ch = 5" "m_consumer_cv ?ch = 7" by (simp_all add: new_channel_def)
  have em: "chan_empty (ch_buf ?ch)" using chan_empty_items [OF sample_channel(2)] sample_channel(3) by blast
  have held: "mutex_held (ch_mtx ?ch) [] ?w" by (rule mutex_heldI [of _ _ "[]" "[]"]) (simp_all add: nolocked_def)
  have lists: "\<forall>c. cv_list c [] ?w" by (simp add: cv_list_def sample_cvs_def)
  have able: "mutex_able (ch_mtx ?ch) 12 ?w" by (simp add: ch mutex_able_def sample_sleepers_def nolocked_def)
  have pb: "cv_info ?w 12 = Some \<lparr>m_cond = Some 1, m_cv = 7, m_suspend_state = True\<rparr>" by (simp add: sample_parts_def)
  show ?thesis
    using close_misses_receiver [OF ch(1) sample_channel(1) em held lists able pb, of sample_kernel finishing] by (simp add: ch) blast
qed


section \<open>Many senders and receivers\<close>

text \<open>
  Any number of coroutines send and receive and anybody closes the channel. Who holds the mutex is \<open>cm_holder\<close>,
  with the place it has reached; that there is at most one is \<open>mutex_mutual_exclusion\<close>. Between two
  places \<^verbatim>\<open>close\<close> may run. A coroutine whose predicate fails gives the mutex up and may get it again at any time; the
  test before locking may be out of date when the mutex is taken, so locking is always allowed.
  \<open>cm_sent\<close>: the values of the sends that stored; \<open>cm_received\<close>: the results of the receives that took something;
  \<open>cm_ended\<close>: some receive has returned \<^verbatim>\<open>std::nullopt\<close> from inside the lock.
\<close>

datatype 'a holder = Nobody | S_waiting 'a | S_ready 'a | S_storing 'a | R_waiting | R_ready

record 'a chan_machine =
  cm_ch :: "'a channel"
  cm_holder :: "'a holder"
  cm_sent :: "'a list"
  cm_received :: "'a option list"
  cm_ended :: bool

definition chan_start :: "64 word \<Rightarrow> 'a chan_machine \<Rightarrow> bool" where
  "chan_start cap s \<longleftrightarrow> (\<exists>m p c arr. length arr = unat cap \<and> cm_ch s = new_channel m p c cap arr) \<and>
     cm_holder s = Nobody \<and> cm_sent s = [] \<and> cm_received s = [] \<and> \<not> cm_ended s"

inductive chan_step :: "'a chan_machine \<Rightarrow> 'a chan_machine \<Rightarrow> bool" where
  send_lock: "cm_holder s = Nobody \<Longrightarrow> chan_step s (s\<lparr>cm_holder := S_waiting v\<rparr>)"
| send_sleep: "cm_holder s = S_waiting v \<Longrightarrow> \<not> chan_eval 0 (cm_ch s) \<Longrightarrow> chan_step s (s\<lparr>cm_holder := Nobody\<rparr>)"
| send_pass: "cm_holder s = S_waiting v \<Longrightarrow> chan_eval 0 (cm_ch s) \<Longrightarrow> chan_step s (s\<lparr>cm_holder := S_ready v\<rparr>)"
| send_closed: "cm_holder s = S_ready v \<Longrightarrow> part_closed (cm_ch s) \<Longrightarrow> chan_step s (s\<lparr>cm_holder := Nobody\<rparr>)"
| send_open: "cm_holder s = S_ready v \<Longrightarrow> \<not> part_closed (cm_ch s) \<Longrightarrow> chan_step s (s\<lparr>cm_holder := S_storing v\<rparr>)"
| send_store: "cm_holder s = S_storing v \<Longrightarrow> chan_store v (ch_buf (cm_ch s)) = Inr buf \<Longrightarrow>
    chan_step s (s\<lparr>cm_holder := Nobody, cm_ch := (cm_ch s)\<lparr>ch_buf := buf\<rparr>, cm_sent := cm_sent s @ [v]\<rparr>)"
| recv_lock: "cm_holder s = Nobody \<Longrightarrow> chan_step s (s\<lparr>cm_holder := R_waiting\<rparr>)"
| recv_sleep: "cm_holder s = R_waiting \<Longrightarrow> \<not> chan_eval 1 (cm_ch s) \<Longrightarrow> chan_step s (s\<lparr>cm_holder := Nobody\<rparr>)"
| recv_pass: "cm_holder s = R_waiting \<Longrightarrow> chan_eval 1 (cm_ch s) \<Longrightarrow> chan_step s (s\<lparr>cm_holder := R_ready\<rparr>)"
| recv_end: "cm_holder s = R_ready \<Longrightarrow> chan_empty (ch_buf (cm_ch s)) \<Longrightarrow> part_closed (cm_ch s) \<Longrightarrow>
    chan_step s (s\<lparr>cm_holder := Nobody, cm_ch := (cm_ch s)\<lparr>m_close_state := complete_close\<rparr>, cm_ended := True\<rparr>)"
| recv_take: "cm_holder s = R_ready \<Longrightarrow> \<not> (chan_empty (ch_buf (cm_ch s)) \<and> part_closed (cm_ch s)) \<Longrightarrow>
    chan_take (ch_buf (cm_ch s)) = Inr (p, buf) \<Longrightarrow>
    chan_step s (s\<lparr>cm_holder := Nobody, cm_ch := (cm_ch s)\<lparr>ch_buf := buf\<rparr>, cm_received := cm_received s @ [p]\<rparr>)"
| closing: "chan_step s (s\<lparr>cm_ch := (cm_ch s)\<lparr>m_close_state := part_close\<rparr>\<rparr>)"

definition holder_ok :: "'a holder \<Rightarrow> 'a channel \<Rightarrow> bool" where
  "holder_ok h ch \<longleftrightarrow>
     (case h of S_ready v \<Rightarrow> \<not> chan_full (ch_buf ch) \<or> part_closed ch | S_storing v \<Rightarrow> \<not> chan_full (ch_buf ch)
      | R_ready \<Rightarrow> \<not> chan_empty (ch_buf ch) \<or> part_closed ch | _ \<Rightarrow> True)"

definition chan_ok :: "64 word \<Rightarrow> 'a chan_machine \<Rightarrow> bool" where
  "chan_ok cap s \<longleftrightarrow> chan_inv (ch_buf (cm_ch s)) \<and> chan_room (ch_buf (cm_ch s)) = (if cap = 0 then 1 else unat cap) \<and>
     map Some (cm_sent s) = cm_received s @ map Some (chan_items (ch_buf (cm_ch s))) \<and> holder_ok (cm_holder s) (cm_ch s) \<and>
     (cm_ended s \<longrightarrow> part_closed (cm_ch s) \<and> chan_items (ch_buf (cm_ch s)) = [] \<and> (\<forall>v. cm_holder s \<noteq> S_storing v))"

lemma closed_values [simp]:
  "part_closed (ch\<lparr>m_close_state := part_close\<rparr>)" "part_closed (ch\<lparr>m_close_state := complete_close\<rparr>)"
  "part_closed (ch\<lparr>ch_buf := buf\<rparr>) = part_closed ch"
  by (simp_all add: part_closed_def part_close_def complete_close_def)

lemma chan_ok_start: "chan_start cap s \<Longrightarrow> chan_ok cap s"
  by (auto simp: chan_start_def chan_ok_def holder_ok_def new_channel_def new_buffer_inv)

lemma chan_ok_step: "chan_ok cap s \<Longrightarrow> chan_step s t \<Longrightarrow> chan_ok cap t"
proof (erule chan_step.cases)
  fix s' v buf
  assume ok: "chan_ok cap s" and s: "s = s'" "cm_holder s' = S_storing v" "chan_store v (ch_buf (cm_ch s')) = Inr buf"
    and t: "t = s'\<lparr>cm_holder := Nobody, cm_ch := (cm_ch s')\<lparr>ch_buf := buf\<rparr>, cm_sent := cm_sent s' @ [v]\<rparr>"
  have "chan_inv (ch_buf (cm_ch s))" "\<not> chan_full (ch_buf (cm_ch s))" using ok s by (simp_all add: chan_ok_def holder_ok_def)
  from chan_store_ok [OF this, of v] ok s t show "chan_ok cap t" by (auto simp: chan_ok_def holder_ok_def)
next
  fix s' p buf
  assume ok: "chan_ok cap s" and s: "s = s'" "cm_holder s' = R_ready" "chan_take (ch_buf (cm_ch s')) = Inr (p, buf)"
      "\<not> (chan_empty (ch_buf (cm_ch s')) \<and> part_closed (cm_ch s'))"
    and t: "t = s'\<lparr>cm_holder := Nobody, cm_ch := (cm_ch s')\<lparr>ch_buf := buf\<rparr>, cm_received := cm_received s' @ [p]\<rparr>"
  have inv: "chan_inv (ch_buf (cm_ch s))" and ne: "\<not> chan_empty (ch_buf (cm_ch s))"
    using ok s by (auto simp: chan_ok_def holder_ok_def)
  from chan_take_ok [OF this] ok s t show "chan_ok cap t" by (auto simp: chan_ok_def holder_ok_def)
qed (auto simp: chan_ok_def holder_ok_def chan_eval_def chan_empty_items split: holder.splits)

interpretation chm: step_system "chan_start cap" chan_step "chan_ok cap"
  by unfold_locales (fact chan_ok_start chan_ok_step)+

text \<open>C8: under every interleaving of sends, receives and closings the receivers get the accepted values in the order
  in which they were stored, each once and none invented; the buffer never exceeds the capacity and
  a store never faults; and once a receiver has been told that the channel is finished, every
  accepted value has been received.\<close>

theorem channel_delivers_in_order:
  assumes "reachable (chan_start cap) chan_step s"
  shows "(\<exists>rest. map Some (cm_sent s) = cm_received s @ map Some rest \<and> length rest \<le> (if cap = 0 then 1 else unat cap)) \<and>
    (cm_ended s \<longrightarrow> cm_received s = map Some (cm_sent s)) \<and>
    (\<forall>v. cm_holder s = S_storing v \<longrightarrow> (\<exists>buf. chan_store v (ch_buf (cm_ch s)) = Inr buf))"
proof -
  have ok: "chan_ok cap s" using assms by (rule chm.reachable_inv)
  then have inv: "chan_inv (ch_buf (cm_ch s))" by (simp add: chan_ok_def)
  have "\<exists>rest. map Some (cm_sent s) = cm_received s @ map Some rest \<and> length rest \<le> (if cap = 0 then 1 else unat cap)"
    using ok chan_items_bound [OF inv] by (intro exI [of _ "chan_items (ch_buf (cm_ch s))"]) (simp add: chan_ok_def)
  moreover have "cm_ended s \<longrightarrow> cm_received s = map Some (cm_sent s)" using ok by (simp add: chan_ok_def)
  moreover have "\<exists>buf. chan_store v (ch_buf (cm_ch s)) = Inr buf" if "cm_holder s = S_storing v" for v
    using ok that chan_store_ok [OF inv, of v] by (auto simp: chan_ok_def holder_ok_def)
  ultimately show ?thesis by blast
qed


text \<open>A run on a channel of capacity zero: 7 is sent and received, the channel is closed, and a receive ends it.\<close>

definition zero_channel :: "8 word \<Rightarrow> nat option \<Rightarrow> nat channel" where
  "zero_channel cl d = \<lparr>ch_mtx = 5, m_producer_cv = 8, m_consumer_cv = 7, m_close_state = cl, ch_buf = Zero d\<rparr>"

definition machine_at :: "8 word \<Rightarrow> nat option \<Rightarrow> nat holder \<Rightarrow> nat list \<Rightarrow> nat option list \<Rightarrow> bool \<Rightarrow> nat chan_machine" where
  "machine_at cl d h sent recvd e =
     \<lparr>cm_ch = zero_channel cl d, cm_holder = h, cm_sent = sent, cm_received = recvd, cm_ended = e\<rparr>"

lemma machine_at_simps [simp]:
  "cm_ch (machine_at cl d h sent recvd e) = zero_channel cl d" "cm_holder (machine_at cl d h sent recvd e) = h"
  "(machine_at cl d h sent recvd e)\<lparr>cm_holder := h'\<rparr> = machine_at cl d h' sent recvd e"
  "ch_buf (zero_channel cl d) = Zero d" "part_closed (zero_channel cl d) = (cl \<le> 1)"
  "chan_eval 0 (zero_channel cl d) = (d = None \<or> cl \<le> 1)" "chan_eval (Suc 0) (zero_channel cl d) = (d \<noteq> None \<or> cl \<le> 1)"
  by (simp_all add: machine_at_def zero_channel_def part_closed_def part_close_def chan_eval_def zero_full_def zero_empty_def)

lemma machine_run: "reachable (chan_start 0) chan_step (machine_at 0 None Nobody [7] [Some 7] True)"
proof -
  let ?R = "reachable (chan_start 0) chan_step"
  note step = reach_step [where start = "chan_start 0" and step = chan_step]
  note upd = machine_at_def zero_channel_def zero_store_def zero_take_def part_close_def complete_close_def
  have le: "\<not> (2 :: 8 word) \<le> 1" by (simp add: word_le_nat_alt)
  have "\<exists>m p c arr. length arr = unat (0 :: 64 word) \<and> zero_channel 2 None = new_channel m p c 0 arr"
    by (intro exI [of _ 5] exI [of _ 8] exI [of _ 7] exI [of _ "[]"]) (simp add: zero_channel_def new_channel_def new_buffer_def no_close_def)
  then have "?R (machine_at 2 None Nobody [] [] False)"
    by (intro reach_start) (simp add: chan_start_def, simp add: machine_at_def)
  from step [OF this send_lock [of _ 7]] have "?R (machine_at 2 None (S_waiting 7) [] [] False)" by simp
  from step [OF this send_pass [of _ 7]] have "?R (machine_at 2 None (S_ready 7) [] [] False)" by simp
  from step [OF this send_open [of _ 7]] have "?R (machine_at 2 None (S_storing 7) [] [] False)" by (simp add: le)
  from step [OF this send_store [of _ 7 "Zero (Some 7)"]] have "?R (machine_at 2 (Some 7) Nobody [7] [] False)" by (simp add: upd)
  from step [OF this recv_lock] have "?R (machine_at 2 (Some 7) R_waiting [7] [] False)" by simp
  from step [OF this recv_pass] have "?R (machine_at 2 (Some 7) R_ready [7] [] False)" by simp
  from step [OF this recv_take [of _ "Some 7" "Zero None"]] have "?R (machine_at 2 None Nobody [7] [Some 7] False)"
    by (simp add: upd zero_empty_def)
  from step [OF this closing] have "?R (machine_at 1 None Nobody [7] [Some 7] False)" by (simp add: upd)
  from step [OF this recv_lock] have "?R (machine_at 1 None R_waiting [7] [Some 7] False)" by simp
  from step [OF this recv_pass] have "?R (machine_at 1 None R_ready [7] [Some 7] False)" by simp
  from step [OF this recv_end] show ?thesis by (simp add: upd zero_empty_def part_closed_def)
qed

theorem channel_delivers_in_order_witness:
  "cm_ended (machine_at 0 None Nobody [7] [Some 7] True) \<and>
    cm_received (machine_at 0 None Nobody [7] [Some 7] True) = map Some (cm_sent (machine_at 0 None Nobody [7] [Some 7] True))"
  using channel_delivers_in_order [OF machine_run] by (simp add: machine_at_def)

end
