(* ===== verification/Benchmarks.thy ===== *)
theory Benchmarks
  imports Thread_Pool Event Wait_Group Channel
begin

text \<open>
  The benchmarks of \<^verbatim>\<open>benchtests/\<close> that run coroutines: the bodies, cut at their \<^verbatim>\<open>co_await\<close>s, on the models of the event, the latch, the wait
  group, the mutex and the condition variable, and the drivers, which initialise the scheduler, construct the
  primitive, submit one coroutine per processor and enter the loop. The \<^verbatim>\<open>coro_stl_\<close> benchmarks submit coroutines that block
  their worker; their tasks are those of \<open>Thread_Pool\<close>.
\<close>

section \<open>Bodies\<close>

text \<open>A waiting coroutine has not begun, is suspended, or has ended.\<close>

datatype bench_pc = B_begin | B_wait | B_end

text \<open>\<^verbatim>\<open>co_await ev.wait()\<close>: whether the coroutine is suspended.\<close>

definition co_await_event where
  "co_await_event e a h w =
     bindE (event_wait e a w) (\<lambda>w1.
     bindE (event_await_ready a w1) (\<lambda>(is_ready, w2). if is_ready then Inr (False, w2) else event_await_suspend a h w2))"

text \<open>The rest of \<^verbatim>\<open>wait(ev)\<close>: the value of the \<^verbatim>\<open>co_await\<close>, the end of the awaiter; \<open>loop_add\<close> changes a local variable only.\<close>

definition event_waited where
  "event_waited a w = bindE (event_await_resume a w) (\<lambda>w1. Inr (w1\<lparr>awaiters := (awaiters w1)(a := None)\<rparr>))"

definition event_wait_body where
  "event_wait_body e a h pc w =
     (case pc of
        B_begin \<Rightarrow> bindE (co_await_event e a h w) (\<lambda>(suspended, w1).
          if suspended then Inr (B_wait, w1) else bindE (event_waited a w1) (\<lambda>w2. Inr (B_end, w2)))
      | B_wait \<Rightarrow> bindE (event_waited a w) (\<lambda>w2. Inr (B_end, w2))
      | B_end \<Rightarrow> Inl Assert_failed)"

definition event_set_body where
  "event_set_body K resume e w = event_set K resume e w"

definition latch_countdown_body where
  "latch_countdown_body K resume l w = count_down K resume l w"

definition latch_wait_body where
  "latch_wait_body l a h pc w = event_wait_body l a h pc w"

definition group_done_body where
  "group_done_body K resume g w = wg_done K resume g w"

definition group_waited where
  "group_waited a w = bindE (wg_await_resume a w) (\<lambda>w1. Inr (w1\<lparr>awaiters := (awaiters w1)(a := None)\<rparr>))"

definition group_wait_body where
  "group_wait_body g a h pc w =
     (case pc of
        B_begin \<Rightarrow> bindE (wg_wait g a w) (\<lambda>w1. bindE (wg_await_suspend a h w1) (\<lambda>(suspended, w2).
          if suspended then Inr (B_wait, w2) else bindE (group_waited a w2) (\<lambda>w3. Inr (B_end, w3))))
      | B_wait \<Rightarrow> bindE (group_waited a w) (\<lambda>w2. Inr (B_end, w2))
      | B_end \<Rightarrow> Inl Assert_failed)"

text \<open>\<^verbatim>\<open>add(mutex&)\<close>: the awaiter ends with the expression, then the loop and the unlocking.\<close>

definition mutex_added where
  "mutex_added K resume m a w =
     bindO (Some (mutex_await_resume a w)) (\<lambda>w1.
     bindO (unlock K resume m (w1\<lparr>awaiters := (awaiters w1)(a := None)\<rparr>)) (\<lambda>w2. Some (Inr (B_end, w2))))"

definition mutex_add_body where
  "mutex_add_body K resume m a h pc w =
     (case pc of
        B_begin \<Rightarrow> bindO (Some (mutex_lock m a w)) (\<lambda>w1. bindO (Some (mutex_await_suspend a h w1)) (\<lambda>(suspended, w2).
          if suspended then Some (Inr (B_wait, w2)) else mutex_added K resume m a w2))
      | B_wait \<Rightarrow> mutex_added K resume m a w
      | B_end \<Rightarrow> Some (Inl Assert_failed))"

text \<open>\<^verbatim>\<open>notify_all(cv, mtx, gid, id, loop_num)\<close>: the guard that \<^verbatim>\<open>co_await mtx.lock_guard()\<close> yields is a temporary, so that it
  unlocks at the end of the expression, before the awaiter goes; \<^verbatim>\<open>cv.wait(mtx, ...)\<close> builds an awaiter that nobody awaits and that
  ends at once. \<open>cond\<close> names the predicate.\<close>

definition cv_guarded where
  "cv_guarded K resume eval c m cond a b w =
     bindO (Some (guard_await_resume a w)) (\<lambda>(guard, w1).
     bindO (virtual_unlock K resume eval guard w1) (\<lambda>w2.
     bindO (Some (cv_wait_rvalue c m cond b (w2\<lparr>awaiters := (awaiters w2)(a := None)\<rparr>))) (\<lambda>w3.
     Some (Inr (w3\<lparr>awaiters := (awaiters w3)(b := None), cv_info := (cv_info w3)(b := None)\<rparr>)))))"

definition cv_notify_all_rest where
  "cv_notify_all_rest K resume eval c m cond a b w =
     bindO (cv_guarded K resume eval c m cond a b w) (\<lambda>w1. bindO (notify_all K resume eval c w1) (\<lambda>w2. Some (Inr (B_end, w2))))"

definition cv_notify_all_body where
  "cv_notify_all_body K resume eval c m cond a b h pc w =
     (case pc of
        B_begin \<Rightarrow> bindO (Some (mutex_lock_guard m a w)) (\<lambda>w1. bindO (Some (mutex_await_suspend a h w1)) (\<lambda>(suspended, w2).
          if suspended then Some (Inr (B_wait, w2)) else cv_notify_all_rest K resume eval c m cond a b w2))
      | B_wait \<Rightarrow> cv_notify_all_rest K resume eval c m cond a b w
      | B_end \<Rightarrow> Some (Inl Assert_failed))"

text \<open>\<^verbatim>\<open>notify_one\<close>, which passes \<^verbatim>\<open>gid\<close> on, in \<open>run_cnt\<close> rounds. The loop runs until a round is suspended or there are none left.\<close>

definition cv_notify_one_round where
  "cv_notify_one_round K resume eval c m cond a b w =
     bindO (cv_guarded K resume eval c m cond a b w) (\<lambda>w1. notify_one K resume eval c w1)"

fun cv_notify_one_loop where
  "cv_notify_one_loop K resume eval c m cond a b h 0 gid w = Some (Inr (B_end, 0 :: nat, gid, w))"
| "cv_notify_one_loop K resume eval c m cond a b h (Suc run_cnt) gid w =
     bindO (Some (mutex_lock_guard m a w)) (\<lambda>w1. bindO (Some (mutex_await_suspend a h w1)) (\<lambda>(suspended, w2).
     if suspended then Some (Inr (B_wait, Suc run_cnt, gid, w2))
     else bindO (cv_notify_one_round K resume eval c m cond a b w2) (\<lambda>w3.
       cv_notify_one_loop K resume eval c m cond a b h run_cnt ((gid + 1) mod (2 :: int)) w3)))"

definition cv_notify_one_body where
  "cv_notify_one_body K resume eval c m cond a b h pc run_cnt gid w =
     (case pc of
        B_begin \<Rightarrow> cv_notify_one_loop K resume eval c m cond a b h run_cnt gid w
      | B_wait \<Rightarrow> bindO (cv_notify_one_round K resume eval c m cond a b w) (\<lambda>w1.
          cv_notify_one_loop K resume eval c m cond a b h (run_cnt - 1) ((gid + 1) mod 2) w1)
      | B_end \<Rightarrow> Some (Inl Assert_failed))"

definition notifyone_run_cnt :: nat where
  "notifyone_run_cnt = 1000"

section \<open>Drivers\<close>

record bench_places =
  bp_frame :: handle
  bp_task :: addr

text \<open>\<^verbatim>\<open>submit_to_scheduler(f(...))\<close>; the map says which body a handle has.\<close>

definition start_coroutine where
  "start_coroutine K resume alloc l st =
     (case st of (bs, w) \<Rightarrow>
        let pl = alloc w in
        bindE (submit_to_scheduler_rvalue K resume (bp_task pl)
                 (w\<lparr>w_frames := (w_frames w)(bp_frame pl \<mapsto> new_frame), w_tasks := (w_tasks w)(bp_task pl := bp_frame pl)\<rparr>))
          (\<lambda>w1. Inr (bs(bp_frame pl \<mapsto> l), w1)))"

definition run_benchmark where
  "run_benchmark K fresh thread_num alloc resume workers construct ls w =
     bindE (scheduler_init K fresh thread_num 0 w) (\<lambda>w1.
     bindE (forE ls (start_coroutine K resume alloc) (Map.empty, construct w1)) (\<lambda>(bs, w2).
     scheduler_loop (workers bs) w2))"

datatype bench_body = Event_wait | Event_set | Latch_countdown | Latch_wait | Group_done | Group_wait | Mutex_add
  | Cv_notify_all int | Cv_notify_one int | Blocking task_pc

definition event_bench where
  "event_bench K fresh thread_num alloc resume workers e w =
     run_benchmark K fresh thread_num alloc resume workers (new_event False e)
       (replicate (unat thread_num - 1) Event_wait @ [Event_set]) w"

definition latch_bench where
  "latch_bench K fresh thread_num alloc resume workers l w =
     (let countdown_num = unat thread_num div 2; wait_num = unat thread_num - countdown_num in
      run_benchmark K fresh thread_num alloc resume workers (new_latch (of_nat countdown_num) l)
        (replicate countdown_num Latch_countdown @ replicate wait_num Latch_wait) w)"

definition waitgroup_bench where
  "waitgroup_bench K fresh thread_num alloc resume workers g w =
     (let done_num = unat thread_num div 2; wait_num = unat thread_num - done_num in
      run_benchmark K fresh thread_num alloc resume workers (new_wait_group (int done_num) g)
        (replicate done_num Group_done @ replicate wait_num Group_wait) w)"

definition mutex_bench where
  "mutex_bench K fresh thread_num alloc resume workers m w =
     run_benchmark K fresh thread_num alloc resume workers (new_mutex m) (replicate (unat thread_num) Mutex_add) w"

definition cv_notifyall_bench where
  "cv_notifyall_bench K fresh thread_num alloc resume workers c m w =
     run_benchmark K fresh thread_num alloc resume workers (\<lambda>w. new_mutex m (new_cv c w)) (map (\<lambda>i. Cv_notify_all (int i)) (rev [0..<unat thread_num])) w"

definition cv_notifyone_bench where
  "cv_notifyone_bench K fresh thread_num alloc resume workers c m w =
     run_benchmark K fresh thread_num alloc resume workers (\<lambda>w. new_mutex m (new_cv c w)) [Cv_notify_one 0, Cv_notify_one 1] w"

text \<open>The coroutines on primitives of the standard library, and the one on the spin lock, block the worker that runs them.\<close>

definition future_set_body :: bench_body where "future_set_body = Blocking Count_task"
definition future_wait_body :: bench_body where "future_wait_body = Blocking Wait_task"
definition stl_countdown_body :: bench_body where "stl_countdown_body = Blocking Count_task"
definition stl_latch_wait_body :: bench_body where "stl_latch_wait_body = Blocking Wait_task"
definition stl_done_body :: bench_body where "stl_done_body = Blocking Count_task"
definition stl_group_wait_body :: bench_body where "stl_group_wait_body = Blocking Wait_task"
definition stl_add_body :: bench_body where "stl_add_body = Blocking Add_task"
definition spin_add_body :: bench_body where "spin_add_body = Blocking Add_task"

lemmas blocking_bodies = future_set_body_def future_wait_body_def stl_countdown_body_def stl_latch_wait_body_def stl_done_body_def
  stl_group_wait_body_def stl_add_body_def spin_add_body_def

definition event_bench_stl where
  "event_bench_stl K fresh thread_num alloc resume workers w =
     run_benchmark K fresh thread_num alloc resume workers (\<lambda>w. w) (replicate (unat thread_num - 1) future_wait_body @ [future_set_body]) w"

definition latch_bench_stl where
  "latch_bench_stl K fresh thread_num alloc resume workers w =
     (let countdown_num = unat thread_num div 2; wait_num = unat thread_num - countdown_num in
      run_benchmark K fresh thread_num alloc resume workers (\<lambda>w. w)
        (replicate countdown_num stl_countdown_body @ replicate wait_num stl_latch_wait_body) w)"

definition waitgroup_bench_stl where
  "waitgroup_bench_stl K fresh thread_num alloc resume workers w =
     (let done_num = unat thread_num div 2; wait_num = unat thread_num - done_num in
      run_benchmark K fresh thread_num alloc resume workers (\<lambda>w. w)
        (replicate done_num stl_done_body @ replicate wait_num stl_group_wait_body) w)"

definition mutex_bench_stl where
  "mutex_bench_stl K fresh thread_num alloc resume workers w =
     run_benchmark K fresh thread_num alloc resume workers (\<lambda>w. w) (replicate (unat thread_num) stl_add_body) w"

definition mutex_bench_spin where
  "mutex_bench_spin K fresh thread_num alloc resume workers w =
     run_benchmark K fresh thread_num alloc resume workers (\<lambda>w. w) (replicate (unat thread_num) spin_add_body) w"

section \<open>One coroutine per context\<close>

text \<open>Memory is finite, so that there is always a free frame address.\<close>

definition bench_alloc_doc :: "(('k, 'z) sworld_scheme \<Rightarrow> bench_places) \<Rightarrow> bool" where
  "bench_alloc_doc alloc \<longleftrightarrow>
     (\<forall>w. finite (dom (w_frames w)) \<longrightarrow> bp_frame (alloc w) \<noteq> nullptr \<and> w_frames w (bp_frame (alloc w)) = None)"

lemma start_coroutine_ok:
  assumes "bench_alloc_doc alloc" and "finite (dom (w_frames w))" and "taking K cnt w" and "0 < context_room cnt (turn_of w) w"
  shows "\<exists>h w'. start_coroutine K resume alloc l (bs, w) = Inr (bs(h \<mapsto> l), w') \<and> w_frames w h = None \<and>
    w_frames w' = (w_frames w)(h \<mapsto> set_state cs_detach new_frame) \<and> taking K cnt w' \<and>
    (\<forall>c. queued c w' = queued c w @ (if c = turn_of w then [h] else [])) \<and> (\<forall>c. context_room cnt c w - 1 \<le> context_room cnt c w') \<and>
    m_cur (m_dispatcher (sched w')) = m_cur (m_dispatcher (sched w)) + 1 \<and> m_ctx_cnt (sched w') = m_ctx_cnt (sched w)"
proof -
  let ?pl = "alloc w"
  let ?h = "bp_frame ?pl"
  have h: "?h \<noteq> nullptr" "w_frames w ?h = None" using assms(1,2) by (simp_all add: bench_alloc_doc_def)
  let ?w = "w\<lparr>w_frames := (w_frames w)(?h \<mapsto> set_state cs_detach new_frame), w_tasks := (w_tasks w)(bp_task ?pl := nullptr)\<rparr>"
  have room: "context_room cnt e ?w = context_room cnt e w" for e by (simp add: context_room_def efd_count_def)
  have t: "taking K cnt ?w" "turn_of w = turn_of ?w" using assms(3) by (simp_all add: taking_def contexts_ok_def efd_open_def turn_of_def)
  from submit_task_impl_ok [OF t(1) h(1) t(2), of resume] assms(4) obtain w' where
    w': "submit_task_impl K resume ?h ?w = Inr w'" "taking K cnt w'" "queued (turn_of w) w' = queued (turn_of w) ?w @ [?h]"
      "context_room cnt (turn_of w) w' = context_room cnt (turn_of w) ?w - 1"
      "\<forall>e. e \<noteq> turn_of w \<longrightarrow> queued e w' = queued e ?w \<and> context_room cnt e w' = context_room cnt e ?w"
      "m_cur (m_dispatcher (sched w')) = m_cur (m_dispatcher (sched ?w)) + 1" "m_ctx_cnt (sched w') = m_ctx_cnt (sched ?w)" "w_frames w' = w_frames ?w"
    unfolding room by blast
  have "start_coroutine K resume alloc l (bs, w) = Inr (bs(?h \<mapsto> l), w')"
    using h(1) w'(1) by (simp add: start_coroutine_def submit_to_scheduler_rvalue_def scheduler_submit_rvalue_def Let_def)
  moreover have "queued c w' = queued c w @ (if c = turn_of w then [?h] else [])" "context_room cnt c w - 1 \<le> context_room cnt c w'" for c
    using w'(3,4,5) room by (cases "c = turn_of w"; simp)+
  ultimately show ?thesis using h(2) w'(2,6,7,8) by (intro exI [of _ ?h] exI [of _ w']) simp
qed

text \<open>The coroutines of a driver are dealt out to the contexts in turn.\<close>

lemma start_coroutines_ok:
  assumes "bench_alloc_doc alloc" and "finite (dom (w_frames w))" and "taking K cnt w" and "n = unat (m_ctx_cnt (sched w))"
    and "k = unat (m_cur (m_dispatcher (sched w)))" and "k + length ls < 2 ^ 64" and "\<forall>c < n. length ls \<le> context_room cnt c w"
  shows "\<exists>hs bs' w'. forE ls (start_coroutine K resume alloc) (bs, w) = Inr (bs', w') \<and> length hs = length ls \<and>
    (\<forall>c. queued c w' = queued c w @ dealt n k hs c) \<and> map bs' hs = map Some ls \<and> (\<forall>h. w_frames w h \<noteq> None \<longrightarrow> bs' h = bs h)"
  using assms
proof (induction ls arbitrary: bs w k)
  case Nil
  then show ?case by (intro exI [of _ "[]"]) simp
next
  case (Cons l ls)
  have n: "0 < n" using Cons.prems(3,4) by (cases "m_ctx_stop_flag (sched w)") (auto simp: taking_def sched_inv_def)
  have turn: "turn_of w = k mod n" by (simp add: turn_of_def Cons.prems(4,5))
  have "Suc (length ls) \<le> context_room cnt (k mod n) w" using Cons.prems(7) n by simp
  then have "0 < context_room cnt (turn_of w) w" using turn by simp
  from start_coroutine_ok [OF Cons.prems(1-3) this, of resume l bs] obtain h w1 where
    w1: "start_coroutine K resume alloc l (bs, w) = Inr (bs(h \<mapsto> l), w1)" "w_frames w h = None"
      "w_frames w1 = (w_frames w)(h \<mapsto> set_state cs_detach new_frame)" "taking K cnt w1"
      "\<forall>c. queued c w1 = queued c w @ (if c = turn_of w then [h] else [])" "\<forall>c. context_room cnt c w - 1 \<le> context_room cnt c w1"
      "m_cur (m_dispatcher (sched w1)) = m_cur (m_dispatcher (sched w)) + 1" "m_ctx_cnt (sched w1) = m_ctx_cnt (sched w)" by blast
  have "Suc k = unat (m_cur (m_dispatcher (sched w1)))"
    using Cons.prems(5,6) by (simp add: w1(7) unat_word_ariths)
  moreover have "length ls \<le> context_room cnt c w1" if "c < n" for c
  proof -
    have "Suc (length ls) \<le> context_room cnt c w" "context_room cnt c w - 1 \<le> context_room cnt c w1" using Cons.prems(7) w1(6) that by simp_all
    then show ?thesis by linarith
  qed
  moreover have "finite (dom (w_frames w1))" "n = unat (m_ctx_cnt (sched w1))" "Suc k + length ls < 2 ^ 64"
    using Cons.prems(2,4,6) w1(3,8) by simp_all
  ultimately have "\<exists>hs bs' w'. forE ls (start_coroutine K resume alloc) (bs(h \<mapsto> l), w1) = Inr (bs', w') \<and> length hs = length ls \<and>
    (\<forall>c. queued c w' = queued c w1 @ dealt n (Suc k) hs c) \<and> map bs' hs = map Some ls \<and>
    (\<forall>x. w_frames w1 x \<noteq> None \<longrightarrow> bs' x = (bs(h \<mapsto> l)) x)"
    by (intro Cons.IH [OF Cons.prems(1) _ w1(4)]) simp_all
  then obtain hs bs' w' where
    w': "forE ls (start_coroutine K resume alloc) (bs(h \<mapsto> l), w1) = Inr (bs', w')" "length hs = length ls"
      "\<forall>c. queued c w' = queued c w1 @ dealt n (Suc k) hs c" "map bs' hs = map Some ls" "\<forall>x. w_frames w1 x \<noteq> None \<longrightarrow> bs' x = (bs(h \<mapsto> l)) x" by blast
  have "bs' h = Some l" using w'(5) w1(3) by simp
  moreover have "bs' x = bs x" if "w_frames w x \<noteq> None" for x using that w'(5) w1(2,3) by (metis fun_upd_other)
  ultimately show ?case using w1(1,5) w'(1-4) turn by (intro exI [of _ "h # hs"] exI [of _ bs'] exI [of _ w']) auto
qed

text \<open>The bodies the drivers submit.\<close>

definition bench_bodies :: "nat \<Rightarrow> bench_body list set" where
  "bench_bodies n =
     {replicate (n - 1) Event_wait @ [Event_set], replicate (n - 1) future_wait_body @ [future_set_body],
      replicate (n div 2) Latch_countdown @ replicate (n - n div 2) Latch_wait,
      replicate (n div 2) stl_countdown_body @ replicate (n - n div 2) stl_latch_wait_body,
      replicate (n div 2) Group_done @ replicate (n - n div 2) Group_wait,
      replicate (n div 2) stl_done_body @ replicate (n - n div 2) stl_group_wait_body,
      replicate n Mutex_add, replicate n stl_add_body, replicate n spin_add_body,
      map (\<lambda>i. Cv_notify_all (int i)) (rev [0..<n])}"

lemma bench_bodies_length: "ls \<in> bench_bodies n \<Longrightarrow> 0 < n \<Longrightarrow> length ls = n"
  by (auto simp: bench_bodies_def)

text \<open>The blocking coroutines of a context are the tasks the thread pool would run there.\<close>

lemma blocking_tasks:
  "replicate (n - 1) future_wait_body @ [future_set_body] = map Blocking (stl_future_tasks n)"
  "replicate (n div 2) stl_countdown_body @ replicate (n - n div 2) stl_latch_wait_body = map Blocking (stl_latch_tasks n)"
  "replicate (n div 2) stl_done_body @ replicate (n - n div 2) stl_group_wait_body = map Blocking (stl_waitgroup_tasks n)"
  "replicate n stl_add_body = map Blocking (stl_mutex_tasks n)"
  by (simp_all add: blocking_bodies stl_future_tasks_def stl_latch_tasks_def stl_waitgroup_tasks_def stl_mutex_tasks_def Let_def)

text \<open>the coroutine benchmarks enter the scheduler's loop with exactly one coroutine in the queue of every context, the one for context
  \<open>c\<close> being the \<open>c\<close>-th submitted. So also the benchmarks whose coroutines block their worker on a primitive of the standard library
  give every coroutine a thread of its own.\<close>

theorem benchmark_one_per_context:
  fixes w :: "('k, 'z) sworld_scheme"
  assumes doc: "eventfd_new_doc K cnt" "eventfd_doc K cnt" and n: "n = unat thread_num" "0 < n" "n \<le> 16384"
    and others: "\<forall>c \<ge> n. efd_open c w \<and> queue_inv c w"
    and alloc: "bench_alloc_doc alloc" "finite (dom (w_frames w))"
    and same: "\<And>v. engines (construct v) = engines v \<and> sched (construct v) = sched v \<and> w_frames (construct v) = w_frames v"
    and ls: "ls \<in> bench_bodies n"
  shows "\<exists>w' bs. run_benchmark K fresh thread_num alloc resume workers construct ls w = scheduler_loop (workers bs) w' \<and>
    (\<forall>c < n. \<exists>h. queued c w' = [h] \<and> bs h = Some (ls ! c))"
proof -
  have len: "length ls = n" using bench_bodies_length [OF ls n(2)] .
  have "thread_num \<noteq> 0" "unat thread_num < 2 ^ 31" using n by (auto simp: unat_gt_0)
  from scheduler_init_ok [OF doc, of thread_num 0 thread_num fresh w] this others n(1) obtain w1 where
    w1: "scheduler_init K fresh thread_num 0 w = Inr w1" "\<forall>c < n. fresh_context cnt c w1" "turn_of w1 = 0" "taking K cnt w1"
      "m_ctx_cnt (sched w1) = thread_num" "m_cur (m_dispatcher (sched w1)) = 0" "w_frames w1 = w_frames w" by auto
  let ?w = "construct w1"
  have e: "engines ?w = engines w1" "sched ?w = sched w1" "w_frames ?w = w_frames w1" using same by auto
  have room: "context_room cnt c ?w = 16384" if "c < n" for c
    using w1(2) that e(1) by (simp add: fresh_context_def context_room_def efd_count_def eventfd_max_def del: length_aq_items)
  have "taking K cnt ?w" using w1(4) e by (simp add: taking_def contexts_ok_def efd_open_def)
  from start_coroutines_ok [OF alloc(1) _ this, of n 0 ls resume Map.empty] alloc(2) e w1(5,6,7) n len room obtain hs bs w' where
    w': "forE ls (start_coroutine K resume alloc) (Map.empty, ?w) = Inr (bs, w')" "length hs = n"
      "\<forall>c. queued c w' = queued c ?w @ dealt n 0 hs c" "map bs hs = map Some ls" by auto
  have "queued c w' = [hs ! c] \<and> bs (hs ! c) = Some (ls ! c)" if "c < n" for c
  proof -
    have "queued c ?w = []" using w1(2) that e(1) by (simp add: fresh_context_def)
    moreover have "bs (hs ! c) = Some (ls ! c)" using arg_cong [OF w'(4), of "\<lambda>xs. xs ! c"] that w'(2) len by simp
    ultimately show ?thesis using w'(3) that w'(2) by (simp add: dealt_once)
  qed
  then show ?thesis using w1(1) w'(1) by (intro exI [of _ w'] exI [of _ bs]) (auto simp: run_benchmark_def)
qed

definition sample_bench_alloc :: "('k, 'z) sworld_scheme \<Rightarrow> bench_places" where
  "sample_bench_alloc w = (let h = Suc (Max (insert 0 (dom (w_frames w)))) in \<lparr>bp_frame = h, bp_task = h\<rparr>)"

lemma beyond_dom: "f (Suc (Max (insert 0 (dom f)))) = None" if "finite (dom f)"
proof (rule ccontr)
  assume "f (Suc (Max (insert 0 (dom f)))) \<noteq> None"
  then have "Suc (Max (insert 0 (dom f))) \<le> Max (insert 0 (dom f))" using that by (intro Max_ge) auto
  then show False by simp
qed

lemma sample_bench_alloc_doc: "bench_alloc_doc sample_bench_alloc"
  by (simp add: bench_alloc_doc_def sample_bench_alloc_def Let_def beyond_dom)

theorem benchmark_one_per_context_witness:
  "\<exists>w' bs. run_benchmark sample_kernel (\<lambda>i. (0, replicate 8 0)) 2 sample_bench_alloc finishing (\<lambda>_ w. w) (\<lambda>w. w) [Event_wait, Event_set] sample_sworld =
      scheduler_loop (\<lambda>w. w) w' \<and> (\<exists>h. queued 1 w' = [h] \<and> bs h = Some Event_set)"
proof -
  have new: "eventfd_new_doc sample_kernel (\<lambda>fd k. k)" by (simp add: eventfd_new_doc_def sample_kernel_def)
  have others: "efd_open c sample_sworld \<and> queue_inv c sample_sworld" for c
    using sample_efd(1) sample_queue(1) [of c] by (simp add: efd_open_def sample_world_def)
  have fin: "finite (dom (w_frames sample_sworld))" by (simp add: sample_sworld_def cworld.defs eworld.defs sworld.defs sample_world_def)
  have ls: "[Event_wait, Event_set] \<in> bench_bodies 2" by (simp add: bench_bodies_def)
  from benchmark_one_per_context [OF new sample_eventfd_doc _ _ _ _ sample_bench_alloc_doc fin _ ls, of "2 :: 64 word" "\<lambda>w. w" "\<lambda>i. (0, replicate 8 0)" finishing "\<lambda>_ w. w"] others
  obtain w' bs where "run_benchmark sample_kernel (\<lambda>i. (0, replicate 8 0)) 2 sample_bench_alloc finishing (\<lambda>_ w. w) (\<lambda>w. w) [Event_wait, Event_set] sample_sworld =
      scheduler_loop (\<lambda>w. w) w'" "\<forall>c < 2. \<exists>h. queued c w' = [h] \<and> bs h = Some ([Event_wait, Event_set] ! c)" by auto
  then show ?thesis by (intro exI [of _ w'] exI [of _ bs]) (auto dest: spec [of _ 1])
qed

section \<open>The condition variable benchmark does not wait\<close>

lemma cv_guarded_ok:
  assumes "mtx_state w m = locked_no_waiting" "mtx_resume_list w m = nullptr" "a \<noteq> nullptr" "awaiters w a = Some x" "a_obj x = m"
    "linfo_ctx w = Some i"
  shows "\<exists>w'. cv_guarded K resume eval c m cond a b w = Some (Inr w') \<and> Mutex.mutex_free m w' \<and> cvs w' = cvs w \<and> linfo_ctx w' = Some i \<and>
    awaiters w' = (awaiters w)(a := None, b := None) \<and> engines w' = engines w"
  using assms
  by (simp add: cv_guarded_def guard_await_resume_def mutex_await_resume_def virtual_unlock_def unlock_next_def
      nolocked_def locked_no_waiting_def cv_wait_rvalue_def cv_wait_on_def local_context_def mutex_free_def put_awaiter_def fun_eq_iff)

definition cv_idle :: "addr \<Rightarrow> ('k, 'z) cvworld_scheme \<Rightarrow> bool" where
  "cv_idle c w \<longleftrightarrow> cvs w c = \<lparr>cv_lock = False, m_head = nullptr, m_tail = nullptr\<rparr>"

text \<open>Notifying nobody changes nothing.\<close>

lemma notify_idle:
  assumes "cv_idle c w"
  shows "notify_all K resume eval c w = Some (Inr w)" "notify_one K resume eval c w = Some (Inr w)"
proof -
  have "(cvs w)(c := \<lparr>cv_lock = False, m_head = nullptr, m_tail = nullptr\<rparr>) = cvs w" using assms by (auto simp: cv_idle_def)
  then show "notify_all K resume eval c w = Some (Inr w)" "notify_one K resume eval c w = Some (Inr w)"
    using assms
    by (simp_all add: cv_idle_def notify_all_def notify_one_def cv_acquire_def spin_lock_def spin_unlock_def cv_release_def put_cv_def
        wake_up_linked.simps [of K resume eval nullptr])
qed

lemma cv_lock_ok:
  assumes "Mutex.mutex_free m w" "linfo_ctx w = Some i" "a \<noteq> nullptr"
  shows "\<exists>w1 w2 x. mutex_lock_guard m a w = Inr w1 \<and> mutex_await_suspend a h w1 = Inr (False, w2) \<and> mtx_state w2 m = locked_no_waiting \<and>
    mtx_resume_list w2 m = nullptr \<and> awaiters w2 a = Some x \<and> a_obj x = m \<and> linfo_ctx w2 = Some i \<and> cvs w2 = cvs w \<and> engines w2 = engines w"
  using assms
  by (simp add: mutex_free_def mutex_lock_guard_def mutex_lock_def local_context_def mutex_await_suspend_def register_lock_def Let_def
      put_awaiter_def new_awaiter_def get_awaiter_def nolocked_def locked_no_waiting_def)

lemma cv_notify_one_loop_ok:
  assumes "Mutex.mutex_free m w" "linfo_ctx w = Some i" "a \<noteq> nullptr" "cv_idle c w" "0 \<le> gid" "gid < 2"
  shows "\<exists>w'. cv_notify_one_loop K resume eval c m cond a b h n gid w = Some (Inr (B_end, 0, (gid + int n) mod 2, w')) \<and>
    Mutex.mutex_free m w' \<and> cv_idle c w' \<and> engines w' = engines w"
  using assms
proof (induction n arbitrary: gid w)
  case (Suc n)
  from cv_lock_ok [OF Suc.prems(1-3), of h] obtain w1 w2 x where
    w2: "mutex_lock_guard m a w = Inr w1" "mutex_await_suspend a h w1 = Inr (False, w2)" "mtx_state w2 m = locked_no_waiting"
      "mtx_resume_list w2 m = nullptr" "awaiters w2 a = Some x" "a_obj x = m" "linfo_ctx w2 = Some i" "cvs w2 = cvs w" "engines w2 = engines w" by blast
  from cv_guarded_ok [OF w2(3,4) Suc.prems(3) w2(5-7), of K resume eval c cond b] obtain w3 where
    w3: "cv_guarded K resume eval c m cond a b w2 = Some (Inr w3)" "Mutex.mutex_free m w3" "cvs w3 = cvs w2" "linfo_ctx w3 = Some i"
      "engines w3 = engines w2" by blast
  have idle: "cv_idle c w3" using Suc.prems(4) w2(8) w3(3) by (simp add: cv_idle_def)
  have "((gid + 1) mod 2 + int n) mod 2 = (gid + int (Suc n)) mod 2" by presburger
  moreover have "0 \<le> (gid + 1) mod 2" "(gid + 1) mod 2 < 2" by simp_all
  ultimately show ?case using Suc.IH [OF w3(2,4) Suc.prems(3) idle, of "(gid + 1) mod 2"] w2(1,2,9) w3(1,5) notify_idle(2) [OF idle]
    by (simp add: cv_notify_one_round_def)
qed simp

text \<open>the coroutines of the condition variable benchmarks do not wait for their turn. With the mutex free and nobody on the
  condition variable, \<^verbatim>\<open>notify_all\<close> runs to its end without being suspended, whatever its predicate says, and \<^verbatim>\<open>notify_one\<close> runs all of
  its rounds in one go, passing \<^verbatim>\<open>gid\<close> on at each of them; both leave the mutex free and the condition variable empty and wake nobody.\<close>

theorem cv_bench_never_waits:
  assumes "Mutex.mutex_free m w" "linfo_ctx w = Some i" "a \<noteq> nullptr" "cv_idle c w" "0 \<le> gid" "gid < 2"
  shows "(\<exists>w'. cv_notify_all_body K resume eval c m cond a b h B_begin w = Some (Inr (B_end, w')) \<and>
      Mutex.mutex_free m w' \<and> cv_idle c w' \<and> engines w' = engines w) \<and>
    (\<exists>w'. cv_notify_one_body K resume eval c m cond a b h B_begin n gid w = Some (Inr (B_end, 0, (gid + int n) mod 2, w')) \<and>
      Mutex.mutex_free m w' \<and> cv_idle c w' \<and> engines w' = engines w)"
proof
  from cv_lock_ok [OF assms(1-3), of h] obtain w1 w2 x where
    w2: "mutex_lock_guard m a w = Inr w1" "mutex_await_suspend a h w1 = Inr (False, w2)" "mtx_state w2 m = locked_no_waiting"
      "mtx_resume_list w2 m = nullptr" "awaiters w2 a = Some x" "a_obj x = m" "linfo_ctx w2 = Some i" "cvs w2 = cvs w" "engines w2 = engines w" by blast
  from cv_guarded_ok [OF w2(3,4) assms(3) w2(5-7), of K resume eval c cond b] obtain w3 where
    w3: "cv_guarded K resume eval c m cond a b w2 = Some (Inr w3)" "Mutex.mutex_free m w3" "cvs w3 = cvs w2" "engines w3 = engines w2" by blast
  have idle: "cv_idle c w3" using assms(4) w2(8) w3(3) by (simp add: cv_idle_def)
  then show "\<exists>w'. cv_notify_all_body K resume eval c m cond a b h B_begin w = Some (Inr (B_end, w')) \<and>
      Mutex.mutex_free m w' \<and> cv_idle c w' \<and> engines w' = engines w"
    using w2(1,2,9) w3(1,2,4) notify_idle(1) [OF idle] by (simp add: cv_notify_all_body_def cv_notify_all_rest_def)
qed (use cv_notify_one_loop_ok [OF assms] in \<open>simp add: cv_notify_one_body_def\<close>)

theorem cv_bench_never_waits_witness:
  "\<exists>w'. cv_notify_one_body sample_kernel finishing (\<lambda>_ _. False) 7 5 (Some 0) 11 12 71 B_begin notifyone_run_cnt 1
      ((sample_cvworld (\<lambda>_. nolocked) (\<lambda>_. nullptr) (sample_cvs 0 0))\<lparr>linfo_ctx := Some 0\<rparr>) = Some (Inr (B_end, 0, 1, w')) \<and> cv_idle 7 w'"
proof -
  let ?w = "(sample_cvworld (\<lambda>_. nolocked) (\<lambda>_. nullptr) (sample_cvs 0 0))\<lparr>linfo_ctx := Some 0\<rparr>"
  have "Mutex.mutex_free 5 ?w" "linfo_ctx ?w = Some 0" "cv_idle 7 ?w" by (simp_all add: mutex_free_def cv_idle_def sample_cvs_def)
  from cv_bench_never_waits [OF this(1,2) _ this(3), of 11 1 sample_kernel finishing "\<lambda>_ _. False" "Some 0" 12 71 notifyone_run_cnt]
  show ?thesis by (auto simp: notifyone_run_cnt_def)
qed

end
