(* ===== verification/Channel_Bench.thy ===== *)
theory Channel_Bench
  imports Channel
begin

text \<open>
  The benchmark of the library's channel in \<^verbatim>\<open>benchtests/channel_bench.cpp\<close>: one coroutine sends \<^verbatim>\<open>total_num\<close> values and closes the channel,
  another receives until there is nothing more. Their steps are those of the channel's machine, taken when the
  programs of the two coroutines allow them.
\<close>

section \<open>Producer and consumer\<close>

text \<open>\<open>bc_todo\<close>: the values whose \<^verbatim>\<open>send\<close> has not returned; the first is the one a \<^verbatim>\<open>send\<close> under way is sending.\<close>

record 'a bench_channel =
  bc_chan :: "'a chan_machine"
  bc_todo :: "'a list"
  bc_prod_done :: bool
  bc_cons_done :: bool

definition bench_start :: "64 word \<Rightarrow> 'a list \<Rightarrow> 'a bench_channel \<Rightarrow> bool" where
  "bench_start cap xs s \<longleftrightarrow> chan_start cap (bc_chan s) \<and> bc_todo s = xs \<and> \<not> bc_prod_done s \<and> \<not> bc_cons_done s"

definition sending :: "'a holder \<Rightarrow> 'a option" where
  "sending h = (case h of S_waiting v \<Rightarrow> Some v | S_ready v \<Rightarrow> Some v | S_storing v \<Rightarrow> Some v | _ \<Rightarrow> None)"

text \<open>The producer does not look at the result of \<^verbatim>\<open>send\<close>; \<open>p_refused\<close> is a \<^verbatim>\<open>send\<close> that finds the channel closed before it locks.
  A coroutine that sleeps locks again like one that begins.\<close>

inductive producer_step :: "'a bench_channel \<Rightarrow> 'a bench_channel \<Rightarrow> bool" where
  p_refused: "bc_todo s = v # vs \<Longrightarrow> sending (cm_holder (bc_chan s)) = None \<Longrightarrow> part_closed_atomic (cm_ch (bc_chan s)) \<Longrightarrow>
    producer_step s (s\<lparr>bc_todo := vs\<rparr>)"
| p_lock: "bc_todo s = v # vs \<Longrightarrow> cm_holder (bc_chan s) = Nobody \<Longrightarrow>
    producer_step s (s\<lparr>bc_chan := (bc_chan s)\<lparr>cm_holder := S_waiting v\<rparr>\<rparr>)"
| p_sleep: "cm_holder (bc_chan s) = S_waiting v \<Longrightarrow> \<not> chan_eval 0 (cm_ch (bc_chan s)) \<Longrightarrow>
    producer_step s (s\<lparr>bc_chan := (bc_chan s)\<lparr>cm_holder := Nobody\<rparr>\<rparr>)"
| p_pass: "cm_holder (bc_chan s) = S_waiting v \<Longrightarrow> chan_eval 0 (cm_ch (bc_chan s)) \<Longrightarrow>
    producer_step s (s\<lparr>bc_chan := (bc_chan s)\<lparr>cm_holder := S_ready v\<rparr>\<rparr>)"
| p_closed: "cm_holder (bc_chan s) = S_ready v \<Longrightarrow> part_closed (cm_ch (bc_chan s)) \<Longrightarrow>
    producer_step s (s\<lparr>bc_chan := (bc_chan s)\<lparr>cm_holder := Nobody\<rparr>, bc_todo := tl (bc_todo s)\<rparr>)"
| p_open: "cm_holder (bc_chan s) = S_ready v \<Longrightarrow> \<not> part_closed (cm_ch (bc_chan s)) \<Longrightarrow>
    producer_step s (s\<lparr>bc_chan := (bc_chan s)\<lparr>cm_holder := S_storing v\<rparr>\<rparr>)"
| p_store: "cm_holder (bc_chan s) = S_storing v \<Longrightarrow> chan_store v (ch_buf (cm_ch (bc_chan s))) = Inr buf \<Longrightarrow>
    producer_step s (s\<lparr>bc_chan := (bc_chan s)\<lparr>cm_holder := Nobody, cm_ch := (cm_ch (bc_chan s))\<lparr>ch_buf := buf\<rparr>,
      cm_sent := cm_sent (bc_chan s) @ [v]\<rparr>, bc_todo := tl (bc_todo s)\<rparr>)"
| p_close: "bc_todo s = [] \<Longrightarrow> \<not> bc_prod_done s \<Longrightarrow>
    producer_step s (s\<lparr>bc_chan := (bc_chan s)\<lparr>cm_ch := (cm_ch (bc_chan s))\<lparr>m_close_state := part_close\<rparr>\<rparr>, bc_prod_done := True\<rparr>)"

inductive consumer_step :: "'a bench_channel \<Rightarrow> 'a bench_channel \<Rightarrow> bool" where
  c_refused: "\<not> bc_cons_done s \<Longrightarrow> cm_holder (bc_chan s) \<notin> {R_waiting, R_ready} \<Longrightarrow> complete_closed_atomic (cm_ch (bc_chan s)) \<Longrightarrow>
    consumer_step s (s\<lparr>bc_cons_done := True\<rparr>)"
| c_lock: "\<not> bc_cons_done s \<Longrightarrow> cm_holder (bc_chan s) = Nobody \<Longrightarrow>
    consumer_step s (s\<lparr>bc_chan := (bc_chan s)\<lparr>cm_holder := R_waiting\<rparr>\<rparr>)"
| c_sleep: "cm_holder (bc_chan s) = R_waiting \<Longrightarrow> \<not> chan_eval 1 (cm_ch (bc_chan s)) \<Longrightarrow>
    consumer_step s (s\<lparr>bc_chan := (bc_chan s)\<lparr>cm_holder := Nobody\<rparr>\<rparr>)"
| c_pass: "cm_holder (bc_chan s) = R_waiting \<Longrightarrow> chan_eval 1 (cm_ch (bc_chan s)) \<Longrightarrow>
    consumer_step s (s\<lparr>bc_chan := (bc_chan s)\<lparr>cm_holder := R_ready\<rparr>\<rparr>)"
| c_end: "cm_holder (bc_chan s) = R_ready \<Longrightarrow> chan_empty (ch_buf (cm_ch (bc_chan s))) \<Longrightarrow> part_closed (cm_ch (bc_chan s)) \<Longrightarrow>
    consumer_step s (s\<lparr>bc_chan := (bc_chan s)\<lparr>cm_holder := Nobody, cm_ch := (cm_ch (bc_chan s))\<lparr>m_close_state := complete_close\<rparr>,
      cm_ended := True\<rparr>, bc_cons_done := True\<rparr>)"
| c_take: "cm_holder (bc_chan s) = R_ready \<Longrightarrow> \<not> (chan_empty (ch_buf (cm_ch (bc_chan s))) \<and> part_closed (cm_ch (bc_chan s))) \<Longrightarrow>
    chan_take (ch_buf (cm_ch (bc_chan s))) = Inr (p, buf) \<Longrightarrow>
    consumer_step s (s\<lparr>bc_chan := (bc_chan s)\<lparr>cm_holder := Nobody, cm_ch := (cm_ch (bc_chan s))\<lparr>ch_buf := buf\<rparr>,
      cm_received := cm_received (bc_chan s) @ [p]\<rparr>, bc_cons_done := (p = None)\<rparr>)"

definition bench_step :: "'a bench_channel \<Rightarrow> 'a bench_channel \<Rightarrow> bool" where
  "bench_step s t \<longleftrightarrow> producer_step s t \<or> consumer_step s t"

section \<open>A simulation by the channel's machine\<close>

lemma bench_simulates: "bench_step s t \<Longrightarrow> bc_chan t = bc_chan s \<or> chan_step (bc_chan s) (bc_chan t)"
  unfolding bench_step_def
  by (elim disjE; erule producer_step.cases consumer_step.cases) (auto intro: chan_step.intros)

definition bench_inv :: "64 word \<Rightarrow> 'a list \<Rightarrow> 'a bench_channel \<Rightarrow> bool" where
  "bench_inv cap xs s \<longleftrightarrow>
     chan_ok cap (bc_chan s) \<and> cm_sent (bc_chan s) @ bc_todo s = xs \<and>
     (\<forall>v. sending (cm_holder (bc_chan s)) = Some v \<longrightarrow> bc_todo s \<noteq> [] \<and> hd (bc_todo s) = v) \<and>
     part_closed (cm_ch (bc_chan s)) = bc_prod_done s \<and> (bc_prod_done s \<longrightarrow> bc_todo s = []) \<and>
     (complete_closed_atomic (cm_ch (bc_chan s)) \<longrightarrow> cm_ended (bc_chan s)) \<and> (bc_cons_done s \<longrightarrow> cm_ended (bc_chan s)) \<and>
     (bc_cons_done s \<longrightarrow> cm_holder (bc_chan s) \<notin> {R_waiting, R_ready})"


lemma bench_chan_ok: "chan_ok cap (bc_chan s) \<Longrightarrow> bench_step s t \<Longrightarrow> chan_ok cap (bc_chan t)"
  using bench_simulates [of s t] chan_ok_step by auto

lemmas bench_simps = bench_inv_def sending_def part_closed_atomic_def complete_closed_atomic_def part_closed_def part_close_def complete_close_def

lemma producer_keeps:
  assumes "producer_step s t" and "bench_inv cap xs s"
  shows "bench_inv cap xs t"
proof -
  have ok: "chan_ok cap (bc_chan t)" using assms bench_chan_ok [of cap s t] by (simp add: bench_step_def bench_inv_def)
  from assms(1) ok assms(2) show ?thesis
  proof (induction rule: producer_step.induct)
    case (p_store s v buf)
    have "bc_todo s = v # tl (bc_todo s)" using p_store(1,3,4) by (cases "bc_todo s") (auto simp: bench_inv_def sending_def)
    then show ?case using p_store by (auto simp: bench_inv_def sending_def chan_ok_def complete_closed_atomic_def)
  qed (auto simp: bench_simps)
qed

lemma consumer_keeps:
  assumes "consumer_step s t" and "bench_inv cap xs s"
  shows "bench_inv cap xs t"
proof -
  have ok: "chan_ok cap (bc_chan t)" using assms bench_chan_ok [of cap s t] by (simp add: bench_step_def bench_inv_def)
  from assms(1) ok assms(2) show ?thesis
  proof (induction rule: consumer_step.induct)
    case (c_take s p buf)
    have inv: "chan_inv (ch_buf (cm_ch (bc_chan s)))" "\<not> chan_empty (ch_buf (cm_ch (bc_chan s)))"
      using c_take(1,2,4,5) by (auto simp: bench_inv_def chan_ok_def holder_ok_def)
    then obtain v where "p = Some v" using c_take(3) chan_take_ok [OF inv] by auto
    then show ?case using c_take by (auto simp: bench_simps)
  qed (auto simp: bench_simps)
qed

interpretation bch: step_system "bench_start cap xs" bench_step "bench_inv cap xs"
proof unfold_locales
  show "bench_inv cap xs s" if "bench_start cap xs s" for s
    using that chan_ok_start [of cap "bc_chan s"] by (auto simp: bench_start_def chan_start_def bench_simps new_channel_def no_close_def word_le_nat_alt)
  show "bench_inv cap xs t" if "bench_inv cap xs s" "bench_step s t" for s t
    using that producer_keeps consumer_keeps unfolding bench_step_def by blast
qed

text \<open>As long as one of the two has not returned, one of them can go on.\<close>

lemma bench_goes_on:
  assumes "bench_inv cap xs s"
  shows "bc_prod_done s \<and> bc_cons_done s \<or> (\<exists>t. bench_step s t)"
proof -
  let ?c = "bc_chan s"
  have inv: "chan_inv (ch_buf (cm_ch ?c))" "holder_ok (cm_holder ?c) (cm_ch ?c)" using assms by (simp_all add: bench_inv_def chan_ok_def)
  show ?thesis
  proof (cases "cm_holder ?c")
    case Nobody
    then show ?thesis by (cases "bc_todo s"; cases "bc_prod_done s"; cases "bc_cons_done s")
        (use assms in \<open>auto simp: bench_step_def bench_inv_def intro: p_close p_lock c_lock\<close>)
  next
    case (S_storing v)
    then have "\<not> chan_full (ch_buf (cm_ch ?c))" using inv(2) by (simp add: holder_ok_def)
    then show ?thesis using chan_store_ok [OF inv(1), of v] S_storing unfolding bench_step_def by (blast intro: p_store)
  next
    case R_ready
    show ?thesis
    proof (cases "chan_empty (ch_buf (cm_ch ?c)) \<and> part_closed (cm_ch ?c)")
      case False
      then have "\<not> chan_empty (ch_buf (cm_ch ?c))" using inv(2) R_ready by (auto simp: holder_ok_def)
      then show ?thesis using chan_take_ok [OF inv(1)] R_ready False unfolding bench_step_def by (blast intro: c_take)
    qed (use R_ready in \<open>blast intro: c_end bench_step_def [THEN iffD2]\<close>)
  next
    case (S_waiting v)
    then show ?thesis unfolding bench_step_def by (cases "chan_eval 0 (cm_ch ?c)") (blast intro: p_sleep p_pass)+
  next
    case (S_ready v)
    then show ?thesis unfolding bench_step_def by (cases "part_closed (cm_ch ?c)") (blast intro: p_closed p_open)+
  next
    case R_waiting
    then show ?thesis unfolding bench_step_def by (cases "chan_eval 1 (cm_ch ?c)") (blast intro: c_sleep c_pass)+
  qed
qed


text \<open>A run on a channel of capacity zero.\<close>

definition bench_at :: "8 word \<Rightarrow> nat option \<Rightarrow> nat holder \<Rightarrow> nat list \<Rightarrow> nat option list \<Rightarrow> bool \<Rightarrow> nat list \<Rightarrow> bool \<Rightarrow> bool \<Rightarrow> nat bench_channel" where
  "bench_at cl d h sent recvd e todo p c = \<lparr>bc_chan = machine_at cl d h sent recvd e, bc_todo = todo, bc_prod_done = p, bc_cons_done = c\<rparr>"

lemma bench_at_simps [simp]:
  "bc_chan (bench_at cl d h sent recvd e todo p c) = machine_at cl d h sent recvd e" "bc_todo (bench_at cl d h sent recvd e todo p c) = todo"
  "bc_prod_done (bench_at cl d h sent recvd e todo p c) = p" "bc_cons_done (bench_at cl d h sent recvd e todo p c) = c"
  "(bench_at cl d h sent recvd e todo p c)\<lparr>bc_chan := machine_at cl' d' h' sent' recvd' e'\<rparr> = bench_at cl' d' h' sent' recvd' e' todo p c"
  by (simp_all add: bench_at_def)

lemma bench_run: "reachable (bench_start 0 [7]) bench_step (bench_at 0 None Nobody [7] [Some 7] True [] True True)"
proof -
  let ?R = "reachable (bench_start 0 [7]) bench_step"
  have prod: "?R s \<Longrightarrow> producer_step s t \<Longrightarrow> ?R t" and cons: "?R s \<Longrightarrow> consumer_step s t \<Longrightarrow> ?R t" for s t
    by (auto intro: reach_step simp: bench_step_def)
  note upd = bench_at_def machine_at_def zero_channel_def zero_store_def zero_take_def part_close_def complete_close_def
  have le: "\<not> (2 :: 8 word) \<le> 1" by (simp add: word_le_nat_alt)
  have "\<exists>m p c arr. length arr = unat (0 :: 64 word) \<and> zero_channel 2 None = new_channel m p c 0 arr"
    by (intro exI [of _ 5] exI [of _ 8] exI [of _ 7] exI [of _ "[]"]) (simp add: zero_channel_def new_channel_def new_buffer_def no_close_def)
  then have "?R (bench_at 2 None Nobody [] [] False [7] False False)"
    by (intro reach_start) (simp add: bench_start_def chan_start_def, simp add: machine_at_def)
  from prod [OF this p_lock [of _ 7]] have "?R (bench_at 2 None (S_waiting 7) [] [] False [7] False False)" by simp
  from prod [OF this p_pass [of _ 7]] have "?R (bench_at 2 None (S_ready 7) [] [] False [7] False False)" by simp
  from prod [OF this p_open [of _ 7]] have "?R (bench_at 2 None (S_storing 7) [] [] False [7] False False)" by (simp add: le)
  from prod [OF this p_store [of _ 7 "Zero (Some 7)"]] have "?R (bench_at 2 (Some 7) Nobody [7] [] False [] False False)" by (simp add: upd)
  from cons [OF this c_lock] have "?R (bench_at 2 (Some 7) R_waiting [7] [] False [] False False)" by simp
  from cons [OF this c_pass] have "?R (bench_at 2 (Some 7) R_ready [7] [] False [] False False)" by simp
  from cons [OF this c_take [of _ "Some 7" "Zero None"]] have "?R (bench_at 2 None Nobody [7] [Some 7] False [] False False)"
    by (simp add: upd zero_empty_def)
  from prod [OF this p_close] have "?R (bench_at 1 None Nobody [7] [Some 7] False [] True False)" by (simp add: upd)
  from cons [OF this c_lock] have "?R (bench_at 1 None R_waiting [7] [Some 7] False [] True False)" by simp
  from cons [OF this c_pass] have "?R (bench_at 1 None R_ready [7] [Some 7] False [] True False)" by simp
  from cons [OF this c_end] show ?thesis by (simp add: upd zero_empty_def part_closed_def)
qed


end
