(* ===== verification/Log.thy ===== *)
theory Log
  imports Config
begin

text \<open>
  Logging: \<^verbatim>\<open>include/coro/log.hpp\<close> and what it uses of \<^verbatim>\<open>third_party/spdlog\<close>: loggers with a level, the registry and its default logger, which
  writes to the console. The six functions test the configured level at compile time, write to the file logger when the
  build logs to a file, and to the console. A sink is the list of the messages it has got; how the pattern lays out a
  line is left out. Formatting (\<^verbatim>\<open>fmt\<close>) and opening the file are arguments.
\<close>

section \<open>Levels\<close>

datatype level_enum = L_trace | L_debug | L_info | L_warn | L_err | L_critical | L_off

primrec level_num :: "level_enum \<Rightarrow> nat" where
  "level_num L_trace = 0"
| "level_num L_debug = 1"
| "level_num L_info = 2"
| "level_num L_warn = 3"
| "level_num L_err = 4"
| "level_num L_critical = 5"
| "level_num L_off = 6"

lemma level_num_inj: "level_num a = level_num b \<longleftrightarrow> a = b"
  by (cases a; cases b) simp_all

instantiation level_enum :: linorder
begin

definition less_eq_level_enum :: "level_enum \<Rightarrow> level_enum \<Rightarrow> bool" where
  "a \<le> b \<longleftrightarrow> level_num a \<le> level_num b"

definition less_level_enum :: "level_enum \<Rightarrow> level_enum \<Rightarrow> bool" where
  "a < b \<longleftrightarrow> level_num a < level_num b"

instance
  by standard (auto simp: less_eq_level_enum_def less_level_enum_def level_num_inj)

end

text \<open>\<^verbatim>\<open>LOG_LEVEL\<close>, \<^verbatim>\<open>kLogFileName\<close> and \<^verbatim>\<open>kFlushDura\<close> of the configuration.\<close>

definition LOG_LEVEL :: level_enum where "LOG_LEVEL = L_info"
definition kLogFileName :: string where "kLogFileName = ''/temp/logs/coro.log''"
definition kFlushDura :: int where "kFlushDura = 3"

section \<open>Loggers of spdlog\<close>

text \<open>\<open>sl_flushed\<close> counts the messages that have been flushed.\<close>

record spd_logger =
  sl_level :: level_enum
  sl_flush_level :: level_enum
  sl_lines :: "(level_enum \<times> string) list"
  sl_flushed :: nat

definition new_spd_logger :: spd_logger where
  "new_spd_logger = \<lparr>sl_level = L_info, sl_flush_level = L_off, sl_lines = [], sl_flushed = 0\<rparr>"

definition spd_flush :: "spd_logger \<Rightarrow> spd_logger" where
  "spd_flush l = l\<lparr>sl_flushed := length (sl_lines l)\<rparr>"

definition should_flush :: "level_enum \<Rightarrow> spd_logger \<Rightarrow> bool" where
  "should_flush lvl l \<longleftrightarrow> lvl \<ge> sl_flush_level l \<and> lvl \<noteq> L_off"

definition sink_it :: "level_enum \<times> string \<Rightarrow> spd_logger \<Rightarrow> spd_logger" where
  "sink_it m l = (let l1 = l\<lparr>sl_lines := sl_lines l @ [m]\<rparr> in if should_flush (fst m) l then spd_flush l1 else l1)"

text \<open>\<open>format\<close> is \<open>None\<close> when it throws; the logger catches this and drops the message.\<close>

definition spd_log :: "(string \<Rightarrow> 'a list \<Rightarrow> string option) \<Rightarrow> level_enum \<Rightarrow> string \<Rightarrow> 'a list \<Rightarrow> spd_logger \<Rightarrow> spd_logger" where
  "spd_log format lvl fmt args l =
     (if \<not> lvl \<ge> sl_level l then l else case format fmt args of None \<Rightarrow> l | Some t \<Rightarrow> sink_it (lvl, t) l)"

record log_world =
  rg_default :: spd_logger
  rg_loggers :: "string \<Rightarrow> spd_logger option"
  rg_global_level :: level_enum
  rg_flush_level :: level_enum
  rg_flush_every :: "int option"
  lg_static :: bool

text \<open>\<^verbatim>\<open>registry::initialize_logger\<close> with \<^verbatim>\<open>register_logger_\<close>, which throws when the name is taken.\<close>

definition initialize_logger :: "string \<Rightarrow> log_world \<Rightarrow> log_world option" where
  "initialize_logger name w =
     (case rg_loggers w name of
        Some _ \<Rightarrow> None
      | None \<Rightarrow> Some (w\<lparr>rg_loggers := (rg_loggers w)(name \<mapsto> new_spd_logger\<lparr>sl_level := rg_global_level w, sl_flush_level := rg_flush_level w\<rparr>)\<rparr>))"

text \<open>\<^verbatim>\<open>spdlog::create<basic_file_sink_mt>\<close> truncates and opens the file and throws if it cannot.\<close>

definition create_file_logger :: "(string \<Rightarrow> bool) \<Rightarrow> string \<Rightarrow> string \<Rightarrow> log_world \<Rightarrow> log_world option" where
  "create_file_logger open_file name path w = (if open_file path then initialize_logger name w else None)"

text \<open>One round of the thread that \<^verbatim>\<open>flush_every\<close> starts: \<^verbatim>\<open>flush_all\<close>.\<close>

definition flush_all :: "log_world \<Rightarrow> log_world" where
  "flush_all w = w\<lparr>rg_default := spd_flush (rg_default w), rg_loggers := map_option spd_flush \<circ> rg_loggers w\<rparr>"

section \<open>log.hpp\<close>

record 'a log_config =
  lc_to_file :: bool
  lc_level :: level_enum
  lc_source_dir :: string
  lc_open :: "string \<Rightarrow> bool"
  lc_format :: "string \<Rightarrow> 'a list \<Rightarrow> string option"

definition corolog :: string where "corolog = ''corolog''"

definition on_file :: "(spd_logger \<Rightarrow> spd_logger) \<Rightarrow> log_world \<Rightarrow> log_world" where
  "on_file f w = w\<lparr>rg_loggers := (rg_loggers w)(corolog := map_option f (rg_loggers w corolog))\<rparr>"

text \<open>The constructor is \<^verbatim>\<open>noexcept\<close>: an exception of spdlog ends the program.\<close>

definition logger_ctor :: "'a log_config \<Rightarrow> log_world \<Rightarrow> log_world result" where
  "logger_ctor C w =
     (if lc_to_file C then
        case create_file_logger (lc_open C) corolog (lc_source_dir C @ kLogFileName) w of
          None \<Rightarrow> Inl Std_terminate
        | Some w1 \<Rightarrow> Inr ((on_file (\<lambda>l. l\<lparr>sl_level := lc_level C\<rparr>) w1)\<lparr>rg_flush_every := Some kFlushDura\<rparr>)
      else Inr w)"

definition get_logger :: "'a log_config \<Rightarrow> log_world \<Rightarrow> log_world result" where
  "get_logger C w = (if lg_static w then Inr w else bindE (logger_ctor C w) (\<lambda>w1. Inr (w1\<lparr>lg_static := True\<rparr>)))"

definition logger_dtor :: "'a log_config \<Rightarrow> log_world \<Rightarrow> log_world" where
  "logger_dtor C w = (if lc_to_file C then on_file (\<lambda>l. l\<lparr>sl_flush_level := lc_level C\<rparr>) w else w)"

text \<open>What the six functions have in common: the test of the level, the file, the console.\<close>

definition log_at :: "level_enum \<Rightarrow> 'a log_config \<Rightarrow> string \<Rightarrow> 'a list \<Rightarrow> log_world \<Rightarrow> log_world result" where
  "log_at lvl C fmt args w =
     (if lc_level C \<le> lvl then
        bindE (if lc_to_file C then bindE (get_logger C w) (\<lambda>w1. Inr (on_file (spd_log (lc_format C) lvl fmt args) w1)) else Inr w) (\<lambda>w2.
        Inr (w2\<lparr>rg_default := spd_log (lc_format C) lvl fmt args (rg_default w2)\<rparr>))
      else Inr w)"

definition log_trace :: "'a log_config \<Rightarrow> string \<Rightarrow> 'a list \<Rightarrow> log_world \<Rightarrow> log_world result" where
  "log_trace = log_at L_trace"
definition log_debug :: "'a log_config \<Rightarrow> string \<Rightarrow> 'a list \<Rightarrow> log_world \<Rightarrow> log_world result" where
  "log_debug = log_at L_debug"
definition log_info :: "'a log_config \<Rightarrow> string \<Rightarrow> 'a list \<Rightarrow> log_world \<Rightarrow> log_world result" where
  "log_info = log_at L_info"
definition log_warn :: "'a log_config \<Rightarrow> string \<Rightarrow> 'a list \<Rightarrow> log_world \<Rightarrow> log_world result" where
  "log_warn = log_at L_warn"
definition log_error :: "'a log_config \<Rightarrow> string \<Rightarrow> 'a list \<Rightarrow> log_world \<Rightarrow> log_world result" where
  "log_error = log_at L_err"
definition log_critical :: "'a log_config \<Rightarrow> string \<Rightarrow> 'a list \<Rightarrow> log_world \<Rightarrow> log_world result" where
  "log_critical = log_at L_critical"

section \<open>The two logs are filters of the history\<close>

text \<open>A call of one of the six functions; nobody logs at the level that switches logging off.\<close>

definition log_call :: "'a log_config \<Rightarrow> level_enum \<times> string \<times> 'a list \<Rightarrow> log_world \<Rightarrow> log_world result" where
  "log_call C c w =
     (case c of (lvl, fmt, args) \<Rightarrow>
        case lvl of
          L_trace \<Rightarrow> log_trace C fmt args w | L_debug \<Rightarrow> log_debug C fmt args w | L_info \<Rightarrow> log_info C fmt args w
        | L_warn \<Rightarrow> log_warn C fmt args w | L_err \<Rightarrow> log_error C fmt args w | L_critical \<Rightarrow> log_critical C fmt args w
        | L_off \<Rightarrow> Inr w)"

lemma log_call_at: "log_call C (lvl, fmt, args) w = (if lvl = L_off then Inr w else log_at lvl C fmt args w)"
  by (cases lvl) (simp_all add: log_call_def log_trace_def log_debug_def log_info_def log_warn_def log_error_def log_critical_def)

definition passes :: "level_enum \<Rightarrow> level_enum \<times> string \<times> 'a list \<Rightarrow> bool" where
  "passes lv c \<longleftrightarrow> lv \<le> fst c \<and> fst c \<noteq> L_off"

text \<open>The messages of a sequence of calls that pass a level and can be formatted.\<close>

definition emitted :: "'a log_config \<Rightarrow> level_enum \<Rightarrow> (level_enum \<times> string \<times> 'a list) list \<Rightarrow> (level_enum \<times> string) list" where
  "emitted C lv cs = List.map_filter (\<lambda>(lvl, fmt, args). map_option (Pair lvl) (lc_format C fmt args)) (filter (passes lv) cs)"

definition fresh_log :: log_world where
  "fresh_log = \<lparr>rg_default = new_spd_logger, rg_loggers = Map.empty, rg_global_level = L_info, rg_flush_level = L_off, rg_flush_every = None, lg_static = False\<rparr>"

definition log_after :: "'a log_config \<Rightarrow> (level_enum \<times> string \<times> 'a list) list \<Rightarrow> log_world" where
  "log_after C cs =
     (let begun = (lc_to_file C \<and> filter (passes (lc_level C)) cs \<noteq> []) in
      fresh_log\<lparr>rg_default := new_spd_logger\<lparr>sl_lines := emitted C (max (lc_level C) L_info) cs\<rparr>,
        rg_loggers := (if begun then [corolog \<mapsto> new_spd_logger\<lparr>sl_level := lc_level C, sl_lines := emitted C (lc_level C) cs\<rparr>] else Map.empty),
        rg_flush_every := (if begun then Some kFlushDura else None), lg_static := begun\<rparr>)"

lemma passes_max: "passes (max a b) c \<longleftrightarrow> passes a c \<and> passes b c"
  by (auto simp: passes_def)

lemma emitted_snoc:
  "emitted C lv (cs @ [(lvl, fmt, args)]) = emitted C lv cs @
     (if passes lv (lvl, fmt, args) then case lc_format C fmt args of None \<Rightarrow> [] | Some t \<Rightarrow> [(lvl, t)] else [])"
  by (auto simp: emitted_def map_filter_def split: option.splits)

lemma emitted_none: "filter (passes lv) cs = [] \<Longrightarrow> emitted C lv cs = []"
  by (simp add: emitted_def map_filter_def)

lemma never_flushed: "lvl \<noteq> L_off \<Longrightarrow> sl_flush_level l = L_off \<Longrightarrow> \<not> should_flush lvl l"
  by (cases lvl) (simp_all add: should_flush_def less_eq_level_enum_def)

lemma spd_log_snoc:
  assumes "lvl \<noteq> L_off"
  shows "spd_log (lc_format C) lvl fmt args (new_spd_logger\<lparr>sl_level := lv, sl_lines := emitted C lw cs\<rparr>) =
    new_spd_logger\<lparr>sl_level := lv, sl_lines := emitted C lw cs @ (if lv \<le> lvl then case lc_format C fmt args of None \<Rightarrow> [] | Some t \<Rightarrow> [(lvl, t)] else [])\<rparr>"
  using never_flushed [OF assms] by (simp add: spd_log_def sink_it_def new_spd_logger_def split: option.split)

lemma log_at_after:
  assumes "lvl \<noteq> L_off" and "lc_to_file C \<Longrightarrow> lc_open C (lc_source_dir C @ kLogFileName)"
  shows "log_at lvl C fmt args (log_after C cs) = Inr (log_after C (cs @ [(lvl, fmt, args)]))"
proof (cases "lc_level C \<le> lvl")
  case False
  then show ?thesis by (simp add: log_at_def log_after_def emitted_snoc passes_max Let_def) (simp add: passes_def)
next
  case True
  then have pass: "passes (lc_level C) (lvl, fmt, args)" using assms(1) by (simp add: passes_def)
  have info: "passes L_info (lvl, fmt, args) = (L_info \<le> lvl)" using assms(1) by (simp add: passes_def)
  have d: "new_spd_logger\<lparr>sl_lines := x\<rparr> = new_spd_logger\<lparr>sl_level := L_info, sl_lines := x\<rparr>" for x by (simp add: new_spd_logger_def)
  have in_file: "spd_log (lc_format C) lvl fmt args (new_spd_logger\<lparr>sl_level := lc_level C, sl_lines := emitted C (lc_level C) cs\<rparr>) =
      new_spd_logger\<lparr>sl_level := lc_level C, sl_lines := emitted C (lc_level C) (cs @ [(lvl, fmt, args)])\<rparr>"
    unfolding spd_log_snoc [OF assms(1)] emitted_snoc using True pass by simp
  have on_console: "spd_log (lc_format C) lvl fmt args (new_spd_logger\<lparr>sl_lines := emitted C (max (lc_level C) L_info) cs\<rparr>) =
      new_spd_logger\<lparr>sl_lines := emitted C (max (lc_level C) L_info) (cs @ [(lvl, fmt, args)])\<rparr>"
    unfolding d spd_log_snoc [OF assms(1)] emitted_snoc passes_max using pass info by simp
  have get: "get_logger C (log_after C cs) = Inr ((log_after C cs)\<lparr>rg_flush_every := Some kFlushDura, lg_static := True,
      rg_loggers := [corolog \<mapsto> new_spd_logger\<lparr>sl_level := lc_level C, sl_lines := emitted C (lc_level C) cs\<rparr>]\<rparr>)" if "lc_to_file C"
  proof (cases "filter (passes (lc_level C)) cs = []")
    case True
    show ?thesis using that assms(2) True
      by (simp add: get_logger_def logger_ctor_def create_file_logger_def initialize_logger_def log_after_def fresh_log_def on_file_def
          emitted_none [OF True] new_spd_logger_def)
  qed (use that in \<open>simp add: get_logger_def log_after_def fresh_log_def\<close>)
  show ?thesis using True pass get in_file on_console
    by (simp add: log_at_def on_file_def log_after_def fresh_log_def Let_def)
qed

text \<open>Whatever is logged, the console gets, in order, the messages that pass both the configured level and \<^verbatim>\<open>info\<close>, the level of the default
  logger, and the file those that pass the configured level. The file is opened by the first message that passes.\<close>

theorem logs_are_filters:
  assumes "lc_to_file C \<Longrightarrow> lc_open C (lc_source_dir C @ kLogFileName)"
  shows "forE cs (log_call C) fresh_log = Inr (log_after C cs)"
proof (induction cs rule: rev_induct)
  case Nil
  show ?case by (simp add: log_after_def fresh_log_def emitted_def map_filter_def new_spd_logger_def)
next
  case (snoc c cs)
  obtain lvl fmt args where c: "c = (lvl, fmt, args)" by (rule prod_cases3)
  have "log_call C c (log_after C cs) = Inr (log_after C (cs @ [c]))"
  proof (cases "lvl = L_off")
    case True
    then show ?thesis by (simp add: c log_call_at log_after_def emitted_snoc passes_def Let_def)
  qed (simp add: c log_call_at log_at_after assms)
  with snoc show ?case by (simp add: forE_append)
qed

text \<open>The destructor sets the level from which messages are flushed and flushes nothing; the periodic flush does.\<close>

lemma logger_dtor_flushes_nothing:
  assumes "rg_loggers (log_after C cs) corolog = Some l"
  shows "sl_flushed l = 0" and "\<exists>l'. rg_loggers (logger_dtor C (log_after C cs)) corolog = Some l' \<and> sl_flushed l' = 0"
    and "\<exists>l'. rg_loggers (flush_all (log_after C cs)) corolog = Some l' \<and> sl_flushed l' = length (emitted C (lc_level C) cs)"
  using assms by (auto simp: log_after_def Let_def logger_dtor_def on_file_def new_spd_logger_def flush_all_def spd_flush_def split: if_splits)

text \<open>Where the file cannot be opened the first message that passes ends the program.\<close>

lemma unopened_log_terminates:
  assumes "lc_to_file C" "\<not> lc_open C (lc_source_dir C @ kLogFileName)" "lc_level C \<le> lvl" "\<not> lg_static w"
  shows "log_at lvl C fmt args w = Inl Std_terminate"
  using assms by (simp add: log_at_def get_logger_def logger_ctor_def create_file_logger_def)

text \<open>At the configured level both logs hold the same messages.\<close>

lemma configured_logs_agree: "lc_level C = LOG_LEVEL \<Longrightarrow> max (lc_level C) L_info = lc_level C"
  by (simp add: LOG_LEVEL_def)

end
