(* ===== verification/Spec2Isabelle.thy ===== *)
theory Spec2Isabelle
  imports Queue_Machine Worker_Loop Scheduler Event Wait_Group Client_Programs Echo_Turn Turns Benchmarks Channel_Bench Log
begin

text \<open>
  A verification library for sheepcoro, a C++20 coroutine runtime on Linux io_uring.

  \<^bold>\<open>The program.\<close> A coroutine is a heap frame with a promise; \<^verbatim>\<open>task<T>\<close> owns one. A \<^verbatim>\<open>context\<close> is a worker thread with an
  \<^verbatim>\<open>engine\<close>, which has a bounded lock-free queue of ready coroutine handles and a \<^verbatim>\<open>uring_proxy\<close>: an io_uring ring
  with an eventfd on which the worker sleeps. Another thread submits a handle by pushing it into the queue and adding \<open>2 ^ 44\<close>
  to the eventfd; completions of I/O add 1. The worker's loop runs the ready handles, asks whether it is idle, submits
  prepared requests, reads the eventfd and calls the callbacks of the completions. The \<^verbatim>\<open>scheduler\<close> starts the contexts, deals
  tasks out in turn and stops all workers when the last one is idle. On this rest the synchronisation primitives,
  whose waiting coroutines are linked awaiters in their own frames and are resumed by submitting them to
  the context they came from, and asynchronous I/O, whose awaiters are the user data of ring entries.

  \<^bold>\<open>Theories, and what they model.\<close>
  \<^item> \<open>Prelude\<close>: failures and results, sequencing, pointer chains, words, reachability; the locale \<open>step_system\<close> of machines
    with an invariant. \<open>Config\<close>: constants of \<^verbatim>\<open>config/config.h.in\<close>.
  \<^item> \<open>Bounded_Fifo\<close>: the contract of a bounded queue (locale \<open>bounded_fifo\<close>), interpreted by the task queue and by the buffers of channels.
  \<^item> \<open>Atomic_Queue\<close>: \<^verbatim>\<open>AtomicQueueB2\<close> of \<^verbatim>\<open>third_party/atomic_queue\<close> as \<^verbatim>\<open>atomic_que.hpp\<close> instantiates it, 32-bit wrapping counters and index
    shuffling included.
  \<^item> \<open>Container\<close>, \<open>Task\<close>: \<^verbatim>\<open>detail/container.hpp\<close> and \<^verbatim>\<open>task.hpp\<close>: results, promises, awaiting, ownership of frames.
  \<^item> \<open>Marked_Buffer\<close>, \<open>Uring_Proxy\<close>: \<^verbatim>\<open>marked_buffer.hpp\<close>, \<^verbatim>\<open>uring_proxy.hpp\<close>, \<^verbatim>\<open>io/base_io_type.hpp\<close>: slots of registered files, ring and eventfd.
  \<^item> \<open>Engine\<close>, \<open>Task_Sink\<close>, \<open>Context\<close>, \<open>Scheduler\<close>: \<^verbatim>\<open>engine.hpp\<close>, \<^verbatim>\<open>engine.cpp\<close>, \<^verbatim>\<open>meta_info.hpp\<close>, \<^verbatim>\<open>context.hpp\<close>, \<^verbatim>\<open>context.cpp\<close>, \<^verbatim>\<open>dispatcher.hpp\<close>,
    \<^verbatim>\<open>scheduler.hpp\<close>, \<^verbatim>\<open>scheduler.cpp\<close>. The locale \<open>task_sink\<close> is what the primitives rely on: a submission with room is queued
    at its context and changes nothing else; \<open>Context\<close> interprets it.
  \<^item> \<open>Awaiter\<close>, \<open>Event\<close>, \<open>Wait_Group\<close>: linked awaiters; \<^verbatim>\<open>comp/event\<close>, \<^verbatim>\<open>comp/latch.hpp\<close>, \<^verbatim>\<open>comp/wait_group\<close>.
  \<^item> \<open>Fifo_Lock\<close>, \<open>Mutex\<close>: the contract of a lock that is handed over in order of arrival, and \<^verbatim>\<open>comp/mutex\<close>, \<^verbatim>\<open>comp/mutex_guard.hpp\<close>.
  \<^item> \<open>Condition_Variable\<close>: \<^verbatim>\<open>spinlock.hpp\<close>, \<^verbatim>\<open>comp/condition_variable\<close>, with the virtual \<^verbatim>\<open>resume\<close> that \<^verbatim>\<open>mutex::unlock\<close> calls.
  \<^item> \<open>Channel_Buffer\<close>, \<open>Channel\<close>: \<^verbatim>\<open>comp/channel.hpp\<close>.
  \<^item> \<open>Io_Awaiter\<close>, \<open>Timer\<close>, \<open>Tcp\<close>: \<^verbatim>\<open>io/io_info.hpp\<close>, \<^verbatim>\<open>io/base_awaiter.hpp\<close>, \<^verbatim>\<open>io/io_awaiter.cpp\<close>, \<^verbatim>\<open>timer.hpp\<close>, \<^verbatim>\<open>io/net/tcp\<close>, \<^verbatim>\<open>utils.cpp\<close>.
  \<^item> \<open>Queue_Machine\<close>: the task queue again, with any number of producers and one consumer that interleave at every atomic access.
  \<^item> \<open>Worker_Loop\<close>: the worker's loop as a whole; the locale \<open>executor\<close> says what one turn relies on.
  \<^item> \<open>Io_Coroutine\<close>: coroutines that do one I/O request at a time, what they may ask for and how their lives go on in a program that does
    anything else in between (locale \<open>io_coroutine\<close>). \<open>Echo_Server\<close>: the three servers of \<^verbatim>\<open>benchmark/sheepcoro_model\<close>. \<open>Client_Programs\<close>:
    \<^verbatim>\<open>examples/stdin_client.cpp\<close> and \<^verbatim>\<open>examples/timer.cpp\<close>. Both interpret the locale for each of their coroutines.
  \<^item> \<open>Completion\<close>: one poll of a worker that a completion has woken, with all it leaves alone. \<open>Echo_Turn\<close>: an echo session together with the
    worker it runs on, turn by turn, as a relation \<open>worker_turns\<close> between states.
  \<^item> \<open>Thread_Pool\<close>, \<open>Monitor\<close>, \<open>Turns\<close>, \<open>Benchmarks\<close>, \<open>Channel_Bench\<close>: \<^verbatim>\<open>benchtests/\<close>: the thread pool with blocking tasks, the monitor that stands
    in for a channel, two coroutines that take turns with a standard condition variable, the coroutines on the library's primitives with their drivers, and the coroutines on the library's channel.
  \<^item> \<open>Log\<close>: \<^verbatim>\<open>log.hpp\<close> and what it uses of spdlog.

  \<^bold>\<open>State.\<close> The world is a record that grows along the theories: \<open>eworld\<close> (engines, frames, task objects, the running thread's
  context and engine), \<open>cworld\<close> (contexts), \<open>sworld\<close> (the scheduler), \<open>aworld\<close> (awaiters) or \<open>ioworld\<close> (I/O requests), then one extension per primitive or
  program. Operations are polymorphic in what
  extends their record, so they compose without lifting. An operation returns \<open>error + world\<close>; asserts, null
  pointers, freed objects, \<^verbatim>\<open>std::exit\<close> and blocking calls are errors. What resuming a coroutine does is
  an argument \<open>resume\<close>. Loops over linked lists and the worker loop are \<open>partial_function (option)\<close>: \<open>None\<close> is not returning,
  and theorems show that they return. There is no fuel.

  \<^bold>\<open>Interleaving.\<close> The sequential operations of event, wait group, mutex, channel and of the scheduler's stop protocol stand beside
  machines (\<open>event_step\<close>, \<open>wg_step\<close>, \<open>mutex_step\<close>, \<open>chan_step\<close>, \<open>stop_step\<close>, \<open>queue_step\<close>, \<open>pool_step\<close>, \<open>monitor_step\<close>, \<open>turn_step\<close>, \<open>bench_step\<close>) whose steps are the atomic accesses of the code
  by any number of threads; their invariants are interpretations of \<open>step_system\<close>. Memory is sequentially consistent.

  \<^bold>\<open>What the theorems show.\<close> Queues: first in, first out, within capacity, over wrap-around. Engine and context: submission,
  scheduling, wake-up values, I/O accounting, idle detection. Primitives: who is resumed, once, where and in which
  order; no waiter is forgotten (event, mutex) or how one can be (wait group, channel closing). Condition variable: handing over returns
  and serves the first sleeper whose predicate holds. Channel: the three buffers are one bounded list, a value sent to a sleeping receiver is
  what it receives, all values are delivered in order. I/O: requests make the round trip to the coroutine that awaits
  them; slots of registered files are never lent twice. Programs: what an echo session answers to every sequence of results,
  and that its worker goes on with it to its end, that every connection gets one session, that blocking benchmarks end and the channel's deliver. Root: a submission wakes
  a sleeping worker, a completion resumes its coroutine, setting an event runs its waiters. Error theorems exhibit defects of the code at the lines the manifest names.

  \<^bold>\<open>Outside the model.\<close> liburing, the kernel and the socket calls are records of functions with documented behaviour as named
  hypotheses (\<open>eventfd_doc\<close>, \<open>files_update_doc\<close>, \<open>peek_doc\<close>, \<open>sqe_doc\<close>, \<open>inet_pton_doc\<close>). Weak memory orders, the layout of log lines, compile-time
  concepts and attributes, the part of \<^verbatim>\<open>timer.hpp\<close> that cannot be instantiated, the benchmark of \<^verbatim>\<open>notify_all\<close> on the standard library,
  which unlocks its mutex twice, the pool tasks that read a loop variable that has ended, the string benchmark and the tests are not modelled.
  A condition variable's predicates read only the user's data, and one channel is modelled at a time.
\<close>

section \<open>Components together\<close>

text \<open>C17: a sleeping worker and the submissions of other threads: without work the worker waits on its eventfd; after any number of
  submissions that its queue and eventfd take, its wait returns, and its next turn runs exactly the submitted coroutines,
  each once and in the order of submission. Queue, eventfd, engine and context work together here.\<close>

theorem submission_wakes_worker:
  assumes ok: "contexts_ok K cnt w" and app: "only_appends resume c" and idle: "queued c w = []" "efd_count cnt c w = 0" "empty_io c w"
    and hs: "hs \<noteq> []" "nullptr \<notin> set hs" "length hs \<le> context_room cnt c w"
  shows "poll_work K cb c w = Inl Blocks \<and>
    (\<exists>w1 w2. forE hs (context_submit K resume c) w = Inr w1 \<and> poll_work K cb c w1 = Inr w2 \<and>
      process_work resume c w2 = forE hs (run_task_of resume c) w2 \<and> w_frames w2 = w_frames w)"
proof -
  have doc: "eventfd_doc K cnt" and efd: "efd_open c w" and inv: "queue_inv c w" using ok by (simp_all add: contexts_ok_def)
  have io: "m_num_io_wait_submit (engines w c) = 0" using idle(3) by (simp add: empty_io_def)
  have len: "length hs \<le> queue_size c w" "length hs \<le> eventfd_max div 2 ^ 44"
    using hs(3) idle by (simp_all add: context_room_def)
  then have small: "length hs < 2 ^ 20" and "length hs * 2 ^ 44 \<le> eventfd_max" by (simp_all add: eventfd_max_def)
  then obtain w1 where w1: "forE hs (submit_task K resume c) w = Inr w1" "queue_inv c w1" "queued c w1 = hs" "efd_open c w1"
      "efd_count cnt c w1 = length hs * 2 ^ 44" "m_num_io_wait_submit (engines w1 c) = 0" "w_frames w1 = w_frames w"
    using submit_tasks_queued [OF doc efd inv, of hs resume] len(1) hs(2) idle io by auto
  from poll_submit_tasks [OF doc w1(4,6,5)] small hs(1) obtain u where
    poll: "poll_submit K cb c w1 = Inr (put_engine c ((engines w1 c)\<lparr>m_upxy := u\<rparr>) w1)" by auto
  let ?w2 = "put_engine c ((engines w1 c)\<lparr>m_upxy := u\<rparr>) w1"
  have "process_work resume c ?w2 = forE (queued c ?w2) (run_task_of resume c) ?w2"
    using app w1(2,3) hs(2) by (intro process_work_tasks) simp_all
  moreover have "forE hs (context_submit K resume c) w = Inr w1" using w1(1) by (simp add: context_submit_def [abs_def])
  ultimately show ?thesis using poll w1(3,7) poll_submit_sleeps [OF doc efd io idle(2), of cb] by (simp add: poll_work_def)
qed

definition idle_world :: "nat cworld" where
  "idle_world = eworld.extend sample_world \<lparr>contexts = (\<lambda>_. sample_context)\<rparr>"

theorem submission_wakes_worker_witness:
  "\<exists>w1 w2. forE [71, 72] (context_submit sample_kernel finishing 0) idle_world = Inr w1 \<and>
     poll_work sample_kernel (\<lambda>d r v. Inr v) 0 w1 = Inr w2 \<and>
     process_work finishing 0 w2 = forE [71, 72] (run_task_of finishing 0) w2"
proof -
  have e: "engines idle_world = engines sample_world" by (simp add: idle_world_def eworld.defs)
  have "efd_count (\<lambda>fd k. k) 0 idle_world = 0" using sample_efd(2) [of 0] by (simp add: efd_count_def e)
  moreover have "empty_io 0 idle_world" by (simp add: empty_io_def e sample_world_def sample_engine_def)
  moreover have "queued 0 idle_world = []" using sample_queue(2) [of 0] by (simp add: e)
  ultimately show ?thesis
    using submission_wakes_worker [OF sample_room(1) [OF e] finishing_appends, of 0 "[71, 72]" "\<lambda>d r v. Inr v"] sample_room(2) [OF e, of 0]
    by auto
qed

text \<open>C23: an I/O request from its completion to the coroutine: when the kernel reports it complete with \<open>r\<close>, the worker's poll submits
  what was waiting, is woken, finds the completion, and calls the callback stored in the request's \<^verbatim>\<open>io_info\<close>; this queues the awaiting
  coroutine behind the tasks that were ready, the next turn of the same worker runs them all in order, and the coroutine
  gets the outcome of its request. No other context is disturbed.\<close>

theorem io_completion_resumes:
  assumes ok: "contexts_ok K cnt w" and room: "length (queued i w) < queue_size i w" and thread: "linfo_ctx w = Some i"
    and app: "only_appends resume i" "nullptr \<notin> set (queued i w)"
    and info: "a \<noteq> nullptr" "infos w a = Some x" "io_handle x \<noteq> nullptr" "io_cb x = Some cb"
    and io: "0 < unat (m_num_io_running (engines w i) + m_num_io_wait_submit (engines w i))"
      "unat (m_num_io_running (engines w i) + m_num_io_wait_submit (engines w i)) < 2 ^ 32"
    and kernel: "kernel_completes K i a r w"
  shows "\<exists>w'. poll_work K (io_callback K resume) i w = Inr w' \<and> io_await_resume a w' = Inr (io_outcome cb (io_data x) r) \<and>
    process_work resume i w' = forE (queued i w @ [io_handle x]) (run_task_of resume i) w' \<and>
    (\<forall>d. d \<noteq> i \<longrightarrow> queued d w' = queued d w)"
proof -
  from completion_polled [OF ok room thread info io kernel, of resume] obtain w' where
    w': "poll_work K (io_callback K resume) i w = Inr w'" "infos w' = (infos w)(a \<mapsto> x\<lparr>io_result := io_outcome cb (io_data x) r\<rparr>)"
      "contexts_ok K cnt w'" "queued i w' = queued i w @ [io_handle x]" "\<forall>d. d \<noteq> i \<longrightarrow> queued d w' = queued d w" by blast
  have "process_work resume i w' = forE (queued i w') (run_task_of resume i) w'"
    by (rule process_work_tasks [OF app(1)]) (use w' app(2) info(3) in \<open>simp_all add: contexts_ok_def\<close>)
  moreover have "io_await_resume a w' = Inr (io_outcome cb (io_data x) r)" using info(1) w'(2) by (simp add: io_await_resume_def)
  ultimately show ?thesis using w' by (intro exI [of _ w']) simp
qed

definition completing_kernel :: "nat kernel_ops" where
  "completing_kernel = sample_kernel\<lparr>k_peek_batch_cqe := (\<lambda>n k. take n [\<lparr>user_data = 40, res = 128\<rparr>])\<rparr>"

definition reading_world :: "nat ioworld" where
  "reading_world =
     put_info 40 (garbage_info\<lparr>io_handle := 70, io_kind := Io_tcp_read, io_cb := Some Read_cb\<rparr>)
       (put_engine 0 (sample_engine\<lparr>m_num_io_wait_submit := 1, m_upxy := sample_proxy\<lparr>m_uring := 1\<rparr>\<rparr>) sample_ioworld)"

lemma completing_doc: "eventfd_doc completing_kernel (\<lambda>fd k. k)"
  using sample_eventfd_doc by (simp add: eventfd_doc_def completing_kernel_def)

lemma reading_engine: "engines reading_world = (engines sample_world)(0 := sample_engine\<lparr>m_num_io_wait_submit := 1, m_upxy := sample_proxy\<lparr>m_uring := 1\<rparr>\<rparr>)"
  by (simp add: reading_world_def sample_io(1))

lemma reading_room:
  "contexts_ok completing_kernel (\<lambda>fd k. k) reading_world" "queued c reading_world = []" "queue_size c reading_world = 16384"
proof -
  have q: "m_task_queue (engines reading_world c) = m_task_queue (engines sample_world c)" for c
    by (simp add: reading_engine sample_world_def)
  have "efd_open c reading_world" for c using sample_efd(1) [of c] by (simp add: efd_open_def reading_engine sample_world_def sample_engine_def)
  then show "contexts_ok completing_kernel (\<lambda>fd k. k) reading_world"
    using sample_queue(1) q by (simp add: contexts_ok_def completing_doc)
  show "queued c reading_world = []" "queue_size c reading_world = 16384" unfolding q by (rule sample_queue)+
qed

theorem io_completion_resumes_witness:
  "\<exists>w'. poll_work completing_kernel (io_callback completing_kernel finishing) 0 reading_world = Inr w' \<and>
     io_await_resume 40 w' = Inr 128 \<and> process_work finishing 0 w' = forE [70] (run_task_of finishing 0) w'"
proof -
  have "wake_by_cqe 1" by code_simp
  then have k: "kernel_completes completing_kernel 0 40 128 reading_world"
    by (simp add: kernel_completes_def do_io_submit_def Let_def reading_engine submit_def completing_kernel_def sample_kernel_def
        sample_proxy_def ioinfo_to_ptr_def)
  have info: "infos reading_world 40 = Some (garbage_info\<lparr>io_handle := 70, io_kind := Io_tcp_read, io_cb := Some Read_cb\<rparr>)"
    "linfo_ctx reading_world = Some 0" by (simp_all add: reading_world_def sample_io)
  have io: "m_num_io_running (engines reading_world 0) + m_num_io_wait_submit (engines reading_world 0) = 1"
    by (simp add: reading_engine sample_engine_def)
  from io_completion_resumes [OF reading_room(1) _ info(2) finishing_appends _ _ info(1) _ _ _ _ k] show ?thesis
    by (simp add: io io_outcome_def reading_room) blast
qed

text \<open>C6: setting an event, down to the execution of the waiters: \<^verbatim>\<open>set\<close> returns and leaves the event set, a second one does nothing, and
  in the next turn of every context the tasks that were ready and then its waiting coroutines, the latest waiter first, run
  exactly once each.\<close>

theorem event_set_runs_waiters:
  assumes wait: "waiting (awaiters w) (m_state w e) as" and unset: "\<not> is_set e w" and can: "can_resume K cnt as w"
    and app: "\<forall>c. only_appends resume c \<and> nullptr \<notin> set (queued c w)"
  shows "\<exists>w'. event_set K resume e w = Some (Inr w') \<and> is_set e w' \<and> event_set K resume e w' = Some (Inr w') \<and>
    (\<forall>c. process_work resume c w' = forE (queued c w @ for_context c (jobs_of (awaiters w) as)) (run_task_of resume c) w')"
proof -
  from event_set_all [OF wait unset can, of resume] obtain w' where
    w': "event_set K resume e w = Some (Inr w')" "is_set e w'" "event_set K resume e w' = Some (Inr w')" "contexts_ok K cnt w'"
      "\<forall>c. queued c w' = queued c w @ for_context c (jobs_of (awaiters w) as)" by blast
  have "nullptr \<notin> set (for_context c (jobs_of (awaiters w) as))" for c
    using can by (auto simp: can_resume_def for_context_def)
  then have "executor_ok K cnt resume w'" using app w'(4,5) by (simp add: executor_ok_def)
  with w' show ?thesis using ex.turn_runs [of K cnt resume w'] by auto
qed

theorem event_set_runs_waiters_witness:
  "\<exists>w'. event_set sample_kernel finishing 5 sample_evworld = Some (Inr w') \<and>
     process_work finishing 0 w' = forE [71] (run_task_of finishing 0) w' \<and>
     process_work finishing 1 w' = forE [72] (run_task_of finishing 1) w'"
proof -
  have w: "waiting (awaiters sample_evworld) (m_state sample_evworld 5) [11, 12]" "\<not> is_set 5 sample_evworld"
    unfolding sample_evworld_simps fun_upd_same by (rule sample_waiting, simp add: is_set_def)
  have q: "queued c sample_evworld = []" for c using sample_queue(2) [of c] by simp
  from event_set_runs_waiters [OF w sample_can_resume, of finishing] finishing_appends q obtain w' where
    "event_set sample_kernel finishing 5 sample_evworld = Some (Inr w')"
    and r: "\<And>c. process_work finishing c w' = forE (for_context c (jobs_of sample_awaiters [11, 12])) (run_task_of finishing c) w'" by auto
  moreover have "for_context 0 (jobs_of sample_awaiters [11, 12]) = [71]" "for_context 1 (jobs_of sample_awaiters [11, 12]) = [72]"
    by (simp_all add: sample_awaiters_def)
  ultimately show ?thesis using r [of 0] r [of 1] by metis
qed

end
